(* ===== verification/Pax_Prelude.thy ===== *)
theory Pax_Prelude
  imports Complex_Main "HOL-Library.Word" "HOL-Library.Multiset"
begin

section \<open>Prelude: machine types, faults, byte encodings\<close>

text \<open>
  What every component shares. The integer types of include/common.hpp are words of their
  width, a \<open>std::string\<close> is a \<open>string\<close> (a list of 8-bit characters). A C++ operation
  whose behaviour is undefined, or that blocks its own thread for ever, is a value of the
  type \<open>fault\<close>; an operation that can reach one returns a sum, \<open>Inl\<close> the fault.
  The second half holds the little-endian copies that \<open>memcpy\<close>, \<open>read\<close> and
  \<open>write\<close> make of an integer object, and decimal printing (\<open>std::to_string\<close>).
\<close>

subsection \<open>Types of include/common.hpp\<close>

type_synonym u64 = "64 word"
type_synonym u32 = "32 word"

type_synonym node_id_t = u64
type_synonym proposal_id_t = u64
type_synonym instance_id_t = u64
type_synonym index_t = u64
type_synonym millisec = u64
type_synonym LogValue = string

abbreviation (input) NODE_DUMMY :: node_id_t where "NODE_DUMMY \<equiv> 0"
abbreviation (input) PROPOSAL_DUMMY :: proposal_id_t where "PROPOSAL_DUMMY \<equiv> 0"
abbreviation (input) INSTANCE_DUMMY :: instance_id_t where "INSTANCE_DUMMY \<equiv> 0"

subsection \<open>Faults and the result type\<close>

datatype fault =
    NullPointer      \<comment> \<open>a null pointer is dereferenced\<close>
  | EmptyAccess      \<comment> \<open>front or pop of an empty container\<close>
  | OutOfBounds      \<comment> \<open>memory is read past the end of an object\<close>
  | UninitRead       \<comment> \<open>an indeterminate value decides what happens next\<close>
  | SelfDeadlock     \<comment> \<open>a thread locks a \<open>std::mutex\<close> it already holds\<close>
  | AssertFailed     \<comment> \<open>a failing \<open>assert\<close>\<close>
  | BadCall          \<comment> \<open>an empty \<open>std::function\<close> is called\<close>
  | SignedOverflow   \<comment> \<open>signed arithmetic leaves its type\<close>
  | UncaughtError    \<comment> \<open>an exception that nothing catches\<close>
  | ConversionOverflow  \<comment> \<open>a floating-point value does not fit the integer it becomes\<close>
  | UseAfterFree     \<comment> \<open>an object is used after its destruction\<close>

type_synonym 'a res = "fault + 'a"

definition bind_res :: "'a res \<Rightarrow> ('a \<Rightarrow> 'b res) \<Rightarrow> 'b res" where
  "bind_res r f = (case r of Inl e \<Rightarrow> Inl e | Inr a \<Rightarrow> f a)"

named_theorems res_simps \<open>evaluation of the fault monad\<close>

lemma bind_res_Inr [simp, res_simps]: "bind_res (Inr a) f = f a"
  by (simp add: bind_res_def)

lemma bind_res_Inl [simp, res_simps]: "bind_res (Inl e) f = Inl e"
  by (simp add: bind_res_def)

lemma bind_res_eq_Inr: "bind_res r f = Inr b \<longleftrightarrow> (\<exists>a. r = Inr a \<and> f a = Inr b)"
  by (cases r) auto

lemma bind_res_eq_Inl: "bind_res r f = Inl e \<longleftrightarrow> r = Inl e \<or> (\<exists>a. r = Inr a \<and> f a = Inl e)"
  by (cases r) auto

lemma bind_res_assoc: "bind_res (bind_res r f) g = bind_res r (\<lambda>a. bind_res (f a) g)"
  by (cases r) auto

definition is_ok :: "'a res \<Rightarrow> bool" where
  "is_ok r = (case r of Inl _ \<Rightarrow> False | Inr _ \<Rightarrow> True)"

lemma is_ok_simps [simp]: "is_ok (Inr a)" "\<not> is_ok (Inl e)"
  by (simp_all add: is_ok_def)

subsection \<open>Little-endian images of integer objects\<close>

fun le_bytes :: "nat \<Rightarrow> nat \<Rightarrow> string" where
  "le_bytes 0 x = []"
| "le_bytes (Suc k) x = char_of (x mod 256) # le_bytes k (x div 256)"

fun le_val :: "string \<Rightarrow> nat" where
  "le_val [] = 0"
| "le_val (c # cs) = of_char c + 256 * le_val cs"

lemma length_le_bytes [simp]: "length (le_bytes k x) = k"
  by (induction k arbitrary: x) auto

lemma le_val_le_bytes: "le_val (le_bytes k x) = x mod 256 ^ k"
proof (induction k arbitrary: x)
  case 0
  then show ?case by simp
next
  case (Suc k)
  have "x mod 256 ^ Suc k = x mod 256 + 256 * (x div 256 mod 256 ^ k)"
    by (simp add: mod_mult2_eq)
  then show ?case using Suc by simp
qed

lemma le_val_le_bytes_id [simp]: "x < 256 ^ k \<Longrightarrow> le_val (le_bytes k x) = x"
  by (simp add: le_val_le_bytes)

lemma le_val_bound: "le_val s < 256 ^ length s"
proof (induction s)
  case Nil
  then show ?case by simp
next
  case (Cons c s)
  define p :: nat where "p = 256 ^ length s"
  have "(of_char c :: nat) < 256" by (rule nat_of_char_less_256)
  moreover have "le_val s < p" using Cons by (simp add: p_def)
  ultimately have "of_char c + 256 * le_val s < 256 * p" by linarith
  then show ?case by (simp add: p_def)
qed

lemma le_bytes_le_val: "length s = k \<Longrightarrow> le_bytes k (le_val s) = s"
proof (induction s arbitrary: k)
  case Nil
  then show ?case by simp
next
  case (Cons c s)
  have "(of_char c :: nat) < 256" by simp
  with Cons show ?case by auto
qed

text \<open>The byte images of the words the program copies.\<close>

definition word_bytes :: "nat \<Rightarrow> 'a::len word \<Rightarrow> string" where
  "word_bytes k w = le_bytes k (unat w)"

definition word_of_bytes :: "string \<Rightarrow> 'a::len word" where
  "word_of_bytes s = word_of_nat (le_val s)"

lemma length_word_bytes [simp]: "length (word_bytes k w) = k"
  by (simp add: word_bytes_def)

lemma word_of_bytes_word_bytes:
  fixes w :: "'a::len word"
  assumes "LENGTH('a) \<le> 8 * k"
  shows "word_of_bytes (word_bytes k w) = w"
proof -
  have "unat w < 2 ^ LENGTH('a)" by (rule unsigned_less)
  also have "(2::nat) ^ LENGTH('a) \<le> 2 ^ (8 * k)"
    using assms by (intro power_increasing) auto
  also have "(2::nat) ^ (8 * k) = 256 ^ k" by (simp add: power_mult)
  finally show ?thesis by (simp add: word_of_bytes_def word_bytes_def)
qed

lemma word_bytes_8 [simp]: "word_of_bytes (word_bytes 8 (w :: u64)) = w"
  by (rule word_of_bytes_word_bytes) simp

lemma word_bytes_4 [simp]: "word_of_bytes (word_bytes 4 (w :: u32)) = w"
  by (rule word_of_bytes_word_bytes) simp

subsection \<open>std::to_string\<close>

fun nat_digits :: "nat \<Rightarrow> string" where
  "nat_digits n = (if n < 10 then [char_of (48 + n)]
     else nat_digits (n div 10) @ [char_of (48 + n mod 10)])"

declare nat_digits.simps [simp del]

definition to_string :: "u64 \<Rightarrow> string" where
  "to_string w = nat_digits (unat w)"

fun digits_val :: "string \<Rightarrow> nat \<Rightarrow> nat" where
  "digits_val [] acc = acc"
| "digits_val (c # cs) acc = digits_val cs (10 * acc + (of_char c - 48))"

lemma digits_val_append: "digits_val (xs @ ys) acc = digits_val ys (digits_val xs acc)"
  by (induction xs arbitrary: acc) auto

lemma digits_val_nat_digits: "digits_val (nat_digits n) 0 = n"
proof (induction n rule: nat_digits.induct)
  case (1 n)
  show ?case
  proof (cases "n < 10")
    case True
    then show ?thesis by (subst nat_digits.simps) simp
  next
    case False
    with 1 show ?thesis by (subst nat_digits.simps) (simp add: digits_val_append)
  qed
qed

lemma to_string_inject [simp]: "to_string a = to_string b \<longleftrightarrow> a = b"
  by (metis digits_val_nat_digits to_string_def unsigned_word_eqI)

lemma nat_digits_nonempty: "nat_digits n \<noteq> []"
  by (subst nat_digits.simps) simp

lemma length_nat_digits_small: "n < 10 \<Longrightarrow> length (nat_digits n) = 1"
  by (subst nat_digits.simps) simp

subsection \<open>Words\<close>

lemma word_plus_one_nonzero: "s < - 1 \<Longrightarrow> s + 1 \<noteq> (0 :: 'a::len word)"
  using add_eq_0_iff2 [of s 1] by auto

lemma unat_plus_one: "s < - 1 \<Longrightarrow> unat (s + 1 :: 'a::len word) = Suc (unat s)"
  using word_plus_one_nonzero [of s] by (simp add: unatSuc add.commute)

lemma unat_u64_less: "unat (w :: u64) < 2 ^ 64"
proof -
  have "unat w < 2 ^ LENGTH(64)" by (rule unsigned_less)
  then show ?thesis by simp
qed

lemma word_of_nat_unat: "of_nat (unat w) = (w :: 'a::len word)"
  by simp

lemma unat_minus_one_nonzero: "0 < unat w \<Longrightarrow> unat (w - 1 :: 'a::len word) = unat w - 1"
  by (metis diff_Suc_1 less_irrefl_nat unat_minus_one unsigned_0)

lemma unat_of_nat_u64: "n < 2 ^ 64 \<Longrightarrow> unat (of_nat n :: u64) = n"
  by (simp add: unsigned_of_nat take_bit_nat_eq_self)

lemma word_less_plus_one: "s < - 1 \<Longrightarrow> v \<le> s \<Longrightarrow> v < s + (1 :: 'a::len word)"
  by (simp add: word_less_nat_alt [of v] word_le_nat_alt unat_plus_one)

subsection \<open>Lists\<close>

lemma add_mset_subset_set: "add_mset x (mset xs) \<subseteq># mset ys \<Longrightarrow> x \<in> set ys"
  using mset_subset_eqD [of "add_mset x (mset xs)" "mset ys" x] by simp

lemma distinct_map_submset:
  assumes "mset xs \<subseteq># mset ys" and "distinct (map f ys)"
  shows "distinct (map f xs)"
proof -
  obtain N where N: "mset ys = mset xs + N"
    using assms(1) by (auto simp: mset_subset_eq_exists_conv)
  obtain zs where "mset zs = N" using ex_mset by blast
  with N have "mset (xs @ zs) = mset ys" by simp
  then have "mset (map f (xs @ zs)) = mset (map f ys)" by (simp only: mset_map)
  then have "distinct (map f (xs @ zs))"
    using assms(2) mset_eq_imp_distinct_iff by blast
  then show ?thesis by simp
qed

lemma take_drop_append:
  "n + m \<le> length xs \<Longrightarrow> take m (drop n (xs @ ys)) = take m (drop n xs)"
  by simp

lemma fold_invariant:
  assumes "P s" and "\<And>x s. x \<in> set xs \<Longrightarrow> P s \<Longrightarrow> P (f x s)"
  shows "P (fold f xs s)"
  using assms by (induction xs arbitrary: s) auto

end
