(* ===== verification/Pax_Messages.thy ===== *)
theory Pax_Messages
  imports Pax_Prelude
begin

section \<open>Messages (include/messages.hpp) and their routing classes\<close>

text \<open>
  The wire-independent message of the three Paxos roles: the enumeration of message types
  with its numeric values, the \<open>PaxMessage\<close> class as a record (a selector is the getter, a
  record update the setter), its two-argument constructor, and the four predicates by
  which core/controller.cpp decides which role a message is for.
\<close>

datatype MessageType =
    kNone
  | kMSG_PROPOSE_BROADCAST
  | kMSG_ACCEPT_BROADCAST
  | kMSG_PROPOSE_ACK
  | kMSG_ACCEPT_ACK
  | kMSG_VALUE_CHOSEN
  | kMSG_SHALL_I_LEARN
  | kMSG_CONFIRM_LEARN
  | kMSG_LEARNER_VALUE_SEND
  | kMSG_LEARNER_VALUE_SYNC
  | kMSG_SYNC_VALUE_ACK
  | kMSG_VALUE_CHOSEN_BROADCAST
  | kMSG_TELL_INSTANCE_ID
  | kPLACEHOLDER_NEW_VALUE_COMMITTED

text \<open>The values of the enumerators; one without an initialiser is its predecessor plus one.\<close>

fun message_code :: "MessageType \<Rightarrow> nat" where
  "message_code kNone = 0"
| "message_code kMSG_PROPOSE_BROADCAST = push_bit 3 0x1"
| "message_code kMSG_ACCEPT_BROADCAST = push_bit 3 0x1 + 1"
| "message_code kMSG_PROPOSE_ACK = push_bit 3 0x11"
| "message_code kMSG_ACCEPT_ACK = push_bit 3 0x11 + 1"
| "message_code kMSG_VALUE_CHOSEN = push_bit 3 0x111"
| "message_code kMSG_SHALL_I_LEARN = push_bit 3 0x111 + 1"
| "message_code kMSG_CONFIRM_LEARN = push_bit 3 0x111 + 2"
| "message_code kMSG_LEARNER_VALUE_SEND = push_bit 3 0x111 + 3"
| "message_code kMSG_LEARNER_VALUE_SYNC = push_bit 3 0x111 + 4"
| "message_code kMSG_SYNC_VALUE_ACK = push_bit 3 0x111 + 5"
| "message_code kMSG_VALUE_CHOSEN_BROADCAST = push_bit 3 0x111 + 6"
| "message_code kMSG_TELL_INSTANCE_ID = push_bit 3 0x111 + 7"
| "message_code kPLACEHOLDER_NEW_VALUE_COMMITTED = push_bit 3 0x1111"

record PaxMessage =
  pm_proposedLogValue :: LogValue
  pm_acceptedValue :: LogValue
  pm_learnedValue :: LogValue
  pm_chosenValue :: LogValue
  pm_promisedProposalId :: proposal_id_t
  pm_promisedNodeId :: node_id_t
  pm_instanceId :: instance_id_t
  pm_proposalId :: proposal_id_t
  pm_proposingNodeId :: node_id_t
  pm_followingNodeId :: node_id_t
  pm_messageType :: MessageType
  pm_acceptedProposalId :: proposal_id_t
  pm_leaderInstanceId :: instance_id_t
  pm_senderId :: node_id_t
  pm_rejected :: bool

definition new_PaxMessage :: "node_id_t \<Rightarrow> MessageType \<Rightarrow> PaxMessage" where
  "new_PaxMessage sender_id message_type =
     \<lparr> pm_proposedLogValue = [], pm_acceptedValue = [], pm_learnedValue = [],
       pm_chosenValue = [], pm_promisedProposalId = 0, pm_promisedNodeId = 0,
       pm_instanceId = 0, pm_proposalId = 0, pm_proposingNodeId = 0,
       pm_followingNodeId = 0, pm_messageType = message_type,
       pm_acceptedProposalId = 0, pm_leaderInstanceId = 0,
       pm_senderId = sender_id, pm_rejected = False \<rparr>"

lemma new_PaxMessage_sel [simp]:
  "pm_proposedLogValue (new_PaxMessage s t) = []"
  "pm_acceptedValue (new_PaxMessage s t) = []"
  "pm_learnedValue (new_PaxMessage s t) = []"
  "pm_chosenValue (new_PaxMessage s t) = []"
  "pm_promisedProposalId (new_PaxMessage s t) = 0"
  "pm_promisedNodeId (new_PaxMessage s t) = 0"
  "pm_instanceId (new_PaxMessage s t) = 0"
  "pm_proposalId (new_PaxMessage s t) = 0"
  "pm_proposingNodeId (new_PaxMessage s t) = 0"
  "pm_followingNodeId (new_PaxMessage s t) = 0"
  "pm_messageType (new_PaxMessage s t) = t"
  "pm_acceptedProposalId (new_PaxMessage s t) = 0"
  "pm_leaderInstanceId (new_PaxMessage s t) = 0"
  "pm_senderId (new_PaxMessage s t) = s"
  "pm_rejected (new_PaxMessage s t) = False"
  by (simp_all add: new_PaxMessage_def)

subsection \<open>The routing predicates of the controller\<close>

definition MessageForProposer :: "MessageType \<Rightarrow> bool" where
  "MessageForProposer t \<longleftrightarrow> drop_bit 4 (message_code t) = 0x1"

definition MessageForAcceptor :: "MessageType \<Rightarrow> bool" where
  "MessageForAcceptor t \<longleftrightarrow> drop_bit 3 (message_code t) = 0x1"

definition MessageForLearner :: "MessageType \<Rightarrow> bool" where
  "MessageForLearner t \<longleftrightarrow> drop_bit 5 (message_code t) = 0x1"

definition MessagePlaceHolder :: "MessageType \<Rightarrow> bool" where
  "MessagePlaceHolder t \<longleftrightarrow> drop_bit 6 (message_code t) = 0x1"

lemma message_code_inject: "message_code a = message_code b \<longleftrightarrow> a = b"
  by (cases a; cases b) (simp_all add: push_bit_eq_mult)

text \<open>What the shifts and comparisons come to on each enumerator.\<close>

lemma MessageForAcceptor_iff [simp]:
  "MessageForAcceptor t \<longleftrightarrow> t = kMSG_PROPOSE_BROADCAST \<or> t = kMSG_ACCEPT_BROADCAST"
  by (cases t) (simp_all add: MessageForAcceptor_def push_bit_eq_mult drop_bit_eq_div)

lemma not_MessageForProposer [simp]: "\<not> MessageForProposer t"
  by (cases t) (simp_all add: MessageForProposer_def push_bit_eq_mult drop_bit_eq_div)

lemma not_MessageForLearner [simp]: "\<not> MessageForLearner t"
  by (cases t) (simp_all add: MessageForLearner_def push_bit_eq_mult drop_bit_eq_div)

lemma not_MessagePlaceHolder [simp]: "\<not> MessagePlaceHolder t"
  by (cases t) (simp_all add: MessagePlaceHolder_def push_bit_eq_mult drop_bit_eq_div)

end
