(* ===== verification/Pax_Config.thy ===== *)
theory Pax_Config
  imports Pax_Prelude
begin

section \<open>Options (include/config.hpp)\<close>

text \<open>
  \<open>PaxosOptions\<close> with its member list. The majority threshold is a \<open>double\<close>; the model
  carries its exact value as a rational and does not round the product with the node count
  (exact for thresholds such as 0.5 or 0.75 and any realistic number of nodes). The quorum
  lemmas are the reason for the threshold: any two majorities meet.
\<close>

record PaxosOptions =
  opt_node_id :: node_id_t
  opt_majority_threshold :: rat
  opt_member_count :: u64
  opt_members :: "node_id_t set"

definition IsMember :: "node_id_t set \<Rightarrow> node_id_t \<Rightarrow> bool" where
  "IsMember members node_id \<longleftrightarrow> node_id \<in> members"

definition GetNodeCount :: "PaxosOptions \<Rightarrow> u64" where
  "GetNodeCount c = opt_member_count c"

definition GetMajorityCount :: "PaxosOptions \<Rightarrow> u64" where
  "GetMajorityCount c =
     word_of_int (ceiling (opt_majority_threshold c * of_nat (unat (GetNodeCount c))))"

definition ProposingAuthority :: "PaxosOptions \<Rightarrow> bool" where
  "ProposingAuthority c \<longleftrightarrow> IsMember (opt_members c) (opt_node_id c)"

text \<open>
  A threshold between 0 and 1 makes the conversion to \<open>size_t\<close> exact.
\<close>

lemma ceiling_scaled:
  fixes t :: rat
  assumes "0 \<le> t" and "t \<le> 1"
  shows "0 \<le> ceiling (t * of_nat n)" and "ceiling (t * of_nat n) \<le> int n"
proof -
  have "0 \<le> t * of_nat n" using assms by simp
  then show "0 \<le> ceiling (t * of_nat n)"
    by (metis ceiling_mono ceiling_zero)
  have "t * of_nat n \<le> 1 * of_nat n" using assms by (intro mult_right_mono) auto
  then show "ceiling (t * of_nat n) \<le> int n" by (simp add: ceiling_le_iff)
qed

lemma unat_GetMajorityCount:
  assumes "0 \<le> opt_majority_threshold c" and "opt_majority_threshold c \<le> 1"
  shows "unat (GetMajorityCount c) =
    nat (ceiling (opt_majority_threshold c * of_nat (unat (GetNodeCount c))))"
proof -
  define n where "n = unat (GetNodeCount c)"
  define m where "m = ceiling (opt_majority_threshold c * of_nat n)"
  have "0 \<le> m" and "m \<le> int n" using ceiling_scaled [OF assms] by (simp_all add: m_def)
  moreover have "n < 2 ^ 64" unfolding n_def by (metis len_num1 len_bit0 numeral_Bit0
        unsigned_less mult_2 numeral_One one_add_one)
  ultimately have "unat (word_of_int m :: u64) = nat m"
    by (simp add: unat_eq_nat_uint uint_word_of_int)
  then show ?thesis unfolding m_def n_def GetMajorityCount_def .
qed

text \<open>Two quorums of a threshold above one half share a node.\<close>

lemma half_threshold:
  fixes t :: rat
  assumes "1 / 2 < t" and "0 < n"
  shows "int n < 2 * ceiling (t * of_nat n)"
proof -
  have "(of_nat n :: rat) = 2 * ((1 / 2) * of_nat n)" by simp
  also have "\<dots> < 2 * (t * of_nat n)"
    using assms by (intro mult_strict_left_mono mult_strict_right_mono) auto
  also have "\<dots> \<le> 2 * of_int (ceiling (t * of_nat n))"
    by (intro mult_left_mono) auto
  finally have "(of_int (int n) :: rat) < of_int (2 * ceiling (t * of_nat n))" by simp
  then show ?thesis by (simp only: of_int_less_iff)
qed

lemma quorums_intersect:
  assumes nodes: "finite N" "card N = unat (GetNodeCount c)"
    and thr: "1 / 2 < opt_majority_threshold c" "opt_majority_threshold c \<le> 1"
    and sub: "Q \<subseteq> N" "R \<subseteq> N"
    and Q: "unat (GetMajorityCount c) \<le> card Q"
    and R: "unat (GetMajorityCount c) \<le> card R"
    and ne: "N \<noteq> {}"
  shows "Q \<inter> R \<noteq> {}"
proof
  assume disj: "Q \<inter> R = {}"
  define n where "n = unat (GetNodeCount c)"
  have pos: "0 < n" using nodes ne by (simp add: n_def flip: nodes(2)) (simp add: card_gt_0_iff)
  have "card Q + card R = card (Q \<union> R)"
    using disj nodes sub by (metis card_Un_disjoint finite_subset)
  also have "\<dots> \<le> n" unfolding n_def nodes(2)[symmetric]
    using nodes(1) sub by (intro card_mono) auto
  finally have le: "2 * unat (GetMajorityCount c) \<le> n" using Q R by simp
  have "unat (GetMajorityCount c) = nat (ceiling (opt_majority_threshold c * of_nat n))"
    unfolding n_def using thr by (intro unat_GetMajorityCount) auto
  with le half_threshold [OF thr(1) pos] show False by linarith
qed

subsection \<open>Properties\<close>

text \<open>
  Two majorities of the same members share a node, for every threshold above one half (and
  at most one).
\<close>

theorem majorities_intersect:
  assumes "finite N" "card N = unat (GetNodeCount c)" "N \<noteq> {}"
    and "1 / 2 < opt_majority_threshold c" "opt_majority_threshold c \<le> 1"
    and "Q \<subseteq> N" "R \<subseteq> N"
    and "unat (GetMajorityCount c) \<le> card Q" "unat (GetMajorityCount c) \<le> card R"
  shows "Q \<inter> R \<noteq> {}"
  using assms by (intro quorums_intersect) auto

lemma majorities_intersect_witness:
  "{1, 2} \<inter> {2, 3 :: nat} \<noteq> {} \<and> GetMajorityCount \<lparr> opt_node_id = 1, opt_majority_threshold = 2 / 3,
     opt_member_count = 3, opt_members = {1, 2, 3} \<rparr> = 2"
proof -
  let ?c = "\<lparr> opt_node_id = 1, opt_majority_threshold = 2 / 3, opt_member_count = 3,
    opt_members = {1, 2, 3} \<rparr>"
  have m: "GetMajorityCount ?c = 2" by (simp add: GetMajorityCount_def GetNodeCount_def)
  then show ?thesis
    using majorities_intersect [of "{1, 2, 3 :: nat}" ?c "{1, 2}" "{2, 3}"]
    by (simp add: GetNodeCount_def)
qed

end
