(* ===== verification/Std_Heap.thy ===== *)
theory Std_Heap
  imports Pax_Prelude
begin

section \<open>std::push_heap and std::pop_heap\<close>

text \<open>
  The event queue keeps a \<open>std::vector\<close> in heap order with \<open>std::push_heap\<close> and
  \<open>std::pop_heap\<close>. The C++ standard fixes what the two calls achieve, not how; here they sift
  one element along the implicit binary tree of the vector. What the scheduler relies on is
  the locale \<open>std_heap_laws\<close>: both calls keep the elements and the heap order, the front is an
  element with the greatest key, and \<open>pop_heap\<close> moves the front to the back. Its
  interpretation discharges the laws for the two definitions.
\<close>

definition swap_at :: "nat \<Rightarrow> nat \<Rightarrow> 'a list \<Rightarrow> 'a list" where
  "swap_at i j xs = xs[i := xs ! j, j := xs ! i]"

lemma length_swap_at [simp]: "length (swap_at i j xs) = length xs"
  by (simp add: swap_at_def)

lemma mset_swap_at: "i < length xs \<Longrightarrow> j < length xs \<Longrightarrow> mset (swap_at i j xs) = mset xs"
  unfolding swap_at_def by (rule mset_swap)

lemma nth_swap_at:
  "i < length xs \<Longrightarrow> j < length xs \<Longrightarrow> k < length xs \<Longrightarrow>
     swap_at i j xs ! k = (if k = j then xs ! i else if k = i then xs ! j else xs ! k)"
  by (simp add: swap_at_def nth_list_update)

definition parent :: "nat \<Rightarrow> nat" where
  "parent i = (i - 1) div 2"

lemma parent_less [simp]: "0 < i \<Longrightarrow> parent i < i"
  by (simp add: parent_def)

lemma parent_children [simp]: "parent (2 * i + 1) = i" "parent (2 * i + 2) = i"
  by (simp_all add: parent_def)

lemma parent_eq: "0 < j \<Longrightarrow> parent j = i \<longleftrightarrow> j = 2 * i + 1 \<or> j = 2 * i + 2"
  by (auto simp: parent_def)

function sift_up :: "('a \<Rightarrow> 'k::linorder) \<Rightarrow> nat \<Rightarrow> 'a list \<Rightarrow> 'a list" where
  "sift_up key i xs =
     (if 0 < i \<and> key (xs ! parent i) < key (xs ! i)
      then sift_up key (parent i) (swap_at i (parent i) xs) else xs)"
  by pat_completeness auto
termination by (relation "measure (\<lambda>(key, i, xs). i)") (auto simp: parent_def)

declare sift_up.simps [simp del]

definition push_heap :: "('a \<Rightarrow> 'k::linorder) \<Rightarrow> 'a list \<Rightarrow> 'a list" where
  "push_heap key xs = sift_up key (length xs - 1) xs"

definition greater_child :: "('a \<Rightarrow> 'k::linorder) \<Rightarrow> nat \<Rightarrow> nat \<Rightarrow> 'a list \<Rightarrow> nat" where
  "greater_child key n i xs =
     (if 2 * i + 2 < n \<and> key (xs ! (2 * i + 1)) < key (xs ! (2 * i + 2))
      then 2 * i + 2 else 2 * i + 1)"

function sift_down :: "('a \<Rightarrow> 'k::linorder) \<Rightarrow> nat \<Rightarrow> nat \<Rightarrow> 'a list \<Rightarrow> 'a list" where
  "sift_down key n i xs =
     (if 2 * i + 1 < n \<and> key (xs ! i) < key (xs ! greater_child key n i xs)
      then sift_down key n (greater_child key n i xs) (swap_at i (greater_child key n i xs) xs)
      else xs)"
  by pat_completeness auto
termination
  by (relation "measure (\<lambda>(key, n, i, xs). n - i)") (auto simp: greater_child_def)

declare sift_down.simps [simp del]

definition pop_heap :: "('a \<Rightarrow> 'k::linorder) \<Rightarrow> 'a list \<Rightarrow> 'a list" where
  "pop_heap key xs =
     (if length xs \<le> 1 then xs
      else sift_down key (length xs - 1) 0 (swap_at 0 (length xs - 1) xs))"

subsection \<open>Heap order\<close>

text \<open>The first \<open>n\<close> elements are in heap order: no element is greater than its parent.\<close>

definition heap_upto :: "('a \<Rightarrow> 'k::linorder) \<Rightarrow> nat \<Rightarrow> 'a list \<Rightarrow> bool" where
  "heap_upto key n xs \<longleftrightarrow> (\<forall>i. 0 < i \<longrightarrow> i < n \<longrightarrow> key (xs ! i) \<le> key (xs ! parent i))"

definition is_heap :: "('a \<Rightarrow> 'k::linorder) \<Rightarrow> 'a list \<Rightarrow> bool" where
  "is_heap key xs = heap_upto key (length xs) xs"

lemma is_heap_Nil [simp]: "is_heap key []"
  by (simp add: is_heap_def heap_upto_def)

lemma heap_front_max:
  assumes "heap_upto key n xs" and "i < n"
  shows "key (xs ! i) \<le> key (xs ! 0)"
  using assms(2)
proof (induction i rule: less_induct)
  case (less i)
  show ?case
  proof (cases "i = 0")
    case False
    then have "key (xs ! i) \<le> key (xs ! parent i)"
      using assms(1) less.prems by (simp add: heap_upto_def)
    also have "key (xs ! parent i) \<le> key (xs ! 0)"
      using False less.prems less_trans [OF parent_less] by (intro less.IH) auto
    finally show ?thesis .
  qed simp
qed

text \<open>Heap order but for one element that may be too great for its place.\<close>

definition heap_but_up :: "('a \<Rightarrow> 'k::linorder) \<Rightarrow> nat \<Rightarrow> nat \<Rightarrow> 'a list \<Rightarrow> bool" where
  "heap_but_up key n i xs \<longleftrightarrow>
     (\<forall>j. 0 < j \<longrightarrow> j < n \<longrightarrow> j \<noteq> i \<longrightarrow> key (xs ! j) \<le> key (xs ! parent j)) \<and>
     (\<forall>j. 0 < j \<longrightarrow> j < n \<longrightarrow> parent j = i \<longrightarrow> 0 < i \<longrightarrow> key (xs ! j) \<le> key (xs ! parent i))"

lemma heap_but_up_step:
  assumes h: "heap_but_up key n i xs" and i: "0 < i" "i < n" "n \<le> length xs"
    and lt: "key (xs ! parent i) < key (xs ! i)"
  shows "heap_but_up key n (parent i) (swap_at i (parent i) xs)"
proof -
  let ?p = "parent i" and ?ys = "swap_at i (parent i) xs"
  have p: "?p < i" using i by simp
  then have pn: "?p < n" using i by linarith
  note p = p pn
  have nth: "?ys ! k = (if k = ?p then xs ! i else if k = i then xs ! ?p else xs ! k)"
    if "k < n" for k using that i p by (intro nth_swap_at) auto
  have a: "key (?ys ! j) \<le> key (?ys ! parent j)" if j: "0 < j" "j < n" "j \<noteq> ?p" for j
  proof -
    have pjj: "parent j < j" using j by simp
    then have pj: "parent j < n" using j by linarith
    consider "j = i" | "j \<noteq> i" "parent j = i" | "j \<noteq> i" "parent j = ?p"
      | "j \<noteq> i" "parent j \<noteq> i" "parent j \<noteq> ?p" by blast
    then show ?thesis
    proof cases
      case 1
      then show ?thesis using lt i p by (simp add: nth)
    next
      case 2
      then have "key (xs ! j) \<le> key (xs ! ?p)" using h j i by (simp add: heap_but_up_def)
      then show ?thesis using 2 j p i by (auto simp add: nth)
    next
      case 3
      then have "key (xs ! j) \<le> key (xs ! ?p)"
        using h [unfolded heap_but_up_def] j by metis
      then have "key (xs ! j) \<le> key (xs ! i)" using lt by order
      then show ?thesis using 3 j p by (simp add: nth)
    next
      case 4
      then have "key (xs ! j) \<le> key (xs ! parent j)" using h j by (auto simp: heap_but_up_def)
      then show ?thesis using 4 j pj by (simp add: nth)
    qed
  qed
  have b: "key (?ys ! j) \<le> key (?ys ! parent ?p)"
    if j: "0 < j" "j < n" "parent j = ?p" "0 < ?p" for j
  proof -
    have pp: "parent ?p \<noteq> i" "parent ?p \<noteq> ?p" "parent ?p < n"
      using p parent_less [OF j(4)] by linarith+
    have top: "key (xs ! ?p) \<le> key (xs ! parent ?p)"
      using h j p by (auto simp: heap_but_up_def)
    show ?thesis
    proof (cases "j = i")
      case True
      then show ?thesis using top pp i p by (simp add: nth)
    next
      case False
      then have "key (xs ! j) \<le> key (xs ! ?p)"
        using h [unfolded heap_but_up_def] j by metis
      moreover have "j \<noteq> ?p" using j(3) parent_less [OF j(4)] by auto
      ultimately show ?thesis using top False pp j by (simp add: nth)
    qed
  qed
  show ?thesis using a b by (simp add: heap_but_up_def)
qed

lemma sift_up_heap:
  assumes "heap_but_up key (length xs) i xs" and "i < length xs"
  shows "is_heap key (sift_up key i xs) \<and> mset (sift_up key i xs) = mset xs"
  using assms
proof (induction key i xs rule: sift_up.induct)
  case (1 key i xs)
  show ?case
  proof (cases "0 < i \<and> key (xs ! parent i) < key (xs ! i)")
    case True
    then have "heap_but_up key (length xs) (parent i) (swap_at i (parent i) xs)"
      using 1 by (intro heap_but_up_step) auto
    moreover have "parent i < length xs" using 1 True parent_less [of i] by linarith
    ultimately show ?thesis using 1 True
      by (simp add: sift_up.simps [of key i xs] mset_swap_at)
  next
    case False
    then have "is_heap key xs"
      using "1.prems" by (auto simp: heap_but_up_def heap_upto_def is_heap_def not_less)
    moreover have "sift_up key i xs = xs" using False by (subst sift_up.simps) auto
    ultimately show ?thesis by simp
  qed
qed

lemma push_heap_correct:
  assumes "is_heap key xs"
  shows "is_heap key (push_heap key (xs @ [x]))"
    and "mset (push_heap key (xs @ [x])) = add_mset x (mset xs)"
proof -
  have "key ((xs @ [x]) ! j) \<le> key ((xs @ [x]) ! parent j)"
    if "0 < j" "j < length xs" for j
    using assms that less_trans [OF parent_less [of j]] by (auto simp: is_heap_def heap_upto_def nth_append)
  moreover have "parent j \<noteq> length xs" if "0 < j" "j \<le> length xs" for j
    using parent_less [of j] that by linarith
  ultimately have "heap_but_up key (length (xs @ [x])) (length xs) (xs @ [x])"
    by (auto simp: heap_but_up_def less_Suc_eq)
  then show "is_heap key (push_heap key (xs @ [x]))"
    and "mset (push_heap key (xs @ [x])) = add_mset x (mset xs)"
    using sift_up_heap [of key "xs @ [x]" "length xs"] by (simp_all add: push_heap_def)
qed

text \<open>Heap order but for one element that may be too small for its place.\<close>

definition heap_but_down :: "('a \<Rightarrow> 'k::linorder) \<Rightarrow> nat \<Rightarrow> nat \<Rightarrow> 'a list \<Rightarrow> bool" where
  "heap_but_down key n i xs \<longleftrightarrow>
     (\<forall>j. 0 < j \<longrightarrow> j < n \<longrightarrow> parent j \<noteq> i \<longrightarrow> key (xs ! j) \<le> key (xs ! parent j)) \<and>
     (\<forall>j. 0 < j \<longrightarrow> j < n \<longrightarrow> parent j = i \<longrightarrow> 0 < i \<longrightarrow> key (xs ! j) \<le> key (xs ! parent i))"

lemma greater_child_props:
  assumes "2 * i + 1 < n"
  shows "greater_child key n i xs < n" and "0 < greater_child key n i xs"
    and "parent (greater_child key n i xs) = i" and "i < greater_child key n i xs"
    and "0 < j \<Longrightarrow> j < n \<Longrightarrow> parent j = i \<Longrightarrow> key (xs ! j) \<le> key (xs ! greater_child key n i xs)"
  using assms by (auto simp: greater_child_def parent_eq)

lemma heap_but_down_step:
  assumes h: "heap_but_down key n i xs" and i: "2 * i + 1 < n" "n \<le> length xs"
    and lt: "key (xs ! i) < key (xs ! greater_child key n i xs)"
  shows "heap_but_down key n (greater_child key n i xs)
           (swap_at i (greater_child key n i xs) xs)"
proof -
  define c where "c = greater_child key n i xs"
  let ?ys = "swap_at i c xs"
  note c = greater_child_props [OF i(1), where key = key and xs = xs, folded c_def]
  have nth: "?ys ! k = (if k = c then xs ! i else if k = i then xs ! c else xs ! k)"
    if "k < n" for k using that i c by (intro nth_swap_at) auto
  have a: "key (?ys ! j) \<le> key (?ys ! parent j)" if j: "0 < j" "j < n" "parent j \<noteq> c" for j
  proof -
    have pj: "parent j < j" using j by simp
    consider "j = c" | "j \<noteq> c" "parent j = i" | "j = i" | "j \<noteq> c" "parent j \<noteq> i" "j \<noteq> i"
      by blast
    then show ?thesis
    proof cases
      case 1
      then show ?thesis using lt c by (simp add: nth flip: c_def)
    next
      case 2
      then have "key (xs ! j) \<le> key (xs ! c)" using c(5) j by simp
      then show ?thesis using 2 j pj c(4) by (simp add: nth)
    next
      case 3
      have "key (xs ! c) \<le> key (xs ! parent i)"
        using h c 3 j by (simp add: heap_but_down_def)
      then show ?thesis using 3 j pj c by (simp add: nth)
    next
      case 4
      then have "key (xs ! j) \<le> key (xs ! parent j)" using h j by (simp add: heap_but_down_def)
      then show ?thesis using 4 j pj by (simp add: nth)
    qed
  qed
  have b: "key (?ys ! j) \<le> key (?ys ! parent c)" if j: "0 < j" "j < n" "parent j = c" for j
  proof -
    have ne: "c < j" "parent j \<noteq> i" using j c parent_less [of j] by auto
    have "key (xs ! j) \<le> key (xs ! parent j)"
      using h [unfolded heap_but_down_def] j(1,2) ne(2) by blast
    then show ?thesis using ne j c by (simp add: nth)
  qed
  show ?thesis unfolding c_def [symmetric] using a b by (simp add: heap_but_down_def)
qed

lemma sift_down_correct:
  assumes "heap_but_down key n i xs" and "n \<le> length xs"
  shows "heap_upto key n (sift_down key n i xs)
     \<and> mset (sift_down key n i xs) = mset xs
     \<and> (\<forall>k. n \<le> k \<longrightarrow> k < length xs \<longrightarrow> sift_down key n i xs ! k = xs ! k)"
  using assms
proof (induction key n i xs rule: sift_down.induct)
  case (1 key n i xs)
  let ?c = "greater_child key n i xs"
  let ?ys = "swap_at i ?c xs"
  show ?case
  proof (cases "2 * i + 1 < n \<and> key (xs ! i) < key (xs ! ?c)")
    case True
    note c = greater_child_props [of i n, where key = key and xs = xs]
    have ih: "heap_upto key n (sift_down key n ?c ?ys)
       \<and> mset (sift_down key n ?c ?ys) = mset ?ys
       \<and> (\<forall>k. n \<le> k \<longrightarrow> k < length ?ys \<longrightarrow> sift_down key n ?c ?ys ! k = ?ys ! k)"
      using True "1.prems" by (intro "1.IH" heap_but_down_step) auto
    have "mset ?ys = mset xs" using c(1) True "1.prems" by (intro mset_swap_at) auto
    moreover have "?ys ! k = xs ! k" if "n \<le> k" "k < length xs" for k
      using that c(1) True "1.prems" by (simp add: swap_at_def)
    moreover have "sift_down key n i xs = sift_down key n ?c ?ys"
      using True by (subst sift_down.simps) simp
    ultimately show ?thesis using ih by simp
  next
    case False
    then have eq: "sift_down key n i xs = xs" by (subst sift_down.simps) auto
    have "key (xs ! j) \<le> key (xs ! parent j)" if j: "0 < j" "j < n" for j
    proof (cases "parent j = i")
      case True
      then have c: "2 * i + 1 < n" using j by (auto simp: parent_eq)
      then have "key (xs ! j) \<le> key (xs ! ?c)" using greater_child_props(5) j True by blast
      with False c True show ?thesis by simp
    next
      case False
      with "1.prems" j show ?thesis by (simp add: heap_but_down_def)
    qed
    with eq show ?thesis by (simp add: heap_upto_def)
  qed
qed

lemma pop_heap_correct:
  assumes "is_heap key xs" and "xs \<noteq> []"
  shows "mset (pop_heap key xs) = mset xs"
    and "pop_heap key xs \<noteq> []"
    and "last (pop_heap key xs) = hd xs"
    and "is_heap key (butlast (pop_heap key xs))"
proof -
  let ?n = "length xs - 1"
  let ?ys = "swap_at 0 ?n xs"
  let ?zs = "sift_down key ?n 0 ?ys"
  have n: "?n < length xs" using assms(2) by simp
  have "key (?ys ! j) \<le> key (?ys ! parent j)" if "0 < j" "j < ?n" "parent j \<noteq> 0" for j
  proof -
    have "parent j < j" using that by simp
    then have ne: "parent j \<noteq> ?n" "j \<noteq> ?n" "j < length xs" using that by linarith+
    have "key (xs ! j) \<le> key (xs ! parent j)"
      using that ne assms(1) by (simp add: is_heap_def heap_upto_def)
    then show ?thesis using that ne by (simp add: swap_at_def)
  qed
  then have down: "heap_but_down key ?n 0 ?ys" by (simp add: heap_but_down_def)
  note sd = sift_down_correct [OF down]
  have "mset ?ys = mset xs" using n by (intro mset_swap_at) auto
  then have m: "mset ?zs = mset xs" using sd by simp
  then have len: "length ?zs = length xs" by (rule mset_eq_length)
  have "?zs ! ?n = ?ys ! ?n" using sd n by simp
  also have "\<dots> = xs ! 0" using n by (simp add: swap_at_def)
  finally have l: "last ?zs = hd xs"
    using assms(2) len by (metis hd_conv_nth last_conv_nth length_0_conv)
  have h: "is_heap key (butlast ?zs)"
    unfolding is_heap_def heap_upto_def
  proof (intro allI impI)
    fix j assume j: "0 < j" "j < length (butlast ?zs)"
    moreover have "parent j < j" using j by simp
    ultimately show "key (butlast ?zs ! j) \<le> key (butlast ?zs ! parent j)"
      using sd len n by (simp add: nth_butlast heap_upto_def)
  qed
  show "mset (pop_heap key xs) = mset xs" and "pop_heap key xs \<noteq> []"
    and "last (pop_heap key xs) = hd xs" and "is_heap key (butlast (pop_heap key xs))"
    using m len l h assms
    by (auto simp: pop_heap_def last_conv_nth hd_conv_nth is_heap_def heap_upto_def le_Suc_eq)
qed


lemma length_sift_down [simp]: "length (sift_down key n i xs) = length xs"
proof (induction key n i xs rule: sift_down.induct)
  case (1 key n i xs)
  then show ?case by (subst sift_down.simps) auto
qed

lemma length_pop_heap [simp]: "length (pop_heap key xs) = length xs"
  by (simp add: pop_heap_def)

subsection \<open>The laws\<close>

locale std_heap_laws =
  fixes ordered :: "'a list \<Rightarrow> bool"
    and key :: "'a \<Rightarrow> 'k::linorder"
    and push :: "'a list \<Rightarrow> 'a list"
    and pop :: "'a list \<Rightarrow> 'a list"
  assumes ordered_Nil: "ordered []"
    and ordered_push: "ordered xs \<Longrightarrow> ordered (push (xs @ [x]))"
    and mset_push: "ordered xs \<Longrightarrow> mset (push (xs @ [x])) = add_mset x (mset xs)"
    and mset_pop: "ordered xs \<Longrightarrow> xs \<noteq> [] \<Longrightarrow> mset (pop xs) = mset xs"
    and last_pop: "ordered xs \<Longrightarrow> xs \<noteq> [] \<Longrightarrow> last (pop xs) = hd xs"
    and ordered_pop: "ordered xs \<Longrightarrow> xs \<noteq> [] \<Longrightarrow> ordered (butlast (pop xs))"
    and hd_greatest: "ordered xs \<Longrightarrow> x \<in> set xs \<Longrightarrow> key x \<le> key (hd xs)"
begin

lemma pop_nonempty: "ordered xs \<Longrightarrow> xs \<noteq> [] \<Longrightarrow> pop xs \<noteq> []"
  using mset_pop [of xs] by force

lemma set_push: "ordered xs \<Longrightarrow> set (push (xs @ [x])) = insert x (set xs)"
  using mset_push [of xs x] by (metis set_mset_add_mset_insert set_mset_mset)

lemma length_pop: "ordered xs \<Longrightarrow> xs \<noteq> [] \<Longrightarrow> length (butlast (pop xs)) < length xs"
  using mset_pop [of xs] by (metis One_nat_def diff_Suc_less length_butlast
      length_greater_0_conv mset_eq_length)

lemma mset_butlast_pop:
  assumes "ordered xs" and "xs \<noteq> []"
  shows "add_mset (hd xs) (mset (butlast (pop xs))) = mset xs"
proof -
  have "mset (pop xs) = add_mset (last (pop xs)) (mset (butlast (pop xs)))"
    using pop_nonempty [OF assms] by (metis append_butlast_last_id mset_append
        add_mset_add_single mset.simps)
  then show ?thesis using assms by (simp add: mset_pop last_pop)
qed

lemma set_butlast_pop: "ordered xs \<Longrightarrow> xs \<noteq> [] \<Longrightarrow> insert (hd xs) (set (butlast (pop xs))) = set xs"
  using mset_butlast_pop [of xs] by (metis set_mset_add_mset_insert set_mset_mset)

end

interpretation hp: std_heap_laws "is_heap key" key "push_heap key" "pop_heap key"
  for key :: "'a \<Rightarrow> 'k::linorder"
proof unfold_locales
  fix xs :: "'a list" and x
  assume "is_heap key xs" and "x \<in> set xs"
  then show "key x \<le> key (hd xs)"
    using heap_front_max [of key "length xs" xs] by (metis is_heap_def hd_conv_nth in_set_conv_nth
        list.set_cases list.discI)
qed (simp_all add: push_heap_correct pop_heap_correct)

end
