(* ===== verification/Pax_Scheduler.thy ===== *)
theory Pax_Scheduler
  imports Std_Heap
begin

section \<open>Events, the event queue and the scheduler (util: event, schedule, time)\<close>

text \<open>
  A time point of the steady clock is an integer number of nanoseconds. The callbacks, closures in
  the code, are the constructors of \<open>EventHandler\<close>, one per lambda of the program. The event
  queue is the vector in heap order; the scheduler adds the map from an event type to the
  identity of the newest event of that type, by which a newer event replaces an older one
  and \<open>Remove\<close> withdraws one. The map is a \<open>std::unordered_map\<close>: reading it with \<open>[]\<close>
  inserts the identity 0 for a missing type.
\<close>

subsection \<open>Time (util/time.cpp)\<close>

type_synonym SteadyTime = int

definition ns_per_ms :: int where "ns_per_ms = 1000000"
definition ns_per_s :: int where "ns_per_s = 1000000000"

text \<open>\<open>duration_cast\<close> truncates towards zero.\<close>

definition DurationMS :: "SteadyTime \<Rightarrow> SteadyTime \<Rightarrow> int" where
  "DurationMS begin_t end_t = sgn (end_t - begin_t) * (\<bar>end_t - begin_t\<bar> div ns_per_ms)"

definition StopWatchMS :: "SteadyTime \<Rightarrow> SteadyTime \<Rightarrow> u64" where
  "StopWatchMS begin_t end_t = word_of_int (DurationMS begin_t end_t)"

definition MS :: "u64 \<Rightarrow> int" where
  "MS ms = uint ms"

subsection \<open>Events (util/include/event.hpp)\<close>

datatype EventType =
    kNULL
  | kEVENT_PROPOSE_TIMEOUT
  | kEVENT_ACCEPT_TIMEOUT
  | kEVENT_NEWVALUE_TIMEOUT
  | kEVENT_SHALL_I_LEARN
  | kEVENT_CLEAN_SEGMENT

datatype EventHandler =
    NoHandler                             \<comment> \<open>a default-constructed \<open>std::function\<close>\<close>
  | ProposeTimeoutHandler instance_id_t   \<comment> \<open>\<open>PaxProposer::ProposeTimeoutCallback\<close>\<close>
  | NewValueTimeoutHandler                \<comment> \<open>\<open>PaxProposer::NewValueTimeoutCallback\<close>\<close>
  | ShallLearnHandler                     \<comment> \<open>\<open>PaxLearner::ShallLearn\<close>\<close>
  | DeleteSegmentHandler u32              \<comment> \<open>\<open>LogSegmentStore::DeleteSegment\<close>\<close>

record Event =
  ev_callback :: EventHandler
  ev_when :: SteadyTime
  ev_type :: EventType
  ev_id :: u64

subsection \<open>The event queue (util/event.cpp)\<close>

type_synonym EventQueue = "Event list"

definition Push :: "Event \<Rightarrow> EventQueue \<Rightarrow> EventQueue" where
  "Push event events = push_heap ev_when (events @ [event])"

definition HasTimeout :: "SteadyTime \<Rightarrow> EventQueue \<Rightarrow> bool" where
  "HasTimeout now events = (case events of [] \<Rightarrow> False | front # _ \<Rightarrow> \<not> now < ev_when front)"

definition PopOne :: "EventQueue \<Rightarrow> (Event \<times> EventQueue) option" where
  "PopOne events =
     (if events = [] then None
      else (let heaped = pop_heap ev_when events in Some (last heaped, butlast heaped)))"

definition Next :: "EventQueue \<Rightarrow> Event res" where
  "Next events = (case events of [] \<Rightarrow> Inl EmptyAccess | front # _ \<Rightarrow> Inr front)"

lemma PopOne_None [simp]: "PopOne q = None \<longleftrightarrow> q = []"
  by (simp add: PopOne_def Let_def)

lemma push_heap_single [simp]: "push_heap key [e] = [e]"
  by (simp add: push_heap_def sift_up.simps)

lemma Push_empty: "Push e [] = [e]"
  by (simp add: Push_def)

lemma PopOne_length: "PopOne q = Some (e, q') \<Longrightarrow> length q' < length q"
  by (auto simp: PopOne_def Let_def split: if_splits)

lemma PopOne_heap:
  assumes "is_heap ev_when q" and "PopOne q = Some (e, q')"
  shows "is_heap ev_when q'" and "e = hd q" and "add_mset e (mset q') = mset q"
    and "insert e (set q') = set q" and "\<And>f. f \<in> set q \<Longrightarrow> ev_when f \<le> ev_when e"
proof -
  from assms(2) have ne: "q \<noteq> []" and e: "e = last (pop_heap ev_when q)"
    and q': "q' = butlast (pop_heap ev_when q)"
    by (auto simp: PopOne_def Let_def split: if_splits)
  show hd: "e = hd q" using e assms(1) ne by (simp add: hp.last_pop)
  show "is_heap ev_when q'" using q' assms(1) ne by (simp add: hp.ordered_pop)
  show "add_mset e (mset q') = mset q" using q' hd assms(1) ne by (simp add: hp.mset_butlast_pop)
  show "insert e (set q') = set q" using q' hd assms(1) ne by (simp add: hp.set_butlast_pop)
  show "\<And>f. f \<in> set q \<Longrightarrow> ev_when f \<le> ev_when e"
    using hd assms(1) by (simp add: hp.hd_greatest)
qed

lemma PopOne_single: "PopOne [e] = Some (e, [])"
proof -
  obtain e' q where p: "PopOne [e] = Some (e', q)" by (cases "PopOne [e]") auto
  have "is_heap ev_when [e]" by (simp add: is_heap_def heap_upto_def)
  from PopOne_heap(2,3) [OF this p] p show ?thesis by auto
qed

subsection \<open>The scheduler (util/schedule.cpp)\<close>

record Scheduler =
  sch_ids :: "EventType \<rightharpoonup> u64"
  sch_queue :: EventQueue
  sch_eventId :: u64

definition new_Scheduler :: Scheduler where
  "new_Scheduler = \<lparr> sch_ids = Map.empty, sch_queue = [], sch_eventId = 0 \<rparr>"

text \<open>\<open>eventTypeIdMap_[t]\<close>: the value read and the map afterwards.\<close>

definition ids_at :: "(EventType \<rightharpoonup> u64) \<Rightarrow> EventType \<Rightarrow> u64 \<times> (EventType \<rightharpoonup> u64)" where
  "ids_at ids t = (case ids t of Some v \<Rightarrow> (v, ids) | None \<Rightarrow> (0, ids(t \<mapsto> 0)))"

definition AddEvent :: "EventHandler \<Rightarrow> SteadyTime \<Rightarrow> EventType \<Rightarrow> Scheduler \<Rightarrow> Scheduler" where
  "AddEvent cb t event_type s =
     (let event_id = sch_eventId s + 1 in
      s\<lparr> sch_eventId := event_id,
         sch_queue := Push \<lparr> ev_callback = cb, ev_when = t, ev_type = event_type,
                            ev_id = event_id \<rparr> (sch_queue s),
         sch_ids := (sch_ids s)(event_type \<mapsto> event_id) \<rparr>)"

function dispatch_loop ::
  "EventQueue \<Rightarrow> (EventType \<rightharpoonup> u64) \<Rightarrow> Event option \<times> EventQueue \<times> (EventType \<rightharpoonup> u64)" where
  "dispatch_loop q ids = (case PopOne q of
       None \<Rightarrow> (None, q, ids)
     | Some (event, q') \<Rightarrow>
         (let (v, ids') = ids_at ids (ev_type event) in
          if v \<noteq> ev_id event then dispatch_loop q' ids'
          else (Some event, q', ids')))"
  by pat_completeness auto
termination
  by (relation "measure (\<lambda>(q, ids). length q)") (auto dest: PopOne_length)

declare dispatch_loop.simps [simp del]

definition Dispatch :: "SteadyTime \<Rightarrow> Scheduler \<Rightarrow> Event option \<times> Scheduler" where
  "Dispatch now s =
     (if \<not> HasTimeout now (sch_queue s) then (None, s)
      else (let (ev, q', ids') = dispatch_loop (sch_queue s) (sch_ids s)
            in (ev, s\<lparr> sch_queue := q', sch_ids := ids' \<rparr>)))"

function next_loop ::
  "EventQueue \<Rightarrow> (EventType \<rightharpoonup> u64) \<Rightarrow> (SteadyTime \<times> EventQueue \<times> (EventType \<rightharpoonup> u64)) res" where
  "next_loop q ids = bind_res (Next q) (\<lambda>e.
     (let (v, ids') = ids_at ids (ev_type e) in
      if v \<noteq> ev_id e
      then (case PopOne q of None \<Rightarrow> Inl EmptyAccess | Some (_, q') \<Rightarrow> next_loop q' ids')
      else Inr (ev_when e, q, ids')))"
  by pat_completeness auto
termination
  by (relation "measure (\<lambda>(q, ids). length q)") (auto dest: PopOne_length)

declare next_loop.simps [simp del]

definition NextEventTime :: "Scheduler \<Rightarrow> (SteadyTime option \<times> Scheduler) res" where
  "NextEventTime s =
     (if sch_queue s = [] then Inr (None, s)
      else bind_res (next_loop (sch_queue s) (sch_ids s)) (\<lambda>(t, q', ids').
             Inr (Some t, s\<lparr> sch_queue := q', sch_ids := ids' \<rparr>)))"

definition Remove :: "EventType \<Rightarrow> Scheduler \<Rightarrow> Scheduler" where
  "Remove event_type s = s\<lparr> sch_ids := (sch_ids s)(event_type := None) \<rparr>"

text \<open>
  One round of \<open>AutoDispatch\<close>, which then sleeps for a second: the handler it calls, if any. With
  \<open>FINITE_SCHEDULE_LOOP\<close> the loop returns after the first handler, which the flag says.
\<close>

definition AutoDispatch_round :: "bool \<Rightarrow> SteadyTime \<Rightarrow> Scheduler \<Rightarrow> (EventHandler option \<times> bool \<times> Scheduler)" where
  "AutoDispatch_round finite_loop now s =
     (case Dispatch now s of
        (Some e, s') \<Rightarrow> (Some (ev_callback e), finite_loop, s')
      | (None, s') \<Rightarrow> (None, False, s'))"

subsection \<open>Which events are live\<close>

text \<open>
  An event in the queue is live when the map still names it as the newest event of its type;
  the others are leftovers that the dispatcher skips. The invariant says that identities are
  positive, not above the counter and not shared, so that the default identity 0 of the map
  never makes an event live.
\<close>

definition live_in :: "(EventType \<rightharpoonup> u64) \<Rightarrow> Event \<Rightarrow> bool" where
  "live_in ids e \<longleftrightarrow> ids (ev_type e) = Some (ev_id e)"

definition live :: "Scheduler \<Rightarrow> Event \<Rightarrow> bool" where
  "live s e \<longleftrightarrow> e \<in> set (sch_queue s) \<and> live_in (sch_ids s) e"

definition sched_inv :: "Scheduler \<Rightarrow> bool" where
  "sched_inv s \<longleftrightarrow> is_heap ev_when (sch_queue s)
     \<and> (\<forall>e\<in>set (sch_queue s). ev_id e \<noteq> 0 \<and> ev_id e \<le> sch_eventId s)
     \<and> (\<forall>v\<in>ran (sch_ids s). v \<le> sch_eventId s)
     \<and> distinct (map ev_id (sch_queue s))"

text \<open>The map up to the zeros that reading it inserts.\<close>

definition same_ids :: "(EventType \<rightharpoonup> u64) \<Rightarrow> (EventType \<rightharpoonup> u64) \<Rightarrow> bool" where
  "same_ids ids ids' \<longleftrightarrow> (\<forall>t. ids' t = ids t \<or> ids t = None \<and> ids' t = Some 0)"

lemma same_ids_refl [simp]: "same_ids ids ids"
  by (simp add: same_ids_def)

lemma same_ids_trans: "same_ids a b \<Longrightarrow> same_ids b c \<Longrightarrow> same_ids a c"
  by (simp add: same_ids_def) metis

lemma same_ids_ids_at: "ids_at ids t = (v, ids') \<Longrightarrow> same_ids ids ids'"
  by (auto simp: ids_at_def same_ids_def split: option.splits if_splits)

lemma same_ids_live: "same_ids ids ids' \<Longrightarrow> ev_id e \<noteq> 0 \<Longrightarrow> live_in ids' e \<longleftrightarrow> live_in ids e"
  unfolding same_ids_def live_in_def by (metis option.distinct(1) option.inject)

lemma ids_at_live: "ids_at ids (ev_type e) = (v, ids') \<Longrightarrow> ev_id e \<noteq> 0 \<Longrightarrow> v = ev_id e \<longleftrightarrow> live_in ids e"
  by (auto simp: ids_at_def live_in_def split: option.splits)

lemma sched_inv_heap: "sched_inv s \<Longrightarrow> is_heap ev_when (sch_queue s)"
  by (simp add: sched_inv_def)

lemma sched_inv_ids: "sched_inv s \<Longrightarrow> e \<in> set (sch_queue s) \<Longrightarrow> ev_id e \<noteq> 0"
  by (simp add: sched_inv_def)

lemma sched_inv_new: "sched_inv new_Scheduler"
  by (simp add: sched_inv_def new_Scheduler_def)

text \<open>
  What the dispatch loop does: it drops leftovers from the front until a live event comes
  out. The result is a live event with the latest time of all live ones; without a live
  event the queue is emptied.
\<close>

lemma dispatch_loop_correct:
  assumes "is_heap ev_when q" and "\<forall>e\<in>set q. ev_id e \<noteq> 0"
    and "dispatch_loop q ids = (r, q', ids')"
  shows "same_ids ids ids' \<and> is_heap ev_when q' \<and> mset q' \<subseteq># mset q \<and>
    (case r of
       None \<Rightarrow> q' = [] \<and> (\<forall>e\<in>set q. \<not> live_in ids e)
     | Some e \<Rightarrow> add_mset e (mset q') \<subseteq># mset q \<and> live_in ids e
         \<and> (\<forall>f\<in>set q. live_in ids f \<longrightarrow> ev_when f \<le> ev_when e \<and> f \<in> insert e (set q')))"
  using assms
proof (induction q ids rule: dispatch_loop.induct)
  case (1 q ids)
  show ?case
  proof (cases "PopOne q")
    case None
    with 1 show ?thesis by (simp add: dispatch_loop.simps [of q ids])
  next
    case (Some ev)
    obtain e q1 where ev: "ev = (e, q1)" by force
    obtain v ids1 where v: "ids_at ids (ev_type e) = (v, ids1)" by force
    note pop = PopOne_heap [OF "1.prems"(1) Some [unfolded ev]]
    have e: "e \<in> set q" "ev_id e \<noteq> 0" using pop(4) "1.prems"(2) by auto
    have sub: "mset q1 \<subseteq># mset q" using pop(3) by (metis mset_subset_eq_add_left
          add_mset_add_single union_commute)
    have id1: "\<forall>f\<in>set q1. ev_id f \<noteq> 0" using pop(4) "1.prems"(2) by auto
    show ?thesis
    proof (cases "v = ev_id e")
      case True
      then have "r = Some e" "q' = q1" "ids' = ids1"
        using "1.prems"(3) Some ev v by (simp_all add: dispatch_loop.simps [of q ids])
      moreover have "live_in ids e" using ids_at_live [OF v e(2)] True by simp
      ultimately show ?thesis using pop sub same_ids_ids_at [OF v] by auto
    next
      case False
      then have "\<not> live_in ids e" using v e by (simp add: ids_at_live)
      moreover have "dispatch_loop q1 ids1 = (r, q', ids')"
        using "1.prems"(3) Some ev v False by (simp add: dispatch_loop.simps [of q ids])
      note ih = "1.IH" [OF Some ev [symmetric] refl v [symmetric] False pop(1) id1 this]
      moreover have "live_in ids1 f \<longleftrightarrow> live_in ids f" if "f \<in> set q1" for f
        using same_ids_ids_at [OF v] that id1 by (intro same_ids_live) auto
      moreover have "same_ids ids ids'"
        using ih same_ids_ids_at [OF v] same_ids_trans by blast
      moreover have "set q = insert e (set q1)" using pop(4) by simp
      ultimately show ?thesis using sub
        by (auto split: option.splits intro: subset_mset.order_trans dest: add_mset_subset_set)
    qed
  qed
qed

subsection \<open>What the scheduler guarantees\<close>

text \<open>The front of the heap is the latest event, so a timeout is seen only when all are due.\<close>

lemma HasTimeout_all_due:
  assumes "is_heap ev_when q"
  shows "HasTimeout now q \<longleftrightarrow> q \<noteq> [] \<and> (\<forall>e\<in>set q. ev_when e \<le> now)"
proof (cases q)
  case Nil
  then show ?thesis by (simp add: HasTimeout_def)
next
  case (Cons f fs)
  then show ?thesis using hp.hd_greatest [OF assms]
    by (auto simp: HasTimeout_def not_less intro: order_trans)
qed

lemma AddEvent_mset:
  assumes "is_heap ev_when (sch_queue s)"
  shows "mset (sch_queue (AddEvent cb t ty s)) =
    add_mset \<lparr> ev_callback = cb, ev_when = t, ev_type = ty, ev_id = sch_eventId s + 1 \<rparr>
      (mset (sch_queue s))"
  using assms by (simp add: AddEvent_def Push_def Let_def hp.mset_push)

lemma sched_inv_AddEvent:
  assumes inv: "sched_inv s" and room: "sch_eventId s < - 1"
  shows "sched_inv (AddEvent cb t ty s)"
proof -
  let ?id = "sch_eventId s + 1"
  let ?e = "\<lparr> ev_callback = cb, ev_when = t, ev_type = ty, ev_id = ?id \<rparr>"
  have lt: "v \<le> sch_eventId s \<Longrightarrow> v < ?id" for v
    using word_less_plus_one [OF room] .
  have nz: "?id \<noteq> 0" using lt [of 0] by auto
  have q: "mset (sch_queue (AddEvent cb t ty s)) = add_mset ?e (mset (sch_queue s))"
    using inv by (simp add: AddEvent_def Push_def Let_def hp.mset_push sched_inv_def)
  then have sq: "set (sch_queue (AddEvent cb t ty s)) = insert ?e (set (sch_queue s))"
    by (metis set_mset_add_mset_insert set_mset_mset)
  have "mset (map ev_id (sch_queue (AddEvent cb t ty s))) = mset (?id # map ev_id (sch_queue s))"
    using q by simp
  moreover have "distinct (?id # map ev_id (sch_queue s))"
    using inv lt by (force simp: sched_inv_def)
  ultimately have "distinct (map ev_id (sch_queue (AddEvent cb t ty s)))"
    using mset_eq_imp_distinct_iff by blast
  moreover have "is_heap ev_when (sch_queue (AddEvent cb t ty s))"
    using inv by (simp add: AddEvent_def Push_def Let_def hp.ordered_push sched_inv_def)
  moreover have "sch_eventId (AddEvent cb t ty s) = ?id"
    by (simp add: AddEvent_def Let_def)
  moreover have "ran (sch_ids (AddEvent cb t ty s)) \<subseteq> insert ?id (ran (sch_ids s))"
    by (auto simp: AddEvent_def Let_def ran_def split: if_splits)
  ultimately show ?thesis using inv sq nz lt
    by (auto simp: sched_inv_def less_imp_le)
qed

lemma sched_inv_Remove: "sched_inv s \<Longrightarrow> sched_inv (Remove ty s)"
  by (auto simp: sched_inv_def Remove_def ran_def split: if_splits)

lemma Dispatch_cases:
  assumes inv: "sched_inv s" and d: "Dispatch now s = (r, s')"
  shows "same_ids (sch_ids s) (sch_ids s')" and "sch_eventId s' = sch_eventId s"
    and "mset (sch_queue s') \<subseteq># mset (sch_queue s)" and "is_heap ev_when (sch_queue s')"
    and "r = None \<Longrightarrow> s' = s \<or> sch_queue s' = [] \<and> (\<forall>e. \<not> live s e)"
    and "r = Some e \<Longrightarrow> live s e \<and> ev_when e \<le> now
           \<and> (\<forall>f. live s f \<longrightarrow> ev_when f \<le> ev_when e)
           \<and> add_mset e (mset (sch_queue s')) \<subseteq># mset (sch_queue s)"
proof -
  obtain r1 q1 ids1 where l: "dispatch_loop (sch_queue s) (sch_ids s) = (r1, q1, ids1)"
    by (metis prod_cases3)
  note c = dispatch_loop_correct [OF sched_inv_heap [OF inv] _ l]
  have ids: "\<forall>e\<in>set (sch_queue s). ev_id e \<noteq> 0" using inv by (simp add: sched_inv_def)
  note c = c [OF ids]
  have cases: "r = None \<and> s' = s \<or> HasTimeout now (sch_queue s) \<and> r = r1
      \<and> s' = s\<lparr> sch_queue := q1, sch_ids := ids1 \<rparr>"
    using d l by (auto simp: Dispatch_def split: if_splits)
  show "same_ids (sch_ids s) (sch_ids s')" and "sch_eventId s' = sch_eventId s"
    and "mset (sch_queue s') \<subseteq># mset (sch_queue s)" and "is_heap ev_when (sch_queue s')"
    using cases c sched_inv_heap [OF inv] by auto
  show "r = None \<Longrightarrow> s' = s \<or> sch_queue s' = [] \<and> (\<forall>e. \<not> live s e)"
    using cases c by (auto simp: live_def)
  assume r: "r = Some e"
  then have sub: "add_mset e (mset q1) \<subseteq># mset (sch_queue s)" using cases c by auto
  then have "e \<in> set (sch_queue s)" by (rule add_mset_subset_set)
  with r sub have e: "live s e" "\<forall>f. live s f \<longrightarrow> ev_when f \<le> ev_when e"
    "add_mset e (mset q1) \<subseteq># mset (sch_queue s)"
    using cases c by (auto simp: live_def)
  moreover have "ev_when e \<le> now"
    using cases r e(1) HasTimeout_all_due [OF sched_inv_heap [OF inv]] by (auto simp: live_def)
  ultimately show "live s e \<and> ev_when e \<le> now
           \<and> (\<forall>f. live s f \<longrightarrow> ev_when f \<le> ev_when e)
           \<and> add_mset e (mset (sch_queue s')) \<subseteq># mset (sch_queue s)"
    using cases r by auto
qed

lemma sched_inv_Dispatch:
  assumes inv: "sched_inv s" and d: "Dispatch now s = (r, s')"
  shows "sched_inv s'"
proof -
  note c = Dispatch_cases [OF assms]
  have "set (sch_queue s') \<subseteq> set (sch_queue s)" using c(3) by (metis set_mset_mono set_mset_mset)
  moreover have "distinct (map ev_id (sch_queue s'))"
    using inv by (intro distinct_map_submset [OF c(3)]) (simp add: sched_inv_def)
  moreover have "\<forall>v\<in>ran (sch_ids s'). v \<le> sch_eventId s"
    using c(1) inv unfolding same_ids_def sched_inv_def ran_def
    by (smt (verit, best) mem_Collect_eq option.inject word_zero_le)
  ultimately show ?thesis using inv c by (auto simp: sched_inv_def)
qed

text \<open>
  What \<open>NextEventTime\<close> does: the latest time of the live events, or, when every event of a
  nonempty queue is a leftover, a read of the front of an empty vector.
\<close>

definition latest_live :: "EventQueue \<Rightarrow> (EventType \<rightharpoonup> u64) \<Rightarrow> SteadyTime \<Rightarrow> bool" where
  "latest_live q ids t \<longleftrightarrow>
     (\<exists>e\<in>set q. live_in ids e \<and> ev_when e = t) \<and> (\<forall>f\<in>set q. live_in ids f \<longrightarrow> ev_when f \<le> t)"

lemma next_loop_correct:
  assumes "is_heap ev_when q" and "\<forall>e\<in>set q. ev_id e \<noteq> 0"
  shows "if \<exists>e\<in>set q. live_in ids e
         then \<exists>t q' ids'. next_loop q ids = Inr (t, q', ids') \<and> latest_live q ids t
         else next_loop q ids = Inl EmptyAccess"
  using assms
proof (induction q ids rule: next_loop.induct)
  case (1 q ids)
  show ?case
  proof (cases "PopOne q")
    case None
    then have "q = []" by simp
    then show ?thesis by (simp add: next_loop.simps [of "[]" ids] Next_def)
  next
    case (Some ev)
    obtain e q1 where ev: "ev = (e, q1)" by force
    obtain v ids1 where at: "ids_at ids (ev_type e) = (v, ids1)" by force
    note pop = PopOne_heap [OF "1.prems"(1) Some [unfolded ev]]
    have hd: "Next q = Inr e" using pop(2) Some by (auto simp: Next_def PopOne_def split: list.splits)
    have sq: "set q = insert e (set q1)" using pop(4) by simp
    then have nz: "\<forall>f\<in>set q1. ev_id f \<noteq> 0" "ev_id e \<noteq> 0" using "1.prems"(2) by auto
    have lv: "v = ev_id e \<longleftrightarrow> live_in ids e" using at nz by (simp add: ids_at_live)
    have lv1: "live_in ids1 f \<longleftrightarrow> live_in ids f" if "f \<in> set q1" for f
      using same_ids_ids_at [OF at] that nz by (intro same_ids_live) auto
    show ?thesis
    proof (cases "v = ev_id e")
      case True
      then have "next_loop q ids = Inr (ev_when e, q, ids1)"
        using hd at by (simp add: next_loop.simps [of q ids])
      then show ?thesis using True lv pop(5) sq by (auto simp: latest_live_def)
    next
      case False
      then have "next_loop q ids = next_loop q1 ids1"
        using hd at Some ev by (simp add: next_loop.simps [of q ids])
      moreover have "latest_live q ids t \<longleftrightarrow> latest_live q1 ids1 t" for t
        using False lv lv1 sq by (auto simp: latest_live_def)
      moreover have "(\<exists>f\<in>set q. live_in ids f) \<longleftrightarrow> (\<exists>f\<in>set q1. live_in ids1 f)"
        using False lv lv1 sq by auto
      ultimately show ?thesis
        using "1.IH" [OF at [symmetric] refl False Some ev [symmetric] pop(1) nz(1)]
        by (simp only:)
    qed
  qed
qed

lemma NextEventTime_correct:
  assumes "sched_inv s" and "sch_queue s \<noteq> []"
  shows "if \<exists>e. live s e
         then \<exists>t s'. NextEventTime s = Inr (Some t, s') \<and> latest_live (sch_queue s) (sch_ids s) t
         else NextEventTime s = Inl EmptyAccess"
proof -
  have "\<forall>e\<in>set (sch_queue s). ev_id e \<noteq> 0" using assms(1) by (simp add: sched_inv_def)
  from next_loop_correct [OF sched_inv_heap [OF assms(1)] this, of "sch_ids s"] show ?thesis
    using assms(2) by (auto simp: NextEventTime_def live_def split: if_splits)
qed

text \<open>A new event is the only live event of its type; the others of the type are leftovers.\<close>

lemma AddEvent_live:
  assumes inv: "sched_inv s" and room: "sch_eventId s < - 1"
  shows "live (AddEvent cb t ty s) f \<longleftrightarrow>
     (if ev_type f = ty
      then f = \<lparr> ev_callback = cb, ev_when = t, ev_type = ty, ev_id = sch_eventId s + 1 \<rparr>
      else live s f)"
proof -
  let ?e = "\<lparr> ev_callback = cb, ev_when = t, ev_type = ty, ev_id = sch_eventId s + 1 \<rparr>"
  have "set (sch_queue (AddEvent cb t ty s)) = insert ?e (set (sch_queue s))"
    using inv by (simp add: AddEvent_def Push_def Let_def hp.set_push sched_inv_def)
  moreover have "ev_id f \<noteq> sch_eventId s + 1" if "f \<in> set (sch_queue s)"
  proof -
    have "ev_id f < sch_eventId s + 1"
      using inv that by (intro word_less_plus_one [OF room]) (simp add: sched_inv_def)
    then show ?thesis by simp
  qed
  ultimately show ?thesis
    by (cases f) (auto simp: live_def live_in_def AddEvent_def Let_def)
qed

lemma Remove_live: "live (Remove ty s) f \<longleftrightarrow> live s f \<and> ev_type f \<noteq> ty"
  by (auto simp: live_def live_in_def Remove_def)

subsection \<open>Properties\<close>

text \<open>
  C21. What is dispatched is a live event that is due, and the latest of all live ones; the
  invariant of the scheduler is kept and no other live event is lost. But the front of the
  queue is its latest event: as long as any queued event lies in the future, nothing is
  dispatched, however overdue the others are.
\<close>

theorem Dispatch_latest_when_all_due:
  assumes "sched_inv s" and "Dispatch now s = (r, s')"
  shows "sched_inv s'
    \<and> (\<forall>e. r = Some e \<longrightarrow> live s e \<and> ev_when e \<le> now \<and> (\<forall>f. live s f \<longrightarrow> ev_when f \<le> ev_when e))
    \<and> ((\<exists>e\<in>set (sch_queue s). now < ev_when e) \<longrightarrow> r = None \<and> s' = s)
    \<and> (r = None \<longrightarrow> s' = s \<or> (\<forall>e. \<not> live s e))"
proof -
  have "r = None \<and> s' = s" if "\<exists>e\<in>set (sch_queue s). now < ev_when e"
    using that assms(2) HasTimeout_all_due [OF sched_inv_heap [OF assms(1)], of now]
    by (auto simp: Dispatch_def not_le split: if_splits)
  then show ?thesis
    using sched_inv_Dispatch [OF assms] Dispatch_cases(5,6) [OF assms] by auto
qed

definition two_timers :: Scheduler where
  "two_timers = AddEvent ShallLearnHandler 9 kEVENT_SHALL_I_LEARN
     (AddEvent (ProposeTimeoutHandler 1) 5 kEVENT_PROPOSE_TIMEOUT new_Scheduler)"

lemma two_timers_inv: "sched_inv two_timers"
  unfolding two_timers_def
  by (intro sched_inv_AddEvent sched_inv_new)
    (simp_all add: new_Scheduler_def AddEvent_def Let_def word_less_nat_alt unsigned_minus_1_eq_mask
      mask_eq_exp_minus_1)

lemma two_timers_queue: "mset (sch_queue two_timers) = {#
    \<lparr> ev_callback = ProposeTimeoutHandler 1, ev_when = 5, ev_type = kEVENT_PROPOSE_TIMEOUT, ev_id = 1 \<rparr>,
    \<lparr> ev_callback = ShallLearnHandler, ev_when = 9, ev_type = kEVENT_SHALL_I_LEARN, ev_id = 2 \<rparr> #}"
proof -
  let ?s = "AddEvent (ProposeTimeoutHandler 1) 5 kEVENT_PROPOSE_TIMEOUT new_Scheduler"
  have "sched_inv ?s"
    by (intro sched_inv_AddEvent sched_inv_new)
      (simp add: new_Scheduler_def word_less_nat_alt unsigned_minus_1_eq_mask mask_eq_exp_minus_1)
  note AddEvent_mset [OF sched_inv_heap [OF this], of ShallLearnHandler 9 kEVENT_SHALL_I_LEARN]
  moreover have "sch_queue ?s = [\<lparr> ev_callback = ProposeTimeoutHandler 1, ev_when = 5,
      ev_type = kEVENT_PROPOSE_TIMEOUT, ev_id = 1 \<rparr>]" "sch_eventId ?s = 1"
    by (simp_all add: AddEvent_def new_Scheduler_def Push_empty Let_def)
  ultimately show ?thesis by (simp add: two_timers_def add_mset_commute)
qed

lemma two_timers_set: "set (sch_queue two_timers) = {
    \<lparr> ev_callback = ProposeTimeoutHandler 1, ev_when = 5, ev_type = kEVENT_PROPOSE_TIMEOUT, ev_id = 1 \<rparr>,
    \<lparr> ev_callback = ShallLearnHandler, ev_when = 9, ev_type = kEVENT_SHALL_I_LEARN, ev_id = 2 \<rparr>}"
  using arg_cong [OF two_timers_queue, of set_mset] by simp

lemma Dispatch_latest_when_all_due_witness:
  "fst (Dispatch 8 two_timers) = None \<and>
   (\<exists>e\<in>set (sch_queue two_timers). ev_when e = 5 \<and> live two_timers e)"
proof -
  have "sch_ids two_timers kEVENT_PROPOSE_TIMEOUT = Some 1"
    by (simp add: two_timers_def AddEvent_def new_Scheduler_def Let_def)
  then show ?thesis
    using two_timers_set Dispatch_latest_when_all_due [OF two_timers_inv, of 8 "fst (Dispatch 8 two_timers)"
        "snd (Dispatch 8 two_timers)"]
    by (auto simp: live_def live_in_def)
qed

text \<open>
  The next event time is the latest time of the live events. When the queue holds only
  replaced or removed events, the search runs past them and reads the front of an empty
  vector.
\<close>

theorem NextEventTime_latest_or_fault:
  assumes "sched_inv s" and "sch_queue s \<noteq> []"
  shows "(if \<exists>e. live s e
     then \<exists>t s'. NextEventTime s = Inr (Some t, s') \<and> (\<exists>e. live s e \<and> ev_when e = t) \<and>
            (\<forall>f. live s f \<longrightarrow> ev_when f \<le> t)
     else NextEventTime s = Inl EmptyAccess)"
  using NextEventTime_correct [OF assms] by (auto simp: latest_live_def live_def split: if_splits)

lemma NextEventTime_latest_or_fault_witness:
  "NextEventTime (Remove kEVENT_SHALL_I_LEARN (Remove kEVENT_PROPOSE_TIMEOUT two_timers)) = Inl EmptyAccess"
proof -
  let ?s = "Remove kEVENT_SHALL_I_LEARN (Remove kEVENT_PROPOSE_TIMEOUT two_timers)"
  have ok: "sched_inv ?s" by (intro sched_inv_Remove two_timers_inv)
  have "sch_queue two_timers \<noteq> []"
    using two_timers_set by (metis empty_not_insert list.set(1))
  then have ne: "sch_queue ?s \<noteq> []" by (simp add: Remove_def)
  have "ev_type e \<in> {kEVENT_PROPOSE_TIMEOUT, kEVENT_SHALL_I_LEARN}" if "live two_timers e" for e
  proof -
    have "e \<in> set (sch_queue two_timers)" using that by (simp add: live_def)
    then show ?thesis unfolding two_timers_set by auto
  qed
  then have none: "\<not> (\<exists>e. live ?s e)" unfolding Remove_live by blast
  show ?thesis
    using NextEventTime_latest_or_fault [OF ok ne] unfolding if_not_P [OF none] .
qed

text \<open>
  An added event replaces the live event of its type and leaves those of other types alone;
  a removed type has no live event any more. Both keep the invariant (until the 64-bit event
  counter is used up).
\<close>

theorem AddEvent_replaces:
  assumes "sched_inv s" and "sch_eventId s < - 1"
  shows "sched_inv (AddEvent cb t ty s) \<and> sched_inv (Remove ty s)
    \<and> (\<forall>f. live (AddEvent cb t ty s) f \<longleftrightarrow>
         (if ev_type f = ty
          then f = \<lparr> ev_callback = cb, ev_when = t, ev_type = ty, ev_id = sch_eventId s + 1 \<rparr>
          else live s f))
    \<and> (\<forall>f. live (Remove ty s) f \<longleftrightarrow> live s f \<and> ev_type f \<noteq> ty)"
  using sched_inv_AddEvent [OF assms] sched_inv_Remove [OF assms(1)] AddEvent_live [OF assms]
    Remove_live by blast

lemma AddEvent_replaces_witness:
  "live (AddEvent NoHandler 3 kEVENT_PROPOSE_TIMEOUT two_timers)
     \<lparr> ev_callback = NoHandler, ev_when = 3, ev_type = kEVENT_PROPOSE_TIMEOUT, ev_id = 3 \<rparr>"
proof -
  have "sch_eventId two_timers = 2"
    by (simp add: two_timers_def AddEvent_def new_Scheduler_def Let_def)
  then show ?thesis
    using AddEvent_replaces [OF two_timers_inv, of NoHandler 3 kEVENT_PROPOSE_TIMEOUT]
    by (simp add: word_less_nat_alt unsigned_minus_1_eq_mask mask_eq_exp_minus_1)
qed

end
