(* ===== verification/Pax_Player.thy ===== *)
theory Pax_Player
  imports Pax_Messages Pax_Config Pax_Scheduler
begin

section \<open>Log storage interface, the Paxos log, and what every player can do\<close>

text \<open>
  The abstract class \<open>LogStorage\<close> (include/logstorage.hpp) is a record of operations over a
  storage state of any type; the contract its users rely on is the locale \<open>log_storage\<close>,
  whose \<open>view\<close> is the abstract map from keys to values. \<open>PaxStore\<close> (core/storage_pax.cpp)
  keeps one entry per instance in it, under the decimal text of the instance number, in the
  serialisation that protoc generates from core/proto/state.proto: the generated code is a
  parameter (\<open>env_serialize\<close>, \<open>env_parse\<close>). \<open>DirectMemory\<close> (storage/mem) is the storage
  over a \<open>SafeMap\<close> and interprets the contract.

  The last part is the base class \<open>PaxPlayer\<close> (core/player_pax.cpp): a player changes the
  world by writing the log, handing messages to the communicator and publishing events;
  the trace records the writes and messages in the order in which they happen.
\<close>

subsection \<open>LogStorage\<close>

type_synonym LogEntryKey = string
type_synonym LogEntryValue = string

record 'st LogStorage =
  ls_Put :: "LogEntryKey \<Rightarrow> LogEntryValue \<Rightarrow> 'st \<Rightarrow> bool \<times> 'st"
  ls_Get :: "LogEntryKey \<Rightarrow> 'st \<Rightarrow> LogEntryValue option \<times> 'st"
  ls_Delete :: "LogEntryKey \<Rightarrow> 'st \<Rightarrow> bool \<times> 'st"

locale log_storage =
  fixes put :: "LogEntryKey \<Rightarrow> LogEntryValue \<Rightarrow> 'st \<Rightarrow> bool \<times> 'st"
    and get :: "LogEntryKey \<Rightarrow> 'st \<Rightarrow> LogEntryValue option \<times> 'st"
    and valid_key :: "LogEntryKey \<Rightarrow> bool"
    and good :: "'st \<Rightarrow> bool"
    and view :: "'st \<Rightarrow> LogEntryKey \<rightharpoonup> LogEntryValue"
  assumes put_done: "good s \<Longrightarrow> valid_key k \<Longrightarrow> put k v s = (True, s') \<Longrightarrow>
      good s' \<and> view s' = (view s)(k \<mapsto> v)"
    and put_refused: "good s \<Longrightarrow> valid_key k \<Longrightarrow> put k v s = (False, s') \<Longrightarrow>
      good s' \<and> view s' = view s"
    and get_view: "good s \<Longrightarrow> valid_key k \<Longrightarrow> get k s = (r, s') \<Longrightarrow>
      r = view s k \<and> good s' \<and> view s' = view s"
begin

lemma fst_get: "good s \<Longrightarrow> valid_key k \<Longrightarrow> fst (get k s) = view s k"
  using get_view [of s k "fst (get k s)" "snd (get k s)"] by simp

lemma get_after_put:
  assumes "good s" and "valid_key k" and "put k v s = (True, s')"
  shows "fst (get k s') = Some v"
  using put_done [OF assms] assms(2) by (simp add: fst_get)

lemma get_after_put_other:
  assumes "good s" and "valid_key k" and "valid_key k'" and "k' \<noteq> k" and "put k v s = (b, s')"
  shows "fst (get k' s') = fst (get k' s)"
proof (cases b)
  case True
  with put_done [OF assms(1,2)] assms show ?thesis by (simp add: fst_get)
next
  case False
  with put_refused [OF assms(1,2)] assms show ?thesis by (simp add: fst_get)
qed

text \<open>A whole list of accepted puts leaves the last value of each key.\<close>

fun put_all :: "(LogEntryKey \<times> LogEntryValue) list \<Rightarrow> 'st \<Rightarrow> bool \<times> 'st" where
  "put_all [] s = (True, s)"
| "put_all ((k, v) # kvs) s = (case put k v s of
       (False, s') \<Rightarrow> (False, s') | (True, s') \<Rightarrow> put_all kvs s')"

lemma put_all_view:
  "good s \<Longrightarrow> \<forall>kv\<in>set kvs. valid_key (fst kv) \<Longrightarrow> put_all kvs s = (True, s') \<Longrightarrow>
     good s' \<and> view s' = view s ++ map_of (rev kvs)"
proof (induction kvs arbitrary: s)
  case Nil
  then show ?case by simp
next
  case (Cons kv kvs)
  obtain k v where kv: "kv = (k, v)" by force
  obtain s1 where p: "put k v s = (True, s1)" and r: "put_all kvs s1 = (True, s')"
    using Cons.prems(3) kv by (auto split: prod.splits bool.splits)
  have "good s1 \<and> view s1 = (view s)(k \<mapsto> v)" using Cons.prems(1,2) kv p by (intro put_done) auto
  with Cons.IH [OF _ _ r] Cons.prems(2) show ?case
    by (simp add: kv map_add_def fun_eq_iff split: option.split)
qed

end

subsection \<open>SafeMap and DirectMemory (util/include/map.hpp, storage/mem/memory_db.cpp)\<close>

definition SafeMap_Get :: "'k \<Rightarrow> ('k \<rightharpoonup> 'v) \<Rightarrow> 'v option" where
  "SafeMap_Get key dict = dict key"

text \<open>\<open>safeMap[key] = value\<close>.\<close>

definition SafeMap_assign :: "'k \<Rightarrow> 'v \<Rightarrow> ('k \<rightharpoonup> 'v) \<Rightarrow> ('k \<rightharpoonup> 'v)" where
  "SafeMap_assign key val dict = dict(key \<mapsto> val)"

type_synonym MemoryDB = "LogEntryKey \<rightharpoonup> LogEntryValue"

definition DirectMemory_Put :: "LogEntryKey \<Rightarrow> LogEntryValue \<Rightarrow> MemoryDB \<Rightarrow> bool \<times> MemoryDB" where
  "DirectMemory_Put k v db = (True, SafeMap_assign k v db)"

definition DirectMemory_Get :: "LogEntryKey \<Rightarrow> MemoryDB \<Rightarrow> LogEntryValue option \<times> MemoryDB" where
  "DirectMemory_Get k db = (SafeMap_Get k db, db)"

text \<open>The class has no \<open>Delete\<close> of its own; the entry is a refusal.\<close>

definition DirectMemory :: "MemoryDB LogStorage" where
  "DirectMemory = \<lparr> ls_Put = DirectMemory_Put, ls_Get = DirectMemory_Get,
                    ls_Delete = (\<lambda>k db. (False, db)) \<rparr>"

interpretation mem: log_storage DirectMemory_Put DirectMemory_Get "\<lambda>k. True" "\<lambda>db. True" "\<lambda>db. db"
  by unfold_locales (auto simp: DirectMemory_Put_def DirectMemory_Get_def SafeMap_assign_def
      SafeMap_Get_def)

subsection \<open>PaxStore (core/storage_pax.cpp, core/proto/state.proto)\<close>

record PaxosLogEntry =
  le_instance_id :: instance_id_t
  le_promised_proposal_id :: proposal_id_t
  le_promised_node_id :: node_id_t
  le_accepted_proposal_id :: proposal_id_t
  le_accepted_node_id :: node_id_t
  le_accepted_value :: LogValue
  le_proposer_id :: node_id_t
  le_leader_instance_id :: instance_id_t

text \<open>A message object as constructed: every proto3 field has its zero value.\<close>

definition new_PaxosLogEntry :: PaxosLogEntry where
  "new_PaxosLogEntry = \<lparr> le_instance_id = 0, le_promised_proposal_id = 0, le_promised_node_id = 0,
     le_accepted_proposal_id = 0, le_accepted_node_id = 0, le_accepted_value = [],
     le_proposer_id = 0, le_leader_instance_id = 0 \<rparr>"

record 'st Env =
  env_options :: PaxosOptions
  env_storage :: "'st LogStorage"
  env_serialize :: "PaxosLogEntry \<Rightarrow> string"
  env_parse :: "string \<Rightarrow> PaxosLogEntry"   \<comment> \<open>what \<open>ParseFromString\<close> leaves in a new entry\<close>

definition WriteLog :: "'st Env \<Rightarrow> PaxosLogEntry \<Rightarrow> 'st \<Rightarrow> int \<times> 'st" where
  "WriteLog env e st =
     (case ls_Put (env_storage env) (to_string (le_instance_id e)) (env_serialize env e) st of
        (ok, st') \<Rightarrow> (if \<not> ok then 0 else 1, st'))"

definition ReadLog :: "'st Env \<Rightarrow> instance_id_t \<Rightarrow> 'st \<Rightarrow> int \<times> PaxosLogEntry \<times> 'st" where
  "ReadLog env instance_id st =
     (case ls_Get (env_storage env) (to_string instance_id) st of
        (Some v, st') \<Rightarrow> (1, env_parse env v, st')
      | (None, st') \<Rightarrow> (0, new_PaxosLogEntry, st'))"

definition codec_roundtrip :: "'st Env \<Rightarrow> bool" where
  "codec_roundtrip env \<longleftrightarrow> (\<forall>e. env_parse env (env_serialize env e) = e)"

definition GetNodeId :: "'st Env \<Rightarrow> node_id_t" where
  "GetNodeId env = opt_node_id (env_options env)"

text \<open>
  A fixed-width codec, the instance of the two parameters on which the properties about
  stored entries are tried out: seven 8-byte integers, then the value.
\<close>

definition fixed_serialize :: "PaxosLogEntry \<Rightarrow> string" where
  "fixed_serialize e = word_bytes 8 (le_instance_id e) @ word_bytes 8 (le_promised_proposal_id e) @
     word_bytes 8 (le_promised_node_id e) @ word_bytes 8 (le_accepted_proposal_id e) @
     word_bytes 8 (le_accepted_node_id e) @ word_bytes 8 (le_proposer_id e) @
     word_bytes 8 (le_leader_instance_id e) @ le_accepted_value e"

definition word_at :: "nat \<Rightarrow> string \<Rightarrow> u64" where
  "word_at k s = word_of_bytes (take 8 (drop (8 * k) s))"

definition fixed_parse :: "string \<Rightarrow> PaxosLogEntry" where
  "fixed_parse s = \<lparr> le_instance_id = word_at 0 s, le_promised_proposal_id = word_at 1 s,
     le_promised_node_id = word_at 2 s, le_accepted_proposal_id = word_at 3 s,
     le_accepted_node_id = word_at 4 s, le_accepted_value = drop 56 s,
     le_proposer_id = word_at 5 s, le_leader_instance_id = word_at 6 s \<rparr>"

lemma fixed_roundtrip: "fixed_parse (fixed_serialize e) = e"
  by (cases e) (simp add: fixed_parse_def fixed_serialize_def word_at_def)

definition mem_env :: "PaxosOptions \<Rightarrow> MemoryDB Env" where
  "mem_env c = \<lparr> env_options = c, env_storage = DirectMemory,
     env_serialize = fixed_serialize, env_parse = fixed_parse \<rparr>"

lemma mem_env_simps [simp]:
  "env_options (mem_env c) = c" "env_storage (mem_env c) = DirectMemory"
  "env_serialize (mem_env c) = fixed_serialize" "env_parse (mem_env c) = fixed_parse"
  "codec_roundtrip (mem_env c)" "GetNodeId (mem_env c) = opt_node_id c"
  "log_storage (ls_Put DirectMemory) (ls_Get DirectMemory) (\<lambda>k. True) (\<lambda>db. True) (\<lambda>db. db)"
  by (simp_all add: mem_env_def codec_roundtrip_def fixed_roundtrip GetNodeId_def
      DirectMemory_def mem.log_storage_axioms)

text \<open>Reading back over any storage that keeps the contract.\<close>

lemma ReadLog_WriteLog:
  assumes "log_storage (ls_Put (env_storage env)) (ls_Get (env_storage env)) valid good view"
    and "codec_roundtrip env" and "good st" and "valid (to_string (le_instance_id e))"
    and "WriteLog env e st = (1, st')"
  shows "fst (ReadLog env (le_instance_id e) st') = 1"
    and "fst (snd (ReadLog env (le_instance_id e) st')) = e"
proof -
  have p: "ls_Put (env_storage env) (to_string (le_instance_id e)) (env_serialize env e) st
      = (True, st')"
    using assms(5) by (auto simp: WriteLog_def split: prod.splits if_splits)
  have "fst (ls_Get (env_storage env) (to_string (le_instance_id e)) st')
      = Some (env_serialize env e)"
    using log_storage.get_after_put [OF assms(1,3,4) p] .
  then show "fst (ReadLog env (le_instance_id e) st') = 1"
    and "fst (snd (ReadLog env (le_instance_id e) st')) = e"
    using assms(2) by (auto simp: ReadLog_def codec_roundtrip_def split: prod.splits)
qed

text \<open>A cluster of three on which the properties are tried out, seen from node 1.\<close>

definition sample_options :: PaxosOptions where
  "sample_options = \<lparr> opt_node_id = 1, opt_majority_threshold = 2 / 3, opt_member_count = 3,
     opt_members = {1, 2, 3} \<rparr>"

definition sample_env :: "MemoryDB Env" where
  "sample_env = mem_env sample_options"

lemma sample_env_simps [simp]:
  "env_options sample_env = sample_options" "env_storage sample_env = DirectMemory"
  "env_serialize sample_env = fixed_serialize" "env_parse sample_env = fixed_parse"
  "codec_roundtrip sample_env" "GetNodeId sample_env = 1"
  by (simp_all add: sample_env_def) (simp add: sample_options_def)

lemma DirectMemory_Put_ok [simp]: "fst (ls_Put DirectMemory k v db)"
  by (simp add: DirectMemory_def DirectMemory_Put_def)

subsection \<open>PaxPlayer (core/player_pax.cpp)\<close>

datatype Action =
    Wrote PaxosLogEntry
  | SentTo node_id_t PaxMessage
  | Broadcasted PaxMessage

record 'st World =
  w_store :: 'st
  w_sched :: Scheduler
  w_now :: SteadyTime
  w_trace :: "Action list"

definition sample_world :: "MemoryDB World" where
  "sample_world = \<lparr> w_store = Map.empty, w_sched = new_Scheduler, w_now = 0, w_trace = [] \<rparr>"

lemma sample_world_simps [simp]:
  "w_store sample_world = Map.empty" "w_sched sample_world = new_Scheduler"
  "w_now sample_world = 0" "w_trace sample_world = []"
  by (simp_all add: sample_world_def)

definition SendMessage :: "PaxMessage \<Rightarrow> node_id_t \<Rightarrow> 'st World \<Rightarrow> 'st World" where
  "SendMessage m node_id w = w\<lparr> w_trace := w_trace w @ [SentTo node_id m] \<rparr>"

definition BroadCastMessage :: "PaxMessage \<Rightarrow> 'st World \<Rightarrow> 'st World" where
  "BroadCastMessage m w = w\<lparr> w_trace := w_trace w @ [Broadcasted m] \<rparr>"

definition WriteState :: "'st Env \<Rightarrow> PaxosLogEntry \<Rightarrow> 'st World \<Rightarrow> 'st World" where
  "WriteState env e w =
     w\<lparr> w_store := snd (WriteLog env e (w_store w)), w_trace := w_trace w @ [Wrote e] \<rparr>"

definition ReadState :: "'st Env \<Rightarrow> instance_id_t \<Rightarrow> 'st World \<Rightarrow> PaxosLogEntry \<times> 'st World" where
  "ReadState env instance_id w =
     (case ReadLog env instance_id (w_store w) of
        (_, e, st') \<Rightarrow> (e, w\<lparr> w_store := st' \<rparr>))"

text \<open>
  The delay of an event is a \<open>std::chrono::duration<int>\<close> made from the argument: the
  default period of a duration is one second, and its representation is a 32-bit \<open>int\<close>.
\<close>

definition Publish :: "EventType \<Rightarrow> EventHandler \<Rightarrow> millisec \<Rightarrow> 'st World \<Rightarrow> 'st World" where
  "Publish event_type callback delayInMilli w =
     (let delay = sint (ucast delayInMilli :: u32); t = w_now w + delay * ns_per_s
      in w\<lparr> w_sched := AddEvent callback t event_type (w_sched w) \<rparr>)"

definition Withdraw :: "EventType \<Rightarrow> 'st World \<Rightarrow> 'st World" where
  "Withdraw event_type w = w\<lparr> w_sched := Remove event_type (w_sched w) \<rparr>"

lemma World_effects [simp]:
  "w_store (SendMessage m n w) = w_store w" "w_sched (SendMessage m n w) = w_sched w"
  "w_now (SendMessage m n w) = w_now w" "w_trace (SendMessage m n w) = w_trace w @ [SentTo n m]"
  "w_store (BroadCastMessage m w) = w_store w" "w_sched (BroadCastMessage m w) = w_sched w"
  "w_now (BroadCastMessage m w) = w_now w"
  "w_trace (BroadCastMessage m w) = w_trace w @ [Broadcasted m]"
  "w_sched (WriteState env e w) = w_sched w" "w_now (WriteState env e w) = w_now w"
  "w_store (WriteState env e w) = snd (WriteLog env e (w_store w))"
  "w_trace (WriteState env e w) = w_trace w @ [Wrote e]"
  "w_store (Publish ty cb d w) = w_store w" "w_now (Publish ty cb d w) = w_now w"
  "w_trace (Publish ty cb d w) = w_trace w"
  "w_sched (Publish ty cb d w) =
     AddEvent cb (w_now w + sint (ucast d :: u32) * ns_per_s) ty (w_sched w)"
  "w_store (Withdraw ty w) = w_store w" "w_now (Withdraw ty w) = w_now w"
  "w_trace (Withdraw ty w) = w_trace w" "w_sched (Withdraw ty w) = Remove ty (w_sched w)"
  by (simp_all add: SendMessage_def BroadCastMessage_def WriteState_def Publish_def
      Withdraw_def Let_def)

lemma ReadState_world [simp]:
  "w_sched (snd (ReadState env i w)) = w_sched w" "w_now (snd (ReadState env i w)) = w_now w"
  "w_trace (snd (ReadState env i w)) = w_trace w"
  by (simp_all add: ReadState_def split: prod.splits)

end
