(* ===== verification/Pax_Acceptor.thy ===== *)
theory Pax_Acceptor
  imports Pax_Player
begin

section \<open>The acceptor (core/acceptor_pax.cpp, core/include/acceptor_pax.hpp)\<close>

text \<open>
  The acceptor's state, its two request handlers with everything they call, start and
  restart. A handler takes the instance number of the controller, the state and the world,
  and returns both afterwards. The ballots that requests carry are ordered like
  \<open>IsHigherThanPromised\<close> compares them (proposal id first, then proposer).

  The locale \<open>ballot_voter\<close> is what the rest of Paxos may rely on in an acceptor: it approves
  a request exactly when its ballot is above every ballot approved before, an approval moves
  the promise to that ballot and a refusal changes nothing. Its lemmas are about whole
  sequences of requests, and \<open>interpretation voter\<close> discharges the laws for the handlers.
  The refinement at the end relates the handlers to an abstract acceptor.
\<close>

subsection \<open>Ballots\<close>

datatype ballot = Ballot (bal_id: proposal_id_t) (bal_node: node_id_t)

instantiation ballot :: linorder
begin

definition less_ballot :: "ballot \<Rightarrow> ballot \<Rightarrow> bool" where
  "less_ballot a b \<longleftrightarrow> bal_id a < bal_id b \<or> bal_id a = bal_id b \<and> bal_node a < bal_node b"

definition less_eq_ballot :: "ballot \<Rightarrow> ballot \<Rightarrow> bool" where
  "less_eq_ballot a b \<longleftrightarrow> bal_id a < bal_id b \<or> bal_id a = bal_id b \<and> bal_node a \<le> bal_node b"

instance
  by standard (auto simp: less_ballot_def less_eq_ballot_def ballot.expand)

end

lemma ballot_less [simp]:
  "Ballot p n < Ballot p' n' \<longleftrightarrow> p < p' \<or> p = p' \<and> n < n'"
  by (simp add: less_ballot_def)

subsection \<open>The acceptor's state and its reply object\<close>

record AcceptorState =
  as_promised_proposal_id :: proposal_id_t
  as_promised_node_id :: node_id_t
  as_accepted_proposal_id :: proposal_id_t
  as_accepted_proposer :: node_id_t
  as_accepted_value :: LogValue

definition new_AcceptorState :: AcceptorState where
  "new_AcceptorState = \<lparr> as_promised_proposal_id = PROPOSAL_DUMMY, as_promised_node_id = NODE_DUMMY,
     as_accepted_proposal_id = PROPOSAL_DUMMY, as_accepted_proposer = NODE_DUMMY,
     as_accepted_value = [] \<rparr>"

definition SetPromisedProposal ::
  "proposal_id_t \<Rightarrow> node_id_t \<Rightarrow> AcceptorState \<Rightarrow> AcceptorState" where
  "SetPromisedProposal proposal_id proposer_id s =
     s\<lparr> as_promised_proposal_id := proposal_id, as_promised_node_id := proposer_id \<rparr>"

text \<open>The proposer's id goes into both fields, the proposal id into neither.\<close>

definition SetAcceptedProposal ::
  "proposal_id_t \<Rightarrow> node_id_t \<Rightarrow> AcceptorState \<Rightarrow> AcceptorState" where
  "SetAcceptedProposal proposal_id proposer_id s =
     s\<lparr> as_accepted_proposal_id := proposer_id, as_accepted_proposer := proposer_id \<rparr>"

definition SetAcceptedValue :: "LogValue \<Rightarrow> AcceptorState \<Rightarrow> AcceptorState" where
  "SetAcceptedValue v s = s\<lparr> as_accepted_value := v \<rparr>"

definition AcceptorState_Init :: "PaxosLogEntry \<Rightarrow> AcceptorState \<Rightarrow> AcceptorState" where
  "AcceptorState_Init e s =
     SetPromisedProposal (le_promised_proposal_id e) (le_promised_node_id e)
       (SetAcceptedProposal (le_accepted_proposal_id e) (le_accepted_node_id e)
         (SetAcceptedValue (le_accepted_value e) s))"

definition AcceptorState_Reset :: "AcceptorState \<Rightarrow> AcceptorState" where
  "AcceptorState_Reset s =
     s\<lparr> as_accepted_value := [], as_accepted_proposal_id := PROPOSAL_DUMMY,
        as_accepted_proposer := NODE_DUMMY, as_promised_proposal_id := PROPOSAL_DUMMY,
        as_promised_node_id := NODE_DUMMY \<rparr>"

record PaxAcceptorReplyMessage =
  ar_accepted_id :: proposal_id_t
  ar_accepted_value :: LogValue
  ar_promised_id :: proposal_id_t
  ar_promised_node_id :: node_id_t
  ar_instance_id :: instance_id_t
  ar_is_rejected :: bool
  ar_proposer_id :: node_id_t

definition new_PaxAcceptorReplyMessage :: PaxAcceptorReplyMessage where
  "new_PaxAcceptorReplyMessage = \<lparr> ar_accepted_id = 0, ar_accepted_value = [],
     ar_promised_id = 0, ar_promised_node_id = 0, ar_instance_id = 0, ar_is_rejected = False,
     ar_proposer_id = 0 \<rparr>"

subsection \<open>Operations\<close>

definition IsAccepted :: "AcceptorState \<Rightarrow> bool" where
  "IsAccepted s \<longleftrightarrow> as_accepted_proposer s > 0"

definition IsHigherThanPromised :: "node_id_t \<Rightarrow> proposal_id_t \<Rightarrow> AcceptorState \<Rightarrow> bool" where
  "IsHigherThanPromised proposer proposal_id s \<longleftrightarrow>
     (let promised_proposal_id = as_promised_proposal_id s;
          promised_proposer = as_promised_node_id s
      in proposal_id > promised_proposal_id \<or>
         proposal_id = promised_proposal_id \<and> proposer > promised_proposer)"

definition IsProposalAccepted :: "proposal_id_t \<Rightarrow> node_id_t \<Rightarrow> AcceptorState \<Rightarrow> bool" where
  "IsProposalAccepted proposal_id node_id s \<longleftrightarrow>
     as_accepted_proposal_id s = proposal_id \<and> as_accepted_proposer s = node_id"

text \<open>The entry that \<open>UpdatePromised\<close> makes and writes.\<close>

definition promise_entry ::
  "node_id_t \<Rightarrow> proposal_id_t \<Rightarrow> instance_id_t \<Rightarrow> AcceptorState \<Rightarrow> PaxosLogEntry" where
  "promise_entry proposer proposal_id instance_id s =
     (let e = new_PaxosLogEntry\<lparr> le_instance_id := instance_id, le_promised_node_id := proposer,
                le_promised_proposal_id := proposal_id, le_proposer_id := proposer \<rparr>
      in if as_accepted_proposal_id s \<noteq> 0
         then e\<lparr> le_accepted_node_id := proposer,
                 le_accepted_proposal_id := as_accepted_proposal_id s,
                 le_accepted_value := as_accepted_value s \<rparr>
         else e)"

definition UpdatePromised ::
  "'st Env \<Rightarrow> instance_id_t \<Rightarrow> node_id_t \<Rightarrow> proposal_id_t \<Rightarrow> AcceptorState \<times> 'st World
     \<Rightarrow> AcceptorState \<times> 'st World" where
  "UpdatePromised env instance_id proposer proposal_id sw =
     (case sw of (s, w) \<Rightarrow>
        (let s' = SetPromisedProposal proposal_id proposer s
         in (s', WriteState env (promise_entry proposer proposal_id instance_id s') w)))"

definition ReplyProposer ::
  "'st Env \<Rightarrow> PaxAcceptorReplyMessage \<Rightarrow> MessageType \<Rightarrow> 'st World \<Rightarrow> 'st World" where
  "ReplyProposer env reply request_type w =
     (let m = (new_PaxMessage (GetNodeId env) request_type)\<lparr>
                pm_instanceId := ar_instance_id reply,
                pm_promisedNodeId := ar_promised_node_id reply,
                pm_promisedProposalId := ar_promised_id reply,
                pm_acceptedProposalId := ar_accepted_id reply,
                pm_acceptedValue := ar_accepted_value reply,
                pm_rejected := ar_is_rejected reply \<rparr>
      in SendMessage m (ar_proposer_id reply) w)"

definition HandlePropose ::
  "'st Env \<Rightarrow> instance_id_t \<Rightarrow> PaxMessage \<Rightarrow> AcceptorState \<times> 'st World
     \<Rightarrow> AcceptorState \<times> 'st World" where
  "HandlePropose env instance_id message sw =
     (let (s, w) = sw;
          proposer = pm_proposingNodeId message;
          reply = new_PaxAcceptorReplyMessage\<lparr> ar_proposer_id := proposer \<rparr>;
          proposal_id = pm_proposalId message
      in if IsHigherThanPromised proposer proposal_id s
         then (let reply1 = reply\<lparr> ar_is_rejected := False \<rparr>;
                   accepted_proposal_id = as_accepted_proposal_id s;
                   reply2 = (if accepted_proposal_id \<noteq> PROPOSAL_DUMMY
                             then reply1\<lparr> ar_accepted_id := accepted_proposal_id,
                                          ar_accepted_value := as_accepted_value s \<rparr>
                             else reply1);
                   (s', w') = UpdatePromised env instance_id proposer proposal_id (s, w)
               in (s', ReplyProposer env reply2 kMSG_PROPOSE_ACK w'))
         else (let reply1 = reply\<lparr> ar_is_rejected := True,
                              ar_promised_id := as_promised_proposal_id s,
                              ar_promised_node_id := as_promised_node_id s \<rparr>
               in (s, ReplyProposer env reply1 kMSG_PROPOSE_ACK w)))"

definition HandleAccept ::
  "'st Env \<Rightarrow> instance_id_t \<Rightarrow> PaxMessage \<Rightarrow> AcceptorState \<times> 'st World
     \<Rightarrow> AcceptorState \<times> 'st World" where
  "HandleAccept env instance_id message sw =
     (let (s, w) = sw;
          reply = new_PaxAcceptorReplyMessage\<lparr> ar_proposer_id := pm_proposingNodeId message \<rparr>;
          proposal_id = pm_proposalId message;
          proposer = pm_proposingNodeId message
      in if IsHigherThanPromised proposer proposal_id s
         then (let s1 = SetPromisedProposal proposal_id proposer s;
                   s2 = SetAcceptedProposal proposal_id proposer s1;
                   s3 = SetAcceptedValue (pm_proposedLogValue message) s2;
                   (s', w') = UpdatePromised env instance_id proposer proposal_id (s3, w)
               in (s', ReplyProposer env (reply\<lparr> ar_is_rejected := False \<rparr>) kMSG_ACCEPT_ACK w'))
         else (s, ReplyProposer env
                    (reply\<lparr> ar_is_rejected := True, ar_promised_id := as_promised_proposal_id s \<rparr>)
                    kMSG_ACCEPT_ACK w))"

definition Acceptor_HandleMessage ::
  "'st Env \<Rightarrow> instance_id_t \<Rightarrow> PaxMessage \<Rightarrow> AcceptorState \<times> 'st World
     \<Rightarrow> AcceptorState \<times> 'st World" where
  "Acceptor_HandleMessage env instance_id message sw =
     (case pm_messageType message of
        kMSG_PROPOSE_BROADCAST \<Rightarrow> HandlePropose env instance_id message sw
      | kMSG_ACCEPT_BROADCAST \<Rightarrow> HandleAccept env instance_id message sw
      | _ \<Rightarrow> sw)"

text \<open>\<open>ReadState(-1)\<close>: the argument is converted to the largest instance number.\<close>

definition Acceptor_Init ::
  "'st Env \<Rightarrow> AcceptorState \<times> 'st World \<Rightarrow> instance_id_t \<times> AcceptorState \<times> 'st World" where
  "Acceptor_Init env sw =
     (let (s, w) = sw; (paxos_state, w') = ReadState env (- 1) w
      in (le_instance_id paxos_state, AcceptorState_Init paxos_state s, w'))"

definition Acceptor_NewInstance :: "AcceptorState \<Rightarrow> AcceptorState" where
  "Acceptor_NewInstance s = AcceptorState_Reset s"

definition Acceptor_HandleSenderPublish ::
  "instance_id_t \<Rightarrow> PaxMessage \<Rightarrow> AcceptorState \<Rightarrow> bool" where
  "Acceptor_HandleSenderPublish instance_id m s =
     (if pm_instanceId m \<noteq> instance_id then False
      else if IsProposalAccepted (pm_proposalId m) (pm_proposingNodeId m) s then False
      else True)"

subsection \<open>What each handler does, branch by branch\<close>

definition promised :: "AcceptorState \<Rightarrow> ballot" where
  "promised s = Ballot (as_promised_proposal_id s) (as_promised_node_id s)"

definition msg_ballot :: "PaxMessage \<Rightarrow> ballot" where
  "msg_ballot m = Ballot (pm_proposalId m) (pm_proposingNodeId m)"

definition is_request :: "PaxMessage \<Rightarrow> bool" where
  "is_request m \<longleftrightarrow> MessageForAcceptor (pm_messageType m)"

definition approves :: "PaxMessage \<Rightarrow> AcceptorState \<Rightarrow> bool" where
  "approves m s \<longleftrightarrow> is_request m \<and>
     IsHigherThanPromised (pm_proposingNodeId m) (pm_proposalId m) s"

text \<open>The state change alone, without the world.\<close>

definition voted :: "PaxMessage \<Rightarrow> AcceptorState \<Rightarrow> AcceptorState" where
  "voted m s = (if pm_messageType m = kMSG_ACCEPT_BROADCAST
     then s\<lparr> as_accepted_proposal_id := pm_proposingNodeId m,
             as_accepted_proposer := pm_proposingNodeId m,
             as_accepted_value := pm_proposedLogValue m,
             as_promised_proposal_id := pm_proposalId m,
             as_promised_node_id := pm_proposingNodeId m \<rparr>
     else s\<lparr> as_promised_proposal_id := pm_proposalId m,
             as_promised_node_id := pm_proposingNodeId m \<rparr>)"

definition acceptor_step :: "PaxMessage \<Rightarrow> AcceptorState \<Rightarrow> AcceptorState" where
  "acceptor_step m s = (if approves m s then voted m s else s)"

lemmas acceptor_state_defs = SetPromisedProposal_def SetAcceptedProposal_def SetAcceptedValue_def

lemmas acceptor_handler_defs = Acceptor_HandleMessage_def HandlePropose_def HandleAccept_def
  UpdatePromised_def acceptor_state_defs Let_def

lemma IsHigher_iff: "IsHigherThanPromised n p s \<longleftrightarrow> promised s < Ballot p n"
  by (auto simp: IsHigherThanPromised_def promised_def Let_def)

lemma approves_iff: "approves m s \<longleftrightarrow> is_request m \<and> promised s < msg_ballot m"
  by (simp add: approves_def IsHigher_iff msg_ballot_def)

lemma HandleMessage_state:
  "fst (Acceptor_HandleMessage env i m (s, w)) = acceptor_step m s"
  by (auto simp: acceptor_handler_defs acceptor_step_def approves_def is_request_def voted_def
      split: MessageType.split)

text \<open>An approval writes the log, then replies; a refusal only replies.\<close>

lemma HandleMessage_world:
  "snd (Acceptor_HandleMessage env i m (s, w)) =
     (if \<not> is_request m then w
      else if approves m s
      then ReplyProposer env
             (if pm_messageType m = kMSG_PROPOSE_BROADCAST \<and> as_accepted_proposal_id s \<noteq> 0
              then new_PaxAcceptorReplyMessage\<lparr> ar_proposer_id := pm_proposingNodeId m,
                     ar_accepted_id := as_accepted_proposal_id s,
                     ar_accepted_value := as_accepted_value s \<rparr>
              else new_PaxAcceptorReplyMessage\<lparr> ar_proposer_id := pm_proposingNodeId m \<rparr>)
             (if pm_messageType m = kMSG_PROPOSE_BROADCAST then kMSG_PROPOSE_ACK else kMSG_ACCEPT_ACK)
             (WriteState env
               (promise_entry (pm_proposingNodeId m) (pm_proposalId m) i (voted m s)) w)
      else ReplyProposer env
             (new_PaxAcceptorReplyMessage\<lparr> ar_proposer_id := pm_proposingNodeId m,
                ar_is_rejected := True, ar_promised_id := as_promised_proposal_id s,
                ar_promised_node_id := (if pm_messageType m = kMSG_PROPOSE_BROADCAST
                                        then as_promised_node_id s else 0) \<rparr>)
             (if pm_messageType m = kMSG_PROPOSE_BROADCAST then kMSG_PROPOSE_ACK else kMSG_ACCEPT_ACK)
             w)"
  by (cases "pm_messageType m")
    (simp_all add: acceptor_handler_defs approves_def is_request_def voted_def
      new_PaxAcceptorReplyMessage_def)

lemma promised_voted [simp]: "promised (voted m s) = msg_ballot m"
  by (simp add: promised_def voted_def msg_ballot_def)

subsection \<open>Voters\<close>

locale ballot_voter =
  fixes rank :: "'s \<Rightarrow> 'b::linorder"
    and request :: "'m \<Rightarrow> bool"
    and ballot_of :: "'m \<Rightarrow> 'b"
    and approve :: "'m \<Rightarrow> 's \<Rightarrow> bool"
    and step :: "'m \<Rightarrow> 's \<Rightarrow> 's"
  assumes approve_higher: "approve m s \<longleftrightarrow> request m \<and> rank s < ballot_of m"
    and rank_approve: "approve m s \<Longrightarrow> rank (step m s) = ballot_of m"
    and refuse_same: "\<not> approve m s \<Longrightarrow> step m s = s"
begin

definition run :: "'m list \<Rightarrow> 's \<Rightarrow> 's" where
  "run ms s = fold step ms s"

fun approvals :: "'m list \<Rightarrow> 's \<Rightarrow> 'm list" where
  "approvals [] s = []"
| "approvals (m # ms) s = (if approve m s then [m] else []) @ approvals ms (step m s)"

lemma rank_step: "rank s \<le> rank (step m s)"
  by (cases "approve m s") (auto simp: rank_approve refuse_same approve_higher)

lemma rank_run: "rank s \<le> rank (run ms s)"
proof (induction ms arbitrary: s)
  case Nil
  then show ?case by (simp add: run_def)
next
  case (Cons m ms)
  from Cons [of "step m s"] rank_step [of s m] show ?case by (simp add: run_def)
qed

lemma run_append: "run (ms @ ns) s = run ns (run ms s)"
  by (simp add: run_def)

text \<open>Whatever is approved, at any time, is above the promise at the start.\<close>

lemma approvals_above: "m \<in> set (approvals ms s) \<Longrightarrow> rank s < ballot_of m"
proof (induction ms arbitrary: s)
  case Nil
  then show ?case by simp
next
  case (Cons k ms)
  show ?case
  proof (cases "m \<in> set (approvals ms (step k s))")
    case True
    then show ?thesis using Cons.IH [OF True] rank_step [of s k] by simp
  next
    case False
    with Cons.prems have "m = k \<and> approve k s" by (auto split: if_splits)
    then show ?thesis by (simp add: approve_higher)
  qed
qed

text \<open>The approved ballots increase strictly, so no ballot is approved twice.\<close>

lemma approvals_sorted: "sorted_wrt (<) (map ballot_of (approvals ms s))"
proof (induction ms arbitrary: s)
  case Nil
  then show ?case by simp
next
  case (Cons m ms)
  have "ballot_of m < ballot_of k" if "approve m s" "k \<in> set (approvals ms (step m s))" for k
    using approvals_above [OF that(2)] rank_approve [OF that(1)] by simp
  with Cons [of "step m s"] show ?case by auto
qed

lemma rank_run_approvals:
  "rank (run ms s) = (if approvals ms s = [] then rank s else ballot_of (last (approvals ms s)))"
proof (induction ms arbitrary: s)
  case Nil
  then show ?case by (simp add: run_def)
next
  case (Cons m ms)
  from Cons [of "step m s"] show ?case
    by (cases "approve m s") (auto simp: run_def rank_approve refuse_same)
qed

lemma stale_refused: "\<not> rank s < ballot_of m \<Longrightarrow> \<not> approve m (run ms s)"
  using rank_run [of s ms] by (auto simp: approve_higher)

text \<open>After an approval the same ballot is refused for ever.\<close>

lemma refused_after_approval:
  assumes "approve m s" and "ballot_of k \<le> ballot_of m"
  shows "step k (run ms (step m s)) = run ms (step m s)"
proof -
  have "\<not> rank (step m s) < ballot_of k" using assms by (simp add: rank_approve)
  from stale_refused [OF this, of ms] show ?thesis by (rule refuse_same)
qed

end

interpretation voter: ballot_voter promised is_request msg_ballot approves acceptor_step
  by unfold_locales (auto simp: approves_iff acceptor_step_def)

text \<open>The handler with its world, run over a list of messages in one instance.\<close>

definition acceptor_run ::
  "'st Env \<Rightarrow> instance_id_t \<Rightarrow> PaxMessage list \<Rightarrow> AcceptorState \<times> 'st World
     \<Rightarrow> AcceptorState \<times> 'st World" where
  "acceptor_run env i ms sw = fold (Acceptor_HandleMessage env i) ms sw"

lemma acceptor_run_state: "fst (acceptor_run env i ms sw) = voter.run ms (fst sw)"
proof (induction ms arbitrary: sw)
  case Nil
  then show ?case by (simp add: acceptor_run_def voter.run_def)
next
  case (Cons m ms)
  from Cons [of "Acceptor_HandleMessage env i m sw"] show ?case
    by (cases sw) (simp add: acceptor_run_def voter.run_def HandleMessage_state)
qed

subsection \<open>The abstract acceptor\<close>

text \<open>
  What is left of an acceptor when ballots are one ordered value: a promise, and the vote,
  which in this code is a node and a value (the proposal number of the vote is not kept).
  Node 0 (\<open>NODE_DUMMY\<close>) cannot vote.
\<close>

datatype abstract_request = Prepare ballot | Vote ballot LogValue | Unrelated

record abstract_acceptor =
  aa_promised :: ballot
  aa_vote :: "(node_id_t \<times> LogValue) option"

fun abstract_step :: "abstract_request \<Rightarrow> abstract_acceptor \<Rightarrow> abstract_acceptor" where
  "abstract_step (Prepare b) a = (if aa_promised a < b then a\<lparr> aa_promised := b \<rparr> else a)"
| "abstract_step (Vote b v) a =
     (if aa_promised a < b
      then \<lparr> aa_promised = b, aa_vote = (if bal_node b = 0 then None else Some (bal_node b, v)) \<rparr>
      else a)"
| "abstract_step Unrelated a = a"

definition abstract_of :: "AcceptorState \<Rightarrow> abstract_acceptor" where
  "abstract_of s = \<lparr> aa_promised = promised s,
     aa_vote = (if as_accepted_proposer s = 0 then None
                else Some (as_accepted_proposer s, as_accepted_value s)) \<rparr>"

definition request_of :: "PaxMessage \<Rightarrow> abstract_request" where
  "request_of m = (case pm_messageType m of
       kMSG_PROPOSE_BROADCAST \<Rightarrow> Prepare (msg_ballot m)
     | kMSG_ACCEPT_BROADCAST \<Rightarrow> Vote (msg_ballot m) (pm_proposedLogValue m)
     | _ \<Rightarrow> Unrelated)"

lemma acceptor_step_refines:
  "abstract_of (acceptor_step m s) = abstract_step (request_of m) (abstract_of s)"
  by (cases "pm_messageType m")
    (simp_all add: acceptor_step_def approves_iff is_request_def request_of_def abstract_of_def
      voted_def promised_def msg_ballot_def)

text \<open>The invariant of the two accepted fields.\<close>

definition acc_inv :: "AcceptorState \<Rightarrow> bool" where
  "acc_inv s \<longleftrightarrow> as_accepted_proposal_id s = as_accepted_proposer s"

lemma acc_inv_new: "acc_inv new_AcceptorState"
  by (simp add: acc_inv_def new_AcceptorState_def)

lemma acc_inv_step: "acc_inv s \<Longrightarrow> acc_inv (acceptor_step m s)"
  by (simp add: acc_inv_def acceptor_step_def voted_def)

lemma acc_inv_Reset: "acc_inv (AcceptorState_Reset s)"
  by (simp add: acc_inv_def AcceptorState_Reset_def)

lemma acc_inv_Init: "acc_inv (AcceptorState_Init e s)"
  by (simp add: acc_inv_def AcceptorState_Init_def acceptor_state_defs)

lemma acc_inv_run: "acc_inv s \<Longrightarrow> acc_inv (voter.run ms s)"
  unfolding voter.run_def by (rule fold_invariant) (simp_all add: acc_inv_step)

subsection \<open>Persistence and restart\<close>

lemma WriteState_stored:
  assumes "log_storage (ls_Put (env_storage env)) (ls_Get (env_storage env)) valid good view"
    and "codec_roundtrip env" and "good (w_store w)" and "valid (to_string (le_instance_id e))"
    and "fst (ls_Put (env_storage env) (to_string (le_instance_id e)) (env_serialize env e)
          (w_store w))"
  shows "fst (ReadState env (le_instance_id e) (WriteState env e w)) = e"
proof -
  have "WriteLog env e (w_store w) = (1, snd (WriteLog env e (w_store w)))"
    using assms(5)
    by (cases "ls_Put (env_storage env) (to_string (le_instance_id e)) (env_serialize env e)
          (w_store w)") (simp add: WriteLog_def)
  from ReadLog_WriteLog(2) [OF assms(1-4) this] show ?thesis
    by (auto simp: ReadState_def split: prod.splits)
qed

lemma SendMessage_store [simp]: "w_store (ReplyProposer env r t w) = w_store w"
  by (simp add: ReplyProposer_def Let_def)

lemma ReplyProposer_trace [simp]:
  "\<exists>r. w_trace (ReplyProposer env reply t w) = w_trace w @ [SentTo (ar_proposer_id reply) r]
     \<and> pm_rejected r = ar_is_rejected reply \<and> pm_messageType r = t"
  by (auto simp: ReplyProposer_def Let_def)

lemma le_instance_id_promise_entry [simp]: "le_instance_id (promise_entry n p i s) = i"
  by (simp add: promise_entry_def Let_def)

lemma promise_entry_promise [simp]:
  "le_promised_proposal_id (promise_entry n p i s) = p"
  "le_promised_node_id (promise_entry n p i s) = n"
  by (simp_all add: promise_entry_def new_PaxosLogEntry_def Let_def)

lemma ReadState_missing:
  assumes "log_storage (ls_Put (env_storage env)) (ls_Get (env_storage env)) valid good view"
    and "good (w_store w)" and "valid (to_string i)" and "view (w_store w) (to_string i) = None"
  shows "fst (ReadState env i w) = new_PaxosLogEntry"
  using log_storage.fst_get [OF assms(1-3)] assms(4)
  by (auto simp: ReadState_def ReadLog_def split: prod.splits option.splits)

lemma AcceptorState_Init_new: "AcceptorState_Init new_PaxosLogEntry new_AcceptorState = new_AcceptorState"
  by (simp add: AcceptorState_Init_def acceptor_state_defs new_PaxosLogEntry_def new_AcceptorState_def)

text \<open>The keys that a run in instance \<open>i\<close> can touch in a direct memory.\<close>

lemma WriteState_mem:
  assumes "env_storage env = DirectMemory"
  shows "w_store (WriteState env e w) =
    (w_store w)(to_string (le_instance_id e) \<mapsto> env_serialize env e)"
  using assms by (simp add: WriteLog_def DirectMemory_def DirectMemory_Put_def SafeMap_assign_def)

lemma acceptor_run_mem:
  assumes "env_storage env = DirectMemory" and "k \<noteq> to_string i"
  shows "w_store (snd (acceptor_run env i ms sw)) k = w_store (snd sw) k"
proof (induction ms arbitrary: sw)
  case Nil
  then show ?case by (simp add: acceptor_run_def)
next
  case (Cons m ms)
  obtain s w where sw: "sw = (s, w)" by force
  have "w_store (snd (Acceptor_HandleMessage env i m (s, w))) k = w_store w k"
    using assms by (simp add: HandleMessage_world WriteState_mem del: World_effects)
  with Cons [of "Acceptor_HandleMessage env i m sw"] show ?case
    by (simp add: acceptor_run_def sw)
qed

subsection \<open>Properties\<close>

text \<open>
  C1. In any sequence of messages handled in one instance, from any state, the ballots the
  acceptor approves (promises or votes) increase strictly in the order in which they are
  handled, and its promise at the end is the last approved ballot (the initial promise when
  none is): it never goes back.
\<close>

theorem acceptor_promises_increase:
  "sorted_wrt (<) (map msg_ballot (voter.approvals ms s)) \<and>
   promised (fst (acceptor_run env i ms (s, w))) =
     (if voter.approvals ms s = [] then promised s else msg_ballot (last (voter.approvals ms s)))"
  by (simp add: acceptor_run_state voter.approvals_sorted voter.rank_run_approvals)

text \<open>
  C4. Every request is answered exactly once, to the node it names as proposer; the reply is
  a rejection exactly when the request is not approved; and an approval first writes, in the
  log of the instance, an entry that carries the ballot of the request as its promise, before
  the reply is sent.
\<close>

theorem acceptor_persists_then_replies:
  assumes "is_request m"
  shows "\<exists>r. w_trace (snd (Acceptor_HandleMessage env i m (s, w))) =
       w_trace w @
       (if approves m s
        then [Wrote (promise_entry (pm_proposingNodeId m) (pm_proposalId m) i (voted m s))] else [])
       @ [SentTo (pm_proposingNodeId m) r]
     \<and> (pm_rejected r \<longleftrightarrow> \<not> approves m s)
     \<and> le_instance_id (promise_entry (pm_proposingNodeId m) (pm_proposalId m) i (voted m s)) = i
     \<and> Ballot (le_promised_proposal_id (promise_entry (pm_proposingNodeId m) (pm_proposalId m) i (voted m s)))
         (le_promised_node_id (promise_entry (pm_proposingNodeId m) (pm_proposalId m) i (voted m s)))
       = msg_ballot m"
  using assms by (auto simp: HandleMessage_world msg_ballot_def ReplyProposer_def
      new_PaxAcceptorReplyMessage_def Let_def)

definition sample_accept :: PaxMessage where
  "sample_accept = (new_PaxMessage 3 kMSG_ACCEPT_BROADCAST)\<lparr> pm_proposalId := 5,
     pm_proposingNodeId := 3, pm_proposedLogValue := ''v'' \<rparr>"

definition sample_propose :: PaxMessage where
  "sample_propose = (new_PaxMessage 3 kMSG_PROPOSE_BROADCAST)\<lparr> pm_proposalId := 5,
     pm_proposingNodeId := 3 \<rparr>"

lemma sample_facts [simp]:
  "is_request sample_accept" "is_request sample_propose"
  "msg_ballot sample_accept = Ballot 5 3" "msg_ballot sample_propose = Ballot 5 3"
  "pm_proposalId sample_propose = 5" "pm_proposingNodeId sample_propose = 3"
  "pm_proposalId sample_accept = 5" "pm_proposingNodeId sample_accept = 3"
  "promised new_AcceptorState = Ballot 0 0"
  by (simp_all add: is_request_def sample_accept_def sample_propose_def msg_ballot_def
      promised_def new_AcceptorState_def)

lemma acceptor_persists_then_replies_witness:
  "\<exists>r. w_trace (snd (Acceptor_HandleMessage sample_env 7 sample_accept (new_AcceptorState, sample_world))) =
       [Wrote (promise_entry 3 5 7 (voted sample_accept new_AcceptorState)), SentTo 3 r]
     \<and> \<not> pm_rejected r"
  using acceptor_persists_then_replies [of sample_accept sample_env 7 new_AcceptorState sample_world]
  by (auto simp: approves_iff)

text \<open>
  C7. Once a ballot has been approved in an instance, the acceptor refuses every later request
  with that ballot or a lower one, whatever it handled in between: its state does not change
  and the reply, the last action, is a rejection. Since a promise is an approval, an accept
  request with the very ballot the acceptor promised is refused.
\<close>

theorem approved_ballot_never_again:
  fixes env :: "'st Env" and w :: "'st World" and ms :: "PaxMessage list" and i :: instance_id_t
  assumes "approves m s" and "is_request k" and "msg_ballot k \<le> msg_ballot m"
  defines "sw \<equiv> acceptor_run env i (m # ms) (s, w)"
  shows "fst (Acceptor_HandleMessage env i k sw) = fst sw
    \<and> (\<exists>r. w_trace (snd (Acceptor_HandleMessage env i k sw)) =
          w_trace (snd sw) @ [SentTo (pm_proposingNodeId k) r] \<and> pm_rejected r)"
proof -
  obtain s' w' where sw: "sw = (s', w')" by force
  have s': "s' = voter.run ms (acceptor_step m s)"
    using acceptor_run_state [of env i "m # ms" "(s, w)"] sw by (simp add: sw_def voter.run_def)
  have "\<not> promised (acceptor_step m s) < msg_ballot k"
    using assms(1,3) voter.rank_approve by simp
  then have na: "\<not> approves k s'" unfolding s' by (rule voter.stale_refused)
  have "acceptor_step k s' = s'" using voter.refuse_same [OF na] .
  then show ?thesis
    using assms(2) na
    by (auto simp: sw HandleMessage_state HandleMessage_world ReplyProposer_def Let_def)
qed

lemma approved_ballot_never_again_witness:
  "fst (Acceptor_HandleMessage sample_env 7 sample_accept
      (acceptor_run sample_env 7 [sample_propose] (new_AcceptorState, sample_world)))
   = fst (acceptor_run sample_env 7 [sample_propose] (new_AcceptorState, sample_world))"
  using approved_ballot_never_again [of sample_propose new_AcceptorState sample_accept sample_env 7
      "[]" sample_world]
  by (simp add: approves_iff)

text \<open>
  C2. The acceptor implements the abstract acceptor: each handled message changes promise and
  vote exactly as the abstract step for that request does, over any sequence of messages.
\<close>

theorem acceptor_refines_abstract:
  "abstract_of (fst (acceptor_run env i ms (s, w))) =
     fold abstract_step (map request_of ms) (abstract_of s)"
proof -
  have "abstract_of (voter.run ms s) = fold abstract_step (map request_of ms) (abstract_of s)"
  proof (induction ms arbitrary: s)
    case Nil
    then show ?case by (simp add: voter.run_def)
  next
    case (Cons m ms)
    from Cons [of "acceptor_step m s"] show ?case
      by (simp add: voter.run_def acceptor_step_refines)
  qed
  then show ?thesis by (simp add: acceptor_run_state)
qed

text \<open>
  The accepted proposal id is always the accepting proposer's node id: the proposal number
  of a vote is lost at once. This holds in every state that the constructor, recovery, a reset
  and any sequence of messages can produce.
\<close>

theorem accepted_id_is_node_id:
  "as_accepted_proposal_id (fst (acceptor_run env i ms (new_AcceptorState, w))) =
     as_accepted_proposer (fst (acceptor_run env i ms (new_AcceptorState, w)))
   \<and> as_accepted_proposal_id (fst (acceptor_run env i ms (AcceptorState_Init e s, w))) =
     as_accepted_proposer (fst (acceptor_run env i ms (AcceptorState_Init e s, w)))
   \<and> as_accepted_proposal_id (fst (acceptor_run env i ms (Acceptor_NewInstance s, w))) =
     as_accepted_proposer (fst (acceptor_run env i ms (Acceptor_NewInstance s, w)))"
  using acc_inv_run [OF acc_inv_new, of ms] acc_inv_run [OF acc_inv_Init, of ms e s]
    acc_inv_run [OF acc_inv_Reset, of ms s]
  by (simp add: acceptor_run_state Acceptor_NewInstance_def acc_inv_def)

text \<open>
  C14. With a storage that keeps its contract and takes the write, an approved request can be
  read back: the entry of the instance holds the promised ballot and, when the acceptor has
  voted, its vote, as the state after the request has them (except that the accepted node of
  the entry is the requesting proposer).
\<close>

theorem approval_is_durable:
  fixes env :: "'st Env" and w :: "'st World" and s :: AcceptorState and m :: PaxMessage
    and i :: instance_id_t
  assumes "log_storage (ls_Put (env_storage env)) (ls_Get (env_storage env)) valid good view"
    and "codec_roundtrip env" and "good (w_store w)" and "valid (to_string i)"
    and "\<forall>v. fst (ls_Put (env_storage env) (to_string i) v (w_store w))"
    and "approves m s"
  defines "sw \<equiv> Acceptor_HandleMessage env i m (s, w)"
  shows "le_promised_proposal_id (fst (ReadState env i (snd sw))) = as_promised_proposal_id (fst sw)
    \<and> le_promised_node_id (fst (ReadState env i (snd sw))) = as_promised_node_id (fst sw)
    \<and> le_accepted_proposal_id (fst (ReadState env i (snd sw))) = as_accepted_proposal_id (fst sw)
    \<and> (as_accepted_proposal_id (fst sw) \<noteq> 0 \<longrightarrow>
        le_accepted_value (fst (ReadState env i (snd sw))) = as_accepted_value (fst sw)
        \<and> le_accepted_node_id (fst (ReadState env i (snd sw))) = pm_proposingNodeId m)"
proof -
  define e where "e = promise_entry (pm_proposingNodeId m) (pm_proposalId m) i (voted m s)"
  have i: "le_instance_id e = i" by (simp add: e_def)
  have "fst (ReadState env i (WriteState env e w)) = e"
    using WriteState_stored [OF assms(1-3), of e] assms(4,5) by (simp add: i)
  moreover have "fst (ReadState env i (snd sw)) = fst (ReadState env i (WriteState env e w))"
    using assms(6) by (simp add: sw_def HandleMessage_world e_def approves_iff ReadState_def
        split: prod.splits)
  moreover have "fst sw = voted m s" using assms(6) by (simp add: sw_def HandleMessage_state acceptor_step_def)
  ultimately show ?thesis
    by (simp add: e_def promise_entry_def new_PaxosLogEntry_def voted_def Let_def)
qed

lemma approval_is_durable_witness:
  "le_promised_proposal_id (fst (ReadState sample_env 7
     (snd (Acceptor_HandleMessage sample_env 7 sample_accept (new_AcceptorState, sample_world))))) = 5"
  using approval_is_durable [of sample_env "\<lambda>k. True" "\<lambda>db. True" "\<lambda>db. db" sample_world 7
      sample_accept new_AcceptorState]
  by (simp add: approves_iff HandleMessage_state acceptor_step_def voted_def)



end
