(* ===== verification/Safe_Queue.thy ===== *)
theory Safe_Queue
  imports Pax_Prelude
begin

section \<open>The bounded queue (util/include/queue.hpp)\<close>

text \<open>
  \<open>SafeQueue\<close>: a \<open>std::queue\<close> behind a mutex, with a limit. Each operation holds the
  mutex for its whole body, so one call is one atomic step. \<open>Take\<close> waits for an element for
  a bounded time: its result is that of the queue at the end of the wait, so it is modelled on
  the queue it then sees. Popping and reading the front of an empty \<open>std::queue\<close> are faults.

  The locale \<open>bounded_fifo\<close> is the contract that the users of the queue rely on, the
  interpretation at the end discharges it for the code.
\<close>

record 'a SafeQueue =
  sq_queue :: "'a list"
  sq_limit :: u64

definition new_SafeQueue :: "u64 \<Rightarrow> 'a SafeQueue" where
  "new_SafeQueue limit = \<lparr> sq_queue = [], sq_limit = limit \<rparr>"

definition TryAdd :: "'a \<Rightarrow> 'a SafeQueue \<Rightarrow> bool \<times> 'a SafeQueue" where
  "TryAdd t q =
     (if length (sq_queue q) < unat (sq_limit q)
      then (True, q\<lparr> sq_queue := sq_queue q @ [t] \<rparr>)
      else (False, q))"

definition Take :: "'a SafeQueue \<Rightarrow> 'a option \<times> 'a SafeQueue" where
  "Take q = (case sq_queue q of
       [] \<Rightarrow> (None, q)
     | t # ts \<Rightarrow> (Some t, q\<lparr> sq_queue := ts \<rparr>))"

text \<open>\<open>while (i++ < t) queue_.pop();\<close>\<close>

fun pop_loop :: "nat \<Rightarrow> 'a list \<Rightarrow> 'a list res" where
  "pop_loop 0 xs = Inr xs"
| "pop_loop (Suc n) [] = Inl EmptyAccess"
| "pop_loop (Suc n) (x # xs) = pop_loop n xs"

definition PopN :: "u64 \<Rightarrow> 'a SafeQueue \<Rightarrow> 'a SafeQueue res" where
  "PopN t q = bind_res (pop_loop (unat t) (sq_queue q)) (\<lambda>xs. Inr (q\<lparr> sq_queue := xs \<rparr>))"

definition Size :: "'a SafeQueue \<Rightarrow> nat" where
  "Size q = length (sq_queue q)"

definition Empty :: "'a SafeQueue \<Rightarrow> bool" where
  "Empty q = (sq_queue q = [])"

definition Front :: "'a SafeQueue \<Rightarrow> 'a res" where
  "Front q = (case sq_queue q of [] \<Rightarrow> Inl EmptyAccess | t # _ \<Rightarrow> Inr t)"

lemmas SafeQueue_defs = TryAdd_def Take_def PopN_def Size_def Empty_def Front_def new_SafeQueue_def

lemma pop_loop_drop: "n \<le> length xs \<Longrightarrow> pop_loop n xs = Inr (drop n xs)"
  by (induction n xs rule: pop_loop.induct) auto

lemma pop_loop_fault: "length xs < n \<Longrightarrow> pop_loop n xs = Inl EmptyAccess"
  by (induction n xs rule: pop_loop.induct) auto

subsection \<open>The contract\<close>

locale bounded_fifo =
  fixes add :: "'a \<Rightarrow> 'q \<Rightarrow> bool \<times> 'q"
    and take_one :: "'q \<Rightarrow> 'a option \<times> 'q"
    and contents :: "'q \<Rightarrow> 'a list"
    and bound :: "'q \<Rightarrow> nat"
  assumes add_room: "length (contents q) < bound q \<Longrightarrow>
      fst (add x q) \<and> contents (snd (add x q)) = contents q @ [x]"
    and add_full: "bound q \<le> length (contents q) \<Longrightarrow> add x q = (False, q)"
    and add_bound: "bound (snd (add x q)) = bound q"
    and take_none: "contents q = [] \<Longrightarrow> take_one q = (None, q)"
    and take_some: "contents q = x # xs \<Longrightarrow>
      fst (take_one q) = Some x \<and> contents (snd (take_one q)) = xs"
    and take_bound: "bound (snd (take_one q)) = bound q"
begin

definition in_bound :: "'q \<Rightarrow> bool" where
  "in_bound q \<longleftrightarrow> length (contents q) \<le> bound q"

lemma in_bound_add: "in_bound q \<Longrightarrow> in_bound (snd (add x q))"
  using add_room [of q x] add_full [of q x] add_bound [of x q]
  by (cases "length (contents q) < bound q") (auto simp: in_bound_def)

lemma in_bound_take: "in_bound q \<Longrightarrow> in_bound (snd (take_one q))"
  using take_bound [of q] take_none [of q] take_some [of q]
  by (cases "contents q") (auto simp: in_bound_def)

text \<open>Adding a list of elements one by one; the ones refused are dropped.\<close>

fun add_all :: "'a list \<Rightarrow> 'q \<Rightarrow> 'q" where
  "add_all [] q = q"
| "add_all (x # xs) q = add_all xs (snd (add x q))"

fun take_n :: "nat \<Rightarrow> 'q \<Rightarrow> 'a list \<times> 'q" where
  "take_n 0 q = ([], q)"
| "take_n (Suc n) q = (case take_one q of
       (None, q') \<Rightarrow> ([], q')
     | (Some x, q') \<Rightarrow> (let (xs, q'') = take_n n q' in (x # xs, q'')))"

lemma contents_add_all:
  "length (contents q) + length xs \<le> bound q \<Longrightarrow> contents (add_all xs q) = contents q @ xs"
proof (induction xs arbitrary: q)
  case Nil
  then show ?case by simp
next
  case (Cons x xs)
  then have "fst (add x q) \<and> contents (snd (add x q)) = contents q @ [x]"
    by (intro add_room) simp
  with Cons.prems Cons.IH [of "snd (add x q)"] show ?case
    by (simp add: add_bound)
qed

lemma take_n_contents:
  "n \<le> length (contents q) \<Longrightarrow>
     fst (take_n n q) = take n (contents q) \<and> contents (snd (take_n n q)) = drop n (contents q)"
proof (induction n arbitrary: q)
  case 0
  then show ?case by simp
next
  case (Suc n)
  then obtain x xs where q: "contents q = x # xs" by (cases "contents q") auto
  obtain q' where t: "take_one q = (Some x, q')" and q': "contents q' = xs"
    using take_some [OF q] by (cases "take_one q") auto
  show ?case using Suc.IH [of q'] Suc.prems q q' t by (auto split: prod.splits)
qed

text \<open>First in, first out: what is added to an empty queue within its bound comes out in order.\<close>

lemma fifo_order:
  assumes "contents q = []" and "length xs \<le> bound q"
  shows "fst (take_n (length xs) (add_all xs q)) = xs"
    and "contents (snd (take_n (length xs) (add_all xs q))) = []"
proof -
  have c: "contents (add_all xs q) = xs" using assms contents_add_all [of q xs] by simp
  show "fst (take_n (length xs) (add_all xs q)) = xs"
    and "contents (snd (take_n (length xs) (add_all xs q))) = []"
    using take_n_contents [of "length xs" "add_all xs q"] c by simp_all
qed

end

interpretation sq: bounded_fifo TryAdd Take sq_queue "\<lambda>q. unat (sq_limit q)"
  by unfold_locales (auto simp: SafeQueue_defs split: list.split)

subsection \<open>Properties\<close>

text \<open>
  The queue is first in, first out: elements added to an empty queue, up to its limit, are
  taken out in the order in which they were added, and leave it empty; an addition beyond the
  limit is refused and changes nothing.
\<close>

theorem SafeQueue_fifo:
  assumes "sq_queue q = []" and "length xs \<le> unat (sq_limit q)"
  shows "fst (sq.take_n (length xs) (sq.add_all xs q)) = xs
    \<and> sq_queue (snd (sq.take_n (length xs) (sq.add_all xs q))) = []
    \<and> (length xs = unat (sq_limit q) \<longrightarrow>
         TryAdd y (sq.add_all xs q) = (False, sq.add_all xs q))"
proof -
  have "sq_queue (sq.add_all xs q) = xs" using assms sq.contents_add_all [of q xs] by simp
  moreover have "sq_limit (sq.add_all xs q) = sq_limit q"
    by (induction xs arbitrary: q) (simp_all add: TryAdd_def)
  ultimately show ?thesis using sq.fifo_order [OF assms] by (simp add: TryAdd_def)
qed

lemma SafeQueue_fifo_witness:
  "fst (sq.take_n (length [7, 8 :: nat]) (sq.add_all [7, 8] (new_SafeQueue 2)))
     = [7, 8 :: nat]"
  using SafeQueue_fifo [of "new_SafeQueue 2" "[7, 8 :: nat]"]
  by (simp add: new_SafeQueue_def del: sq.take_n.simps sq.add_all.simps)

end
