(* ===== verification/Pax_ProposalProv.thy ===== *)
theory Pax_ProposalProv
  imports Pax_Messages Safe_Queue
begin

section \<open>Submitted values (core/proposal_prov.cpp, core/include/proposal_prov.hpp)\<close>

text \<open>
  \<open>ProposalProv\<close> takes values from clients and hands them to the proposer. Each operation
  runs under \<open>lock_\<close>, so it is one step; \<open>SubmitAndWait\<close> releases the lock while it
  waits and is two steps, before and after the wait. The objects that \<open>Flush\<close> and
  \<open>WriteResult\<close> get from \<open>queue_.Front()\<close> are copies, which the definitions keep: an
  update of the copy is a local binding. The step relation \<open>prov_step\<close> interleaves the
  calls of any number of clients and of the proposer.
\<close>

datatype NewValueResult =
    kValueNone | kValueTimeout | kValueAccepted | kVALUE_ACCEPTED_WIN | kVALUE_ACCEPTED_LOSE
  | kTOO_MANY_VALUES

record PendingNewValue =
  pv_logValue :: LogValue
  pv_index :: index_t
  pv_newValueResult :: NewValueResult
  pv_instanceId :: instance_id_t

record ProposalProv =
  pp_timeout_ms :: millisec
  pp_index :: index_t
  pp_finish_index :: index_t
  pp_queue :: "PendingNewValue SafeQueue"

text \<open>
  Before the wait: the result if the call returns at once, otherwise the index it waits for
  and the message that it adds to the controller's queue.
\<close>

definition SubmitAndWait_begin ::
  "LogValue \<Rightarrow> ProposalProv \<Rightarrow> (NewValueResult + index_t \<times> PaxMessage) \<times> ProposalProv" where
  "SubmitAndWait_begin v p =
     (let i = pp_index p;
          p1 = p\<lparr> pp_index := i + 1 \<rparr>;
          pendingNewValue = \<lparr> pv_logValue = v, pv_index = i, pv_newValueResult = kValueNone,
                              pv_instanceId = 0 \<rparr>;
          (added, q) = TryAdd pendingNewValue (pp_queue p1);
          p2 = p1\<lparr> pp_queue := q \<rparr>
      in if \<not> added then (Inl kTOO_MANY_VALUES, p2)
         else (Inr (i, new_PaxMessage 0 kPLACEHOLDER_NEW_VALUE_COMMITTED), p2))"

definition wait_over :: "index_t \<Rightarrow> ProposalProv \<Rightarrow> bool" where
  "wait_over i p \<longleftrightarrow> pp_finish_index p = i"

text \<open>After the wait.\<close>

definition SubmitAndWait_end :: "ProposalProv \<Rightarrow> (NewValueResult \<times> ProposalProv) res" where
  "SubmitAndWait_end p =
     bind_res (Front (pp_queue p)) (\<lambda>front.
       (let r = pv_newValueResult front in
        bind_res (PopN 1 (pp_queue p)) (\<lambda>q. Inr (r, p\<lparr> pp_queue := q \<rparr>))))"

text \<open>The value handed out, if any, and the state afterwards.\<close>

definition Flush :: "instance_id_t \<Rightarrow> ProposalProv \<Rightarrow> (LogValue option \<times> ProposalProv) res" where
  "Flush instance_id p =
     (if Empty (pp_queue p) then Inr (None, p)
      else bind_res (Front (pp_queue p)) (\<lambda>pendingNewValue.
        if pv_instanceId pendingNewValue \<noteq> 0 then Inr (None, p)
        else (let log_value = pv_logValue pendingNewValue;
                  pendingNewValue = pendingNewValue\<lparr> pv_instanceId := instance_id \<rparr>
              in Inr (Some log_value, p))))"

definition WriteResult ::
  "LogValue \<Rightarrow> instance_id_t \<Rightarrow> NewValueResult \<Rightarrow> ProposalProv \<Rightarrow> (bool \<times> ProposalProv) res" where
  "WriteResult log_value instance_id result p =
     (if Empty (pp_queue p) then Inr (False, p)
      else bind_res (Front (pp_queue p)) (\<lambda>pendingNewValue.
        if pv_instanceId pendingNewValue = 0 then Inr (False, p)
        else (let pendingNewValue = pendingNewValue\<lparr> pv_newValueResult :=
                    (if result \<noteq> kValueAccepted then result
                     else if pv_logValue pendingNewValue = log_value then kVALUE_ACCEPTED_WIN
                     else kVALUE_ACCEPTED_LOSE) \<rparr>
              in Inr (True, p\<lparr> pp_finish_index := pv_index pendingNewValue \<rparr>))))"

definition GetNewValueTimeout :: "ProposalProv \<Rightarrow> millisec" where
  "GetNewValueTimeout p = pp_timeout_ms p"

lemmas prov_defs = SubmitAndWait_begin_def SubmitAndWait_end_def Flush_def WriteResult_def
  GetNewValueTimeout_def wait_over_def SafeQueue_defs Let_def

subsection \<open>Facts about single operations\<close>

lemma Flush_state: "\<exists>r. Flush i p = Inr (r, p)"
  by (auto simp: prov_defs split: list.splits)

lemma Flush_same: "Flush i p = Inr (r, p') \<Longrightarrow> p' = p"
  using Flush_state [of i p] by auto

lemma WriteResult_total: "\<exists>b p'. WriteResult v i r p = Inr (b, p')"
  by (auto simp: prov_defs split: list.splits)

definition fresh_entries :: "ProposalProv \<Rightarrow> bool" where
  "fresh_entries p \<longleftrightarrow> (\<forall>v\<in>set (sq_queue (pp_queue p)). pv_instanceId v = 0 \<and> pv_newValueResult v = kValueNone)"

lemma WriteResult_fresh: "fresh_entries p \<Longrightarrow> WriteResult v i r p = Inr (False, p)"
  by (auto simp: prov_defs fresh_entries_def split: list.splits)

lemma Flush_front:
  "fresh_entries p \<Longrightarrow> Flush i p = Inr (map_option pv_logValue (case sq_queue (pp_queue p) of
      [] \<Rightarrow> None | v # _ \<Rightarrow> Some v), p)"
  by (auto simp: prov_defs fresh_entries_def split: list.splits)

subsection \<open>Clients and proposer interleaved\<close>

text \<open>The state and the indices of the clients that wait.\<close>

inductive prov_step :: "ProposalProv \<times> index_t list \<Rightarrow> ProposalProv \<times> index_t list \<Rightarrow> bool" where
  submitted: "SubmitAndWait_begin v p = (Inr (i, m), p') \<Longrightarrow> prov_step (p, ws) (p', i # ws)"
| refused: "SubmitAndWait_begin v p = (Inl r, p') \<Longrightarrow> prov_step (p, ws) (p', ws)"
| flushed: "Flush i p = Inr (r, p') \<Longrightarrow> prov_step (p, ws) (p', ws)"
| written: "WriteResult v i r p = Inr (b, p') \<Longrightarrow> prov_step (p, ws) (p', ws)"
| returned: "i \<in> set ws \<Longrightarrow> wait_over i p \<Longrightarrow> SubmitAndWait_end p = Inr (r, p') \<Longrightarrow>
    prov_step (p, ws) (p', remove1 i ws)"

inductive_cases prov_stepE: "prov_step (p, ws) (p', ws')"

abbreviation prov_steps :: "ProposalProv \<times> index_t list \<Rightarrow> ProposalProv \<times> index_t list \<Rightarrow> bool" where
  "prov_steps \<equiv> prov_step\<^sup>*\<^sup>*"

lemma SubmitAndWait_begin_fresh:
  "SubmitAndWait_begin v p = (r, p') \<Longrightarrow> fresh_entries p \<Longrightarrow>
     fresh_entries p' \<and> pp_finish_index p' = pp_finish_index p"
  by (auto simp: prov_defs fresh_entries_def split: if_splits)

lemma SubmitAndWait_end_fresh:
  "SubmitAndWait_end p = Inr (r, p') \<Longrightarrow> fresh_entries p \<Longrightarrow>
     fresh_entries p' \<and> pp_finish_index p' = pp_finish_index p \<and> r = kValueNone"
  by (auto simp: prov_defs fresh_entries_def bind_res_eq_Inr split: list.splits)

lemma prov_step_fresh:
  assumes "prov_step (p, ws) (p', ws')" and "fresh_entries p"
  shows "fresh_entries p' \<and> pp_finish_index p' = pp_finish_index p
    \<and> (\<forall>i\<in>set ws. i \<noteq> pp_finish_index p \<longrightarrow> i \<in> set ws')"
  using assms(1)
proof (rule prov_stepE)
  fix v i m assume "SubmitAndWait_begin v p = (Inr (i, m), p')" "ws' = i # ws"
  then show ?thesis using SubmitAndWait_begin_fresh assms(2) by fastforce
next
  fix v r assume "SubmitAndWait_begin v p = (Inl r, p')" "ws' = ws"
  then show ?thesis using SubmitAndWait_begin_fresh assms(2) by fastforce
next
  fix i r assume "Flush i p = Inr (r, p')" "ws' = ws"
  then show ?thesis using Flush_same assms(2) by blast
next
  fix v i r b assume "WriteResult v i r p = Inr (b, p')" "ws' = ws"
  then show ?thesis using WriteResult_fresh [OF assms(2)] assms(2) by simp
next
  fix i r assume "SubmitAndWait_end p = Inr (r, p')" "ws' = remove1 i ws" "wait_over i p"
  then show ?thesis using SubmitAndWait_end_fresh [OF _ assms(2)] by (auto simp: wait_over_def)
qed

lemma prov_steps_fresh:
  assumes "prov_steps (p, ws) (p', ws')" and "fresh_entries p"
  shows "fresh_entries p' \<and> pp_finish_index p' = pp_finish_index p
    \<and> (\<forall>i\<in>set ws. i \<noteq> pp_finish_index p \<longrightarrow> i \<in> set ws')"
  using assms
proof (induction rule: rtranclp_induct2)
  case refl
  then show ?case by simp
next
  case (step p1 ws1 p2 ws2)
  with prov_step_fresh [of p1 ws1 p2 ws2] show ?case by auto
qed

subsection \<open>Properties\<close>


definition sample_prov :: ProposalProv where
  "sample_prov = \<lparr> pp_timeout_ms = 100, pp_index = 1, pp_finish_index = 0,
     pp_queue = new_SafeQueue 10 \<rparr>"


text \<open>
  \<open>Flush\<close> never fails and never marks a value as flushed: from a state of fresh entries it
  hands out the oldest pending value, and leaves the state as it is, so it hands out the same
  value again for the next instance.
\<close>

theorem Flush_repeats_front:
  "(\<exists>r. Flush i p = Inr (r, p)) \<and>
   (fresh_entries p \<longrightarrow> sq_queue (pp_queue p) = v # vs \<longrightarrow>
      Flush i p = Inr (Some (pv_logValue v), p) \<and> Flush (i + 1) p = Inr (Some (pv_logValue v), p))"
  using Flush_state by (simp add: Flush_front)

lemma Flush_repeats_front_witness:
  "Flush 4 (snd (SubmitAndWait_begin ''x'' sample_prov)) =
     Inr (Some ''x'', snd (SubmitAndWait_begin ''x'' sample_prov))"
  using Flush_repeats_front [of 4 "snd (SubmitAndWait_begin ''x'' sample_prov)"
      "\<lparr> pv_logValue = ''x'', pv_index = 1, pv_newValueResult = kValueNone, pv_instanceId = 0 \<rparr>" "[]"]
  by (simp add: sample_prov_def prov_defs fresh_entries_def)

end
