(* ===== verification/Pax_Proposer.thy ===== *)
theory Pax_Proposer
  imports Pax_Acceptor Pax_ProposalProv
begin

section \<open>The proposer (core/proposer_pax.cpp, proposer_state.cpp, proposal_counter.cpp)\<close>

text \<open>
  The state of a proposer is its status, the votes it counted, what it knows about other
  proposals and the pointer to the provider of new values, which is null in every object the
  program builds (nothing sets it), so it is an option. Handlers return a fault where they
  would dereference the null pointer. \<open>HandleAcceptAck\<close> ends by handing a message to the
  controller; the model returns that message and the controller goes on with it.

  The lemmas: what the bookkeeping computes (the highest known ballot is a maximum), what the
  counters hold, the behaviour of the handlers branch by branch, and an invariant over every
  sequence of operations.
\<close>

datatype ProposerStatus = ps_kNone | ps_kPropose | ps_kAccept | ps_kMajorityAccepted | ps_kMajorityRejected

subsection \<open>ProposerState\<close>

record ProposerState =
  prs_log_value :: LogValue
  prs_highest_known_proposal :: proposal_id_t
  prs_my_proposal_id :: proposal_id_t
  prs_highest_proposal_provider :: node_id_t

definition new_ProposerState :: ProposerState where
  "new_ProposerState = \<lparr> prs_log_value = [], prs_highest_known_proposal = PROPOSAL_DUMMY,
     prs_my_proposal_id = 1, prs_highest_proposal_provider = NODE_DUMMY \<rparr>"

definition TryUpdateHighestProposalId ::
  "proposal_id_t \<Rightarrow> node_id_t \<Rightarrow> ProposerState \<Rightarrow> bool \<times> ProposerState" where
  "TryUpdateHighestProposalId proposal_id node_id s =
     (if proposal_id < prs_highest_known_proposal s then (False, s)
      else if proposal_id > prs_highest_known_proposal s \<or> node_id > prs_highest_proposal_provider s
      then (True, s\<lparr> prs_highest_known_proposal := proposal_id,
                     prs_highest_proposal_provider := node_id \<rparr>)
      else (False, s))"

definition TryUpdateLogValue ::
  "proposal_id_t \<Rightarrow> node_id_t \<Rightarrow> LogValue \<Rightarrow> ProposerState \<Rightarrow> bool \<times> ProposerState" where
  "TryUpdateLogValue proposal_id node_id log_value s =
     (case TryUpdateHighestProposalId proposal_id node_id s of
        (True, s') \<Rightarrow> (True, s'\<lparr> prs_log_value := log_value \<rparr>)
      | (False, s') \<Rightarrow> (False, s'))"

definition SetLogValue :: "LogValue \<Rightarrow> ProposerState \<Rightarrow> ProposerState" where
  "SetLogValue v s = s\<lparr> prs_log_value := v \<rparr>"

definition NewProposalId :: "ProposerState \<Rightarrow> ProposerState" where
  "NewProposalId s = s\<lparr> prs_my_proposal_id :=
     (if prs_my_proposal_id s > prs_highest_known_proposal s then prs_my_proposal_id s
      else prs_highest_known_proposal s) + 1 \<rparr>"

definition ProposerState_Init :: "proposal_id_t \<Rightarrow> ProposerState \<Rightarrow> ProposerState" where
  "ProposerState_Init init_proposal_id s = s\<lparr> prs_my_proposal_id := init_proposal_id \<rparr>"

definition ProposerState_Reset :: "ProposerState \<Rightarrow> ProposerState" where
  "ProposerState_Reset s = s\<lparr> prs_highest_known_proposal := PROPOSAL_DUMMY,
     prs_highest_proposal_provider := NODE_DUMMY, prs_log_value := [] \<rparr>"

subsection \<open>ProposalCounter\<close>

text \<open>The number of votes is an \<open>int32_t\<close>, compared as a \<open>size_t\<close> after sign extension.\<close>

record ProposalCounter =
  pc_vote_count :: u32
  pc_approvals :: "node_id_t set"
  pc_promises :: "node_id_t set"
  pc_rejections :: "node_id_t set"

definition new_ProposalCounter :: ProposalCounter where
  "new_ProposalCounter = \<lparr> pc_vote_count = 0, pc_approvals = {}, pc_promises = {},
     pc_rejections = {} \<rparr>"

definition IsMajorityAccepted :: "PaxosOptions \<Rightarrow> ProposalCounter \<Rightarrow> bool" where
  "IsMajorityAccepted c k \<longleftrightarrow> card (pc_approvals k) \<ge> unat (GetMajorityCount c)"

definition IsMajorityPromised :: "PaxosOptions \<Rightarrow> ProposalCounter \<Rightarrow> bool" where
  "IsMajorityPromised c k \<longleftrightarrow> card (pc_promises k) \<ge> unat (GetMajorityCount c)"

definition IsMajorityRejected :: "PaxosOptions \<Rightarrow> ProposalCounter \<Rightarrow> bool" where
  "IsMajorityRejected c k \<longleftrightarrow> card (pc_rejections k) \<ge> unat (GetMajorityCount c)"

definition IsStillPending :: "PaxosOptions \<Rightarrow> ProposalCounter \<Rightarrow> bool" where
  "IsStillPending c k \<longleftrightarrow> (scast (pc_vote_count k) :: u64) \<ge> GetNodeCount c"

definition AddAccept :: "proposal_id_t \<Rightarrow> node_id_t \<Rightarrow> ProposalCounter \<Rightarrow> bool \<times> ProposalCounter" where
  "AddAccept proposal_id node_id k =
     (if node_id \<in> pc_approvals k then (False, k)
      else (True, k\<lparr> pc_approvals := insert node_id (pc_approvals k),
                     pc_vote_count := pc_vote_count k + 1 \<rparr>))"

definition AddRejection :: "proposal_id_t \<Rightarrow> node_id_t \<Rightarrow> ProposalCounter \<Rightarrow> bool \<times> ProposalCounter" where
  "AddRejection proposal_id node_id k =
     (if node_id \<in> pc_rejections k then (False, k)
      else (True, k\<lparr> pc_rejections := insert node_id (pc_rejections k),
                     pc_vote_count := pc_vote_count k + 1 \<rparr>))"

definition AddPromise :: "proposal_id_t \<Rightarrow> node_id_t \<Rightarrow> ProposalCounter \<Rightarrow> bool \<times> ProposalCounter" where
  "AddPromise proposal_id node_id k =
     (if node_id \<in> pc_promises k then (False, k)
      else (True, k\<lparr> pc_promises := insert node_id (pc_promises k),
                     pc_vote_count := pc_vote_count k + 1 \<rparr>))"

definition Counter_Reset :: "ProposalCounter \<Rightarrow> ProposalCounter" where
  "Counter_Reset k = k\<lparr> pc_rejections := {}, pc_approvals := {}, pc_promises := {},
     pc_vote_count := 0 \<rparr>"

definition SomeoneReject :: "ProposalCounter \<Rightarrow> bool" where
  "SomeoneReject k \<longleftrightarrow> pc_rejections k \<noteq> {}"

subsection \<open>PaxProposer\<close>

record PaxProposer =
  pr_status :: ProposerStatus
  pr_counter :: ProposalCounter
  pr_state :: ProposerState
  pr_prov :: "ProposalProv option"

definition new_PaxProposer :: PaxProposer where
  "new_PaxProposer = \<lparr> pr_status = ps_kNone, pr_counter = new_ProposalCounter,
     pr_state = new_ProposerState, pr_prov = None \<rparr>"

definition PROPOSE_TIMEOUT :: millisec where "PROPOSE_TIMEOUT = 50"
definition ACCEPT_TIMEOUT :: millisec where "ACCEPT_TIMEOUT = 50"

text \<open>The second setter overwrites the node id; the proposal id is not set.\<close>

definition GenerateMessage ::
  "'st Env \<Rightarrow> instance_id_t \<Rightarrow> MessageType \<Rightarrow> proposal_id_t \<Rightarrow> PaxProposer \<Rightarrow> PaxMessage" where
  "GenerateMessage env instance_id message_type proposal_id p =
     (let message = new_PaxMessage (GetNodeId env) message_type;
          message = message\<lparr> pm_instanceId := instance_id \<rparr>;
          message = message\<lparr> pm_proposingNodeId := GetNodeId env \<rparr>;
          message = message\<lparr> pm_proposingNodeId := proposal_id \<rparr>
      in message\<lparr> pm_proposedLogValue := prs_log_value (pr_state p) \<rparr>)"

definition Propose ::
  "'st Env \<Rightarrow> instance_id_t \<Rightarrow> PaxProposer \<times> 'st World \<Rightarrow> PaxProposer \<times> 'st World" where
  "Propose env instance_id pw =
     (let (p, w) = pw;
          p = p\<lparr> pr_status := ps_kPropose \<rparr>;
          p = (if SomeoneReject (pr_counter p) then p\<lparr> pr_state := NewProposalId (pr_state p) \<rparr> else p);
          proposalId = prs_my_proposal_id (pr_state p);
          p = p\<lparr> pr_counter := Counter_Reset (pr_counter p) \<rparr>;
          pax_message = GenerateMessage env instance_id kMSG_PROPOSE_BROADCAST proposalId p;
          w = Publish kEVENT_PROPOSE_TIMEOUT (ProposeTimeoutHandler (pm_instanceId pax_message))
                PROPOSE_TIMEOUT w
      in (p, BroadCastMessage pax_message w))"

definition ProposeTimeoutCallback ::
  "'st Env \<Rightarrow> instance_id_t \<Rightarrow> instance_id_t \<Rightarrow> PaxProposer \<times> 'st World
     \<Rightarrow> PaxProposer \<times> 'st World" where
  "ProposeTimeoutCallback env instance_id instanceId pw =
     (if instanceId \<noteq> instance_id then pw else Propose env instance_id pw)"

definition NewValue ::
  "'st Env \<Rightarrow> instance_id_t \<Rightarrow> PaxProposer \<times> 'st World \<Rightarrow> (PaxProposer \<times> 'st World) res" where
  "NewValue env instance_id pw =
     (case pw of (p, w) \<Rightarrow>
      (case pr_prov p of
        None \<Rightarrow> Inl NullPointer
      | Some prov \<Rightarrow> bind_res (Flush instance_id prov) (\<lambda>(flushed, prov').
          (let p = p\<lparr> pr_prov := Some prov' \<rparr> in
           case flushed of
             None \<Rightarrow> Inr (p, w)
           | Some log_value \<Rightarrow>
               (let p = (if prs_log_value (pr_state p) = []
                         then p\<lparr> pr_state := SetLogValue log_value (pr_state p) \<rparr> else p);
                    w = Publish kEVENT_NEWVALUE_TIMEOUT NewValueTimeoutHandler
                          (GetNewValueTimeout prov') w
                in Inr (Propose env instance_id (p, w)))))))"

definition TryUpdateProposerStateWithPrepareReply ::
  "PaxMessage \<Rightarrow> PaxProposer \<Rightarrow> bool \<times> PaxProposer" where
  "TryUpdateProposerStateWithPrepareReply message p =
     (case TryUpdateLogValue (pm_proposalId message) (pm_proposingNodeId message)
             (pm_acceptedValue message) (pr_state p) of
        (b, s) \<Rightarrow> (b, p\<lparr> pr_state := s \<rparr>))"

definition HandleProposeAck ::
  "'st Env \<Rightarrow> instance_id_t \<Rightarrow> PaxMessage \<Rightarrow> PaxProposer \<times> 'st World \<Rightarrow> PaxProposer \<times> 'st World" where
  "HandleProposeAck env instance_id reply pw =
     (let (p, w) = pw in
      if pr_status p \<noteq> ps_kPropose then (p, w)
      else if pm_proposingNodeId reply \<noteq> GetNodeId env then (p, w)
      else if pm_proposalId reply \<noteq> prs_my_proposal_id (pr_state p) then (p, w)
      else
        let p = (if \<not> pm_rejected reply
                 then (let p = snd (TryUpdateProposerStateWithPrepareReply reply p)
                       in p\<lparr> pr_counter := snd (AddPromise (prs_my_proposal_id (pr_state p))
                               (GetNodeId env) (pr_counter p)) \<rparr>)
                 else (let p = p\<lparr> pr_state := snd (TryUpdateHighestProposalId
                                  (pm_promisedProposalId reply) (pm_promisedNodeId reply) (pr_state p)) \<rparr>
                       in p\<lparr> pr_counter := snd (AddRejection (prs_my_proposal_id (pr_state p))
                               (GetNodeId env) (pr_counter p)) \<rparr>))
        in if IsMajorityPromised (env_options env) (pr_counter p) then Propose env instance_id (p, w)
           else if IsMajorityRejected (env_options env) (pr_counter p)
                   \<or> \<not> IsStillPending (env_options env) (pr_counter p)
           then (p, Publish kEVENT_PROPOSE_TIMEOUT (ProposeTimeoutHandler (pm_instanceId reply))
                      PROPOSE_TIMEOUT w)
           else (p, w))"

text \<open>Nothing in the program calls \<open>Accept\<close>.\<close>

definition Accept ::
  "'st Env \<Rightarrow> instance_id_t \<Rightarrow> PaxProposer \<times> 'st World \<Rightarrow> PaxProposer \<times> 'st World" where
  "Accept env instance_id pw =
     (let (p, w) = pw;
          p = p\<lparr> pr_status := ps_kAccept \<rparr>;
          pax_message = GenerateMessage env instance_id kMSG_ACCEPT_BROADCAST
                          (prs_my_proposal_id (pr_state p)) p;
          p = p\<lparr> pr_counter := Counter_Reset (pr_counter p) \<rparr>;
          w = BroadCastMessage pax_message w;
          instanceId = pm_instanceId pax_message
      in (p, Publish kEVENT_ACCEPT_TIMEOUT (ProposeTimeoutHandler instanceId) ACCEPT_TIMEOUT w))"

text \<open>The third component is the message for \<open>ProcessChosenValue\<close>, the last thing it does.\<close>

definition HandleAcceptAck ::
  "'st Env \<Rightarrow> PaxMessage \<Rightarrow> PaxProposer \<times> 'st World \<Rightarrow> PaxProposer \<times> 'st World \<times> PaxMessage option" where
  "HandleAcceptAck env message pw =
     (let (p, w) = pw in
      if pr_status p \<noteq> ps_kAccept then (p, w, None)
      else if pm_proposingNodeId message \<noteq> GetNodeId env then (p, w, None)
      else if pm_proposalId message \<noteq> prs_my_proposal_id (pr_state p) then (p, w, None)
      else
        let p = (if \<not> pm_rejected message
                 then p\<lparr> pr_counter := snd (AddAccept (prs_my_proposal_id (pr_state p))
                           (GetNodeId env) (pr_counter p)) \<rparr>
                 else (let p = p\<lparr> pr_state := snd (TryUpdateHighestProposalId
                                  (pm_promisedProposalId message) (pm_promisedNodeId message)
                                  (pr_state p)) \<rparr>
                       in p\<lparr> pr_counter := snd (AddRejection (prs_my_proposal_id (pr_state p))
                               (GetNodeId env) (pr_counter p)) \<rparr>))
        in if IsMajorityAccepted (env_options env) (pr_counter p)
           then (p\<lparr> pr_status := ps_kMajorityAccepted \<rparr>, w,
                 Some ((new_PaxMessage (GetNodeId env) kMSG_VALUE_CHOSEN)\<lparr>
                   pm_instanceId := pm_instanceId message, pm_proposalId := pm_proposalId message \<rparr>))
           else if IsMajorityRejected (env_options env) (pr_counter p)
                   \<or> \<not> IsStillPending (env_options env) (pr_counter p)
           then (p, Publish kEVENT_ACCEPT_TIMEOUT (ProposeTimeoutHandler (pm_instanceId message))
                      ACCEPT_TIMEOUT w, None)
           else (p, w, None))"

definition Proposer_Init :: "proposal_id_t \<Rightarrow> PaxProposer \<Rightarrow> PaxProposer" where
  "Proposer_Init proposal_id p = p\<lparr> pr_state := ProposerState_Init proposal_id (pr_state p) \<rparr>"

definition Proposer_NewInstance :: "PaxProposer \<Rightarrow> PaxProposer" where
  "Proposer_NewInstance p = p\<lparr> pr_counter := Counter_Reset (pr_counter p),
     pr_state := ProposerState_Reset (pr_state p), pr_status := ps_kNone \<rparr>"

definition Proposer_InstanceDone ::
  "instance_id_t \<Rightarrow> LogValue \<Rightarrow> PaxProposer \<times> 'st World \<Rightarrow> (PaxProposer \<times> 'st World) res" where
  "Proposer_InstanceDone instance_id log_value pw =
     (case pw of (p, w) \<Rightarrow>
      (case pr_prov p of
        None \<Rightarrow> Inl NullPointer
      | Some prov \<Rightarrow> bind_res (WriteResult log_value instance_id kValueAccepted prov) (\<lambda>(_, prov').
          Inr (p\<lparr> pr_prov := Some prov' \<rparr>,
               Withdraw kEVENT_ACCEPT_TIMEOUT (Withdraw kEVENT_PROPOSE_TIMEOUT w)))))"

definition NewValueTimeoutCallback ::
  "instance_id_t \<Rightarrow> PaxProposer \<times> 'st World \<Rightarrow> (PaxProposer \<times> 'st World) res" where
  "NewValueTimeoutCallback instance_id pw =
     (case pw of (p, w) \<Rightarrow>
      if pr_status p \<noteq> ps_kPropose \<and> pr_status p \<noteq> ps_kAccept then Inr (p, w)
      else
        let w = Withdraw kEVENT_ACCEPT_TIMEOUT (Withdraw kEVENT_PROPOSE_TIMEOUT w);
            p = p\<lparr> pr_status := ps_kNone \<rparr>
        in case pr_prov p of
             None \<Rightarrow> Inl NullPointer
           | Some prov \<Rightarrow> bind_res (WriteResult [] instance_id kValueTimeout prov) (\<lambda>(_, prov').
               Inr (p\<lparr> pr_prov := Some prov' \<rparr>, w)))"

definition Proposer_HandleMessage ::
  "'st Env \<Rightarrow> instance_id_t \<Rightarrow> PaxMessage \<Rightarrow> PaxProposer \<times> 'st World
     \<Rightarrow> PaxProposer \<times> 'st World \<times> PaxMessage option" where
  "Proposer_HandleMessage env instance_id message pw =
     (case pm_messageType message of
        kMSG_PROPOSE_ACK \<Rightarrow> (case HandleProposeAck env instance_id message pw of (p, w) \<Rightarrow> (p, w, None))
      | kMSG_ACCEPT_ACK \<Rightarrow> HandleAcceptAck env message pw
      | _ \<Rightarrow> (fst pw, snd pw, None))"

subsection \<open>The highest known ballot\<close>

definition highest_known :: "ProposerState \<Rightarrow> ballot" where
  "highest_known s = Ballot (prs_highest_known_proposal s) (prs_highest_proposal_provider s)"

lemma TryUpdateHighest_iff:
  "fst (TryUpdateHighestProposalId p n s) \<longleftrightarrow> highest_known s < Ballot p n"
  by (auto simp: TryUpdateHighestProposalId_def highest_known_def)

lemma TryUpdateHighest_max:
  "highest_known (snd (TryUpdateHighestProposalId p n s)) = max (highest_known s) (Ballot p n)"
  by (auto simp: TryUpdateHighestProposalId_def highest_known_def max_def less_eq_ballot_def)

lemma TryUpdateHighest_keeps [simp]:
  "prs_my_proposal_id (snd (TryUpdateHighestProposalId p n s)) = prs_my_proposal_id s"
  "prs_log_value (snd (TryUpdateHighestProposalId p n s)) = prs_log_value s"
  by (simp_all add: TryUpdateHighestProposalId_def)

lemma TryUpdateLogValue_eq:
  "TryUpdateLogValue p n v s =
     (if highest_known s < Ballot p n
      then (True, s\<lparr> prs_highest_known_proposal := p, prs_highest_proposal_provider := n,
                    prs_log_value := v \<rparr>)
      else (False, s))"
  by (auto simp: TryUpdateLogValue_def TryUpdateHighestProposalId_def highest_known_def)

lemma TryUpdateLogValue_keeps [simp]:
  "prs_my_proposal_id (snd (TryUpdateLogValue p n v s)) = prs_my_proposal_id s"
  by (simp add: TryUpdateLogValue_eq)

definition update_all ::
  "(proposal_id_t \<times> node_id_t \<times> LogValue) list \<Rightarrow> ProposerState \<Rightarrow> ProposerState" where
  "update_all rs s = fold (\<lambda>(p, n, v) s. snd (TryUpdateLogValue p n v s)) rs s"

lemma highest_known_update_all:
  "highest_known (update_all rs s) = fold max (map (\<lambda>(p, n, v). Ballot p n) rs) (highest_known s)"
proof (induction rs arbitrary: s)
  case Nil
  then show ?case by (simp add: update_all_def)
next
  case (Cons r rs)
  obtain p n v where r: "r = (p, n, v)" by (cases r)
  have "highest_known (snd (TryUpdateLogValue p n v s)) = max (Ballot p n) (highest_known s)"
    by (auto simp: TryUpdateLogValue_eq max_def) (simp add: highest_known_def)
  with Cons [of "snd (TryUpdateLogValue p n v s)"] show ?case by (simp add: update_all_def r)
qed

text \<open>Either no response was above the ballot known before and nothing changed, or the value is
  that of a response with the greatest ballot.\<close>

lemma update_all_value:
  "update_all rs s = s \<or>
   (\<exists>p n. (p, n, prs_log_value (update_all rs s)) \<in> set rs \<and> highest_known (update_all rs s) = Ballot p n)"
proof (induction rs arbitrary: s)
  case Nil
  then show ?case by (simp add: update_all_def)
next
  case (Cons r rs)
  obtain p n v where r: "r = (p, n, v)" by (cases r)
  let ?s = "snd (TryUpdateLogValue p n v s)"
  have u: "update_all (r # rs) s = update_all rs ?s" by (simp add: update_all_def r)
  from Cons [of ?s] show ?case
  proof
    assume same: "update_all rs ?s = ?s"
    show ?thesis
    proof (cases "highest_known s < Ballot p n")
      case True
      then have "update_all (r # rs) s = s\<lparr> prs_highest_known_proposal := p,
          prs_highest_proposal_provider := n, prs_log_value := v \<rparr>"
        using same by (simp add: u TryUpdateLogValue_eq)
      then show ?thesis by (simp add: r highest_known_def)
    next
      case False
      then show ?thesis using same by (simp add: u TryUpdateLogValue_eq)
    qed
  qed (auto simp: u)
qed

lemma NewProposalId_above:
  assumes "prs_my_proposal_id s < - 1" and "prs_highest_known_proposal s < - 1"
  shows "prs_my_proposal_id s < prs_my_proposal_id (NewProposalId s)"
    and "prs_highest_known_proposal s < prs_my_proposal_id (NewProposalId s)"
  using assms by (auto simp: NewProposalId_def intro!: word_less_plus_one)

subsection \<open>Every sequence of operations\<close>

datatype proposer_op =
    OpMessage PaxMessage
  | OpProposeTimeout instance_id_t
  | OpNewValueTimeout
  | OpNewValue
  | OpInstanceDone LogValue
  | OpNewInstance
  | OpInit proposal_id_t

fun proposer_do ::
  "'st Env \<Rightarrow> instance_id_t \<Rightarrow> proposer_op \<Rightarrow> PaxProposer \<times> 'st World
     \<Rightarrow> (PaxProposer \<times> 'st World) res" where
  "proposer_do env i (OpMessage m) pw =
     (case Proposer_HandleMessage env i m pw of (p, w, _) \<Rightarrow> Inr (p, w))"
| "proposer_do env i (OpProposeTimeout j) pw = Inr (ProposeTimeoutCallback env i j pw)"
| "proposer_do env i OpNewValueTimeout pw = NewValueTimeoutCallback i pw"
| "proposer_do env i OpNewValue pw = NewValue env i pw"
| "proposer_do env i (OpInstanceDone v) pw = Proposer_InstanceDone i v pw"
| "proposer_do env i OpNewInstance (p, w) = Inr (Proposer_NewInstance p, w)"
| "proposer_do env i (OpInit pid) (p, w) = Inr (Proposer_Init pid p, w)"

text \<open>The instance number and the world may be anything at each operation.\<close>

inductive proposer_reach :: "'st Env \<Rightarrow> ProposalProv option \<Rightarrow> PaxProposer \<Rightarrow> bool"
  for env prov where
  start: "proposer_reach env prov (new_PaxProposer\<lparr> pr_prov := prov \<rparr>)"
| op: "proposer_reach env prov p \<Longrightarrow> proposer_do env i op (p, w) = Inr (p', w') \<Longrightarrow>
    proposer_reach env prov p'"

definition prop_inv :: "node_id_t \<Rightarrow> PaxProposer \<Rightarrow> bool" where
  "prop_inv n p \<longleftrightarrow> pr_status p \<in> {ps_kNone, ps_kPropose} \<and>
     pc_approvals (pr_counter p) = {} \<and>
     pc_promises (pr_counter p) \<subseteq> {n} \<and> pc_rejections (pr_counter p) \<subseteq> {n} \<and>
     pc_vote_count (pr_counter p) =
       of_nat (card (pc_promises (pr_counter p)) + card (pc_rejections (pr_counter p)))"

lemmas counter_defs = AddPromise_def AddRejection_def AddAccept_def Counter_Reset_def
  new_ProposalCounter_def

lemma prop_inv_start: "prop_inv n (new_PaxProposer\<lparr> pr_prov := prov \<rparr>)"
  by (simp add: prop_inv_def new_PaxProposer_def counter_defs)

lemma prop_inv_NewInstance: "prop_inv n (Proposer_NewInstance p)"
  by (simp add: prop_inv_def Proposer_NewInstance_def counter_defs)

lemma prop_inv_Propose: "prop_inv n p \<Longrightarrow> prop_inv n (fst (Propose env i (p, w)))"
  by (simp add: prop_inv_def Propose_def counter_defs Let_def)

lemma prop_inv_state [simp]: "prop_inv n (p\<lparr> pr_state := s \<rparr>) = prop_inv n p"
  "prop_inv n (p\<lparr> pr_prov := q \<rparr>) = prop_inv n p"
  by (simp_all add: prop_inv_def)

lemma subset_one: "A \<subseteq> {n} \<longleftrightarrow> A = {} \<or> A = {n}"
  by auto

lemma prop_inv_AddPromise:
  "prop_inv n p \<Longrightarrow> prop_inv n (p\<lparr> pr_counter := snd (AddPromise k n (pr_counter p)) \<rparr>)"
  by (auto simp: prop_inv_def counter_defs subset_one)

lemma prop_inv_AddRejection:
  "prop_inv n p \<Longrightarrow> prop_inv n (p\<lparr> pr_counter := snd (AddRejection k n (pr_counter p)) \<rparr>)"
  by (auto simp: prop_inv_def counter_defs subset_one)

text \<open>An acknowledgement of the proposer's current proposal; all others are ignored.\<close>

definition ack_matches :: "'st Env \<Rightarrow> PaxMessage \<Rightarrow> PaxProposer \<Rightarrow> bool" where
  "ack_matches env m p \<longleftrightarrow> pr_status p = ps_kPropose \<and> pm_proposingNodeId m = GetNodeId env \<and>
     pm_proposalId m = prs_my_proposal_id (pr_state p)"

text \<open>The proposer once the acknowledgement is counted.\<close>

definition ack_counted :: "'st Env \<Rightarrow> PaxMessage \<Rightarrow> PaxProposer \<Rightarrow> PaxProposer" where
  "ack_counted env m p =
     (if \<not> pm_rejected m
      then p\<lparr> pr_state := snd (TryUpdateLogValue (pm_proposalId m) (pm_proposingNodeId m)
                (pm_acceptedValue m) (pr_state p)),
              pr_counter := snd (AddPromise (prs_my_proposal_id (pr_state p)) (GetNodeId env)
                (pr_counter p)) \<rparr>
      else p\<lparr> pr_state := snd (TryUpdateHighestProposalId (pm_promisedProposalId m)
                (pm_promisedNodeId m) (pr_state p)),
              pr_counter := snd (AddRejection (prs_my_proposal_id (pr_state p)) (GetNodeId env)
                (pr_counter p)) \<rparr>)"

lemma HandleProposeAck_eq:
  "HandleProposeAck env i m (p, w) =
     (if \<not> ack_matches env m p then (p, w)
      else let q = ack_counted env m p in
        if IsMajorityPromised (env_options env) (pr_counter q) then Propose env i (q, w)
        else if IsMajorityRejected (env_options env) (pr_counter q)
                \<or> \<not> IsStillPending (env_options env) (pr_counter q)
        then (q, Publish kEVENT_PROPOSE_TIMEOUT (ProposeTimeoutHandler (pm_instanceId m))
                   PROPOSE_TIMEOUT w)
        else (q, w))"
proof -
  have "snd (TryUpdateProposerStateWithPrepareReply m p) = p\<lparr> pr_state := snd (TryUpdateLogValue
      (pm_proposalId m) (pm_proposingNodeId m) (pm_acceptedValue m) (pr_state p)) \<rparr>"
    by (simp add: TryUpdateProposerStateWithPrepareReply_def split: prod.splits)
  then show ?thesis
    by (simp add: HandleProposeAck_def ack_matches_def ack_counted_def Let_def)
qed

lemma prop_inv_ack_counted:
  assumes "prop_inv (GetNodeId env) p"
  shows "prop_inv (GetNodeId env) (ack_counted env m p)"
proof -
  have promise: "prop_inv n (p\<lparr> pr_state := s, pr_counter := snd (AddPromise k n (pr_counter p)) \<rparr>)"
    if "prop_inv n p" for n k s
    using prop_inv_AddPromise [of n "p\<lparr> pr_state := s \<rparr>" k] that by simp
  have reject: "prop_inv n (p\<lparr> pr_state := s, pr_counter := snd (AddRejection k n (pr_counter p)) \<rparr>)"
    if "prop_inv n p" for n k s
    using prop_inv_AddRejection [of n "p\<lparr> pr_state := s \<rparr>" k] that by simp
  show ?thesis using promise [OF assms] reject [OF assms] by (simp add: ack_counted_def)
qed

lemma HandleAcceptAck_idle:
  "prop_inv n p \<Longrightarrow> HandleAcceptAck env m (p, w) = (p, w, None)"
  by (auto simp: HandleAcceptAck_def prop_inv_def)

lemma prop_inv_HandleMessage:
  assumes "prop_inv (GetNodeId env) p"
  shows "prop_inv (GetNodeId env) (fst (Proposer_HandleMessage env i m (p, w)))"
proof -
  note q = prop_inv_ack_counted [OF assms, of m]
  have "prop_inv (GetNodeId env) (fst (HandleProposeAck env i m (p, w)))"
    using assms q prop_inv_Propose [OF q, of env i w] by (simp add: HandleProposeAck_eq Let_def)
  then show ?thesis
    using assms HandleAcceptAck_idle [OF assms, of env m w]
    by (cases "HandleProposeAck env i m (p, w)")
      (simp add: Proposer_HandleMessage_def split: MessageType.split)
qed

lemma prop_inv_do:
  assumes "prop_inv (GetNodeId env) p" and "proposer_do env i op (p, w) = Inr (p', w')"
  shows "prop_inv (GetNodeId env) p'"
proof (cases op)
  case (OpMessage m)
  then show ?thesis using assms prop_inv_HandleMessage [OF assms(1), of i m w]
    by (auto split: prod.splits)
next
  case (OpProposeTimeout j)
  then show ?thesis using assms prop_inv_Propose [OF assms(1), of env i w]
    by (auto simp: ProposeTimeoutCallback_def split: if_splits)
next
  case OpNewValueTimeout
  then show ?thesis using assms
    by (auto simp: NewValueTimeoutCallback_def bind_res_eq_Inr Let_def prop_inv_def
        split: if_splits option.splits)
next
  case OpNewValue
  then obtain prov fl prov' where pv: "pr_prov p = Some prov" "Flush i prov = Inr (fl, prov')"
    using assms(2) by (auto simp: NewValue_def bind_res_eq_Inr split: option.splits)
  show ?thesis
  proof (cases fl)
    case None
    then show ?thesis using assms OpNewValue pv by (auto simp: NewValue_def)
  next
    case (Some v)
    define q where "q = (if prs_log_value (pr_state p) = []
            then p\<lparr> pr_prov := Some prov', pr_state := SetLogValue v (pr_state p) \<rparr>
            else p\<lparr> pr_prov := Some prov' \<rparr>)"
    define w1 where "w1 = Publish kEVENT_NEWVALUE_TIMEOUT NewValueTimeoutHandler
      (GetNewValueTimeout prov') w"
    have "Propose env i (q, w1) = (p', w')"
      using assms OpNewValue pv Some
      by (cases "prs_log_value (pr_state p) = []") (simp_all add: NewValue_def Let_def q_def w1_def)
    moreover have "prop_inv (GetNodeId env) q" using assms(1) by (simp add: q_def)
    ultimately show ?thesis using prop_inv_Propose [of "GetNodeId env" q env i w1] by simp
  qed
next
  case (OpInstanceDone v)
  then show ?thesis using assms
    by (auto simp: Proposer_InstanceDone_def bind_res_eq_Inr split: option.splits)
next
  case OpNewInstance
  then show ?thesis using assms prop_inv_NewInstance by auto
next
  case (OpInit pid)
  then show ?thesis using assms by (auto simp: Proposer_Init_def)
qed

lemma prop_inv_reach: "proposer_reach env prov p \<Longrightarrow> prop_inv (GetNodeId env) p"
proof (induction rule: proposer_reach.induct)
  case start
  show ?case by (rule prop_inv_start)
next
  case (op p i op w p' w')
  from prop_inv_do [OF op.IH op.hyps(2)] show ?case .
qed

lemma proposer_do_prov:
  assumes "pr_prov p = None" and "proposer_do env i op (p, w) = Inr (p', w')"
  shows "pr_prov p' = None"
proof (cases op)
  case (OpMessage m)
  have "pr_prov (fst (HandleProposeAck env i m (p, w))) = None"
    using assms(1) by (simp add: HandleProposeAck_eq ack_counted_def Propose_def Let_def)
  moreover have "pr_prov (fst (HandleAcceptAck env m (p, w))) = None"
    using assms(1) by (simp add: HandleAcceptAck_def Let_def)
  ultimately show ?thesis using OpMessage assms
    by (cases "HandleProposeAck env i m (p, w)")
      (auto simp: Proposer_HandleMessage_def split: prod.splits MessageType.splits)
next
  case (OpProposeTimeout j)
  then show ?thesis using assms
    by (auto simp: ProposeTimeoutCallback_def Propose_def Let_def split: if_splits)
next
  case OpNewValueTimeout
  then show ?thesis using assms
    by (auto simp: NewValueTimeoutCallback_def Let_def split: if_splits)
next
  case OpNewValue
  then show ?thesis using assms by (simp add: NewValue_def)
next
  case (OpInstanceDone v)
  then show ?thesis using assms by (simp add: Proposer_InstanceDone_def)
next
  case OpNewInstance
  then show ?thesis using assms by (auto simp: Proposer_NewInstance_def)
next
  case (OpInit pid)
  then show ?thesis using assms by (auto simp: Proposer_Init_def)
qed

lemma reach_null_prov: "proposer_reach env None p \<Longrightarrow> pr_prov p = None"
proof (induction rule: proposer_reach.induct)
  case start
  show ?case by simp
next
  case (op p i op w p' w')
  from proposer_do_prov [OF op.IH op.hyps(2)] show ?case .
qed

subsection \<open>Properties\<close>


text \<open>
  A new proposal id is above the proposer's last id and above every id it was told
  about, short of the largest 64-bit number.
\<close>

theorem new_proposal_id_is_higher:
  assumes "prs_my_proposal_id s < - 1" and "prs_highest_known_proposal s < - 1"
  shows "prs_my_proposal_id s < prs_my_proposal_id (NewProposalId s)
    \<and> prs_highest_known_proposal s < prs_my_proposal_id (NewProposalId s)
    \<and> unat (prs_my_proposal_id (NewProposalId s)) =
        Suc (max (unat (prs_my_proposal_id s)) (unat (prs_highest_known_proposal s)))"
  using NewProposalId_above [OF assms] assms
  by (auto simp: NewProposalId_def unat_plus_one word_less_nat_alt max_def)

lemma new_proposal_id_is_higher_witness:
  "prs_my_proposal_id (NewProposalId (new_ProposerState\<lparr> prs_highest_known_proposal := 7 \<rparr>)) > 7"
  using new_proposal_id_is_higher [of "new_ProposerState\<lparr> prs_highest_known_proposal := 7 \<rparr>"]
  by (simp add: new_ProposerState_def word_less_nat_alt [of 1] unsigned_minus_1_eq_mask mask_eq_exp_minus_1)

text \<open>
  C18. Phase two is never entered. In every state that any sequence of the proposer's operations
  can reach, the status is none or propose, so every acknowledgement of an accept request is
  ignored, and the only votes the counters hold are the proposer's own: a majority can be
  found promised only where one node is a majority.
\<close>

theorem proposer_never_accepts:
  assumes "proposer_reach env prov p"
  shows "pr_status p \<in> {ps_kNone, ps_kPropose}
    \<and> HandleAcceptAck env m (p, w) = (p, w, None)
    \<and> pc_promises (pr_counter p) \<union> pc_rejections (pr_counter p) \<subseteq> {GetNodeId env}
    \<and> (IsMajorityPromised (env_options env) (pr_counter p) \<longrightarrow>
        GetMajorityCount (env_options env) \<le> 1)"
proof -
  note inv = prop_inv_reach [OF assms]
  have "card (pc_promises (pr_counter p)) \<le> 1"
    using inv by (auto simp: prop_inv_def subset_one)
  then have "GetMajorityCount (env_options env) \<le> 1"
    if "IsMajorityPromised (env_options env) (pr_counter p)"
    using that by (simp add: IsMajorityPromised_def word_le_nat_alt)
  then show ?thesis using inv HandleAcceptAck_idle [OF inv, of env m w]
    by (simp add: prop_inv_def)
qed

definition proposing :: PaxProposer where
  "proposing = fst (Propose sample_env 4 (new_PaxProposer, sample_world))"

lemma proposing_eq: "proposing = new_PaxProposer\<lparr> pr_status := ps_kPropose \<rparr>"
  by (simp add: proposing_def Propose_def new_PaxProposer_def new_ProposalCounter_def
      Counter_Reset_def SomeoneReject_def Let_def)

lemma proposing_reach: "proposer_reach sample_env None proposing"
proof -
  have "proposer_reach sample_env None (new_PaxProposer\<lparr> pr_prov := None \<rparr>)"
    by (rule proposer_reach.start)
  then have s: "proposer_reach sample_env None new_PaxProposer"
    by (simp add: new_PaxProposer_def)
  have "proposer_do sample_env 4 (OpProposeTimeout 4) (new_PaxProposer, sample_world) =
      Inr (proposing, snd (Propose sample_env 4 (new_PaxProposer, sample_world)))"
    by (simp add: ProposeTimeoutCallback_def proposing_def)
  from proposer_reach.op [OF s this] show ?thesis .
qed

definition sample_ack :: PaxMessage where
  "sample_ack = (new_PaxMessage 2 kMSG_PROPOSE_ACK)\<lparr> pm_proposalId := 1, pm_proposingNodeId := 1 \<rparr>"

lemma proposer_never_accepts_witness:
  "HandleAcceptAck sample_env sample_ack (proposing, sample_world) = (proposing, sample_world, None)"
  using proposer_never_accepts [OF proposing_reach, of sample_ack sample_world] by simp

text \<open>
  In a cluster of three or more nodes whose majority is at least two, no acknowledgement
  advances a proposer: whatever state its operations brought it to, handling one sends no
  message, writes nothing and leaves the status as it is; the only effect an acknowledgement
  of the current proposal has on the world is a new timeout event.
\<close>

theorem propose_ack_only_rearms_timeout:
  fixes env :: "'st Env" and p :: PaxProposer and m :: PaxMessage and i :: instance_id_t
    and w :: "'st World"
  assumes "proposer_reach env prov p"
    and "2 \<le> GetMajorityCount (env_options env)" and "3 \<le> GetNodeCount (env_options env)"
  defines "r \<equiv> HandleProposeAck env i m (p, w)"
  shows "pr_status (fst r) = pr_status p \<and> w_trace (snd r) = w_trace w
    \<and> w_store (snd r) = w_store w
    \<and> snd r = (if ack_matches env m p
        then Publish kEVENT_PROPOSE_TIMEOUT (ProposeTimeoutHandler (pm_instanceId m)) PROPOSE_TIMEOUT w
        else w)"
proof -
  define q where "q = ack_counted env m p"
  have inv: "prop_inv (GetNodeId env) q"
    unfolding q_def by (rule prop_inv_ack_counted [OF prop_inv_reach [OF assms(1)]])
  have one: "card A \<le> 1" if "A \<subseteq> {n}" for A and n :: node_id_t
    using that card_mono [of "{n}" A] by simp
  have "2 \<le> unat (GetMajorityCount (env_options env))"
    using assms(2) by (simp add: word_le_nat_alt)
  moreover have "card (pc_promises (pr_counter q)) \<le> 1" "card (pc_rejections (pr_counter q)) \<le> 1"
    using inv one by (auto simp: prop_inv_def)
  moreover have "\<not> IsStillPending (env_options env) (pr_counter q)"
  proof -
    have "pc_vote_count (pr_counter q) \<in> {0, 1, 2}"
      using inv by (auto simp: prop_inv_def subset_one)
    then have "(scast (pc_vote_count (pr_counter q)) :: u64) \<le> 2" by auto
    then show ?thesis using assms(3) unfolding IsStillPending_def by (simp add: word_le_nat_alt)
  qed
  ultimately have "r = (if \<not> ack_matches env m p then (p, w)
      else (q, Publish kEVENT_PROPOSE_TIMEOUT (ProposeTimeoutHandler (pm_instanceId m))
                 PROPOSE_TIMEOUT w))"
    unfolding r_def HandleProposeAck_eq
    by (simp add: IsMajorityPromised_def flip: q_def)
  moreover have "pr_status q = pr_status p" by (simp add: q_def ack_counted_def)
  ultimately show ?thesis by simp
qed

lemma propose_ack_only_rearms_timeout_witness:
  "snd (HandleProposeAck sample_env 4 sample_ack (proposing, sample_world)) =
     Publish kEVENT_PROPOSE_TIMEOUT (ProposeTimeoutHandler 0) PROPOSE_TIMEOUT sample_world"
proof -
  have "GetMajorityCount (env_options sample_env) = 2" "GetNodeCount (env_options sample_env) = 3"
    by (simp_all add: sample_options_def GetMajorityCount_def GetNodeCount_def)
  moreover have "ack_matches sample_env sample_ack proposing"
    by (simp add: ack_matches_def sample_ack_def proposing_eq new_PaxProposer_def new_ProposerState_def)
  moreover have "pm_instanceId sample_ack = 0" by (simp add: sample_ack_def)
  ultimately show ?thesis
    using propose_ack_only_rearms_timeout [OF proposing_reach, of 4 sample_ack sample_world] by simp
qed

text \<open>
  The provider of values is never attached. Starting from a proposer as constructed, no
  sequence of its operations sets the pointer, so every attempt to propose a new value and
  every report of a finished instance dereferences null, and the new-value timeout does so
  exactly when a proposal is under way.
\<close>

theorem provider_is_never_attached:
  assumes "proposer_reach env None p"
  shows "NewValue env i (p, w) = Inl NullPointer
    \<and> Proposer_InstanceDone i v (p, w) = Inl NullPointer
    \<and> NewValueTimeoutCallback i (p, w) =
        (if pr_status p = ps_kPropose then Inl NullPointer else Inr (p, w))"
  using reach_null_prov [OF assms] prop_inv_reach [OF assms]
  by (auto simp: NewValue_def Proposer_InstanceDone_def NewValueTimeoutCallback_def prop_inv_def Let_def)

lemma provider_is_never_attached_witness:
  "NewValue sample_env 4 (proposing, sample_world) = Inl NullPointer"
  using provider_is_never_attached [OF proposing_reach, of 4 sample_world] by simp

text \<open>
  A proposal goes out with the wrong numbers: what \<open>Propose\<close> does is to move to status
  propose, take a new id if anything was rejected, clear the counters, set the timeout and
  broadcast one message, whose proposal id is 0 and whose proposing node is the proposal id.
\<close>

theorem Propose_effect:
  fixes env :: "'st Env" and p :: PaxProposer and i :: instance_id_t and w :: "'st World"
  defines "my_id \<equiv> prs_my_proposal_id (if SomeoneReject (pr_counter p)
                      then NewProposalId (pr_state p) else pr_state p)"
  shows "\<exists>m. w_trace (snd (Propose env i (p, w))) = w_trace w @ [Broadcasted m]
     \<and> msg_ballot m = Ballot 0 my_id \<and> pm_instanceId m = i \<and> pm_senderId m = GetNodeId env
     \<and> pm_proposedLogValue m = prs_log_value (pr_state p)
     \<and> pm_messageType m = kMSG_PROPOSE_BROADCAST
     \<and> w_sched (snd (Propose env i (p, w))) = AddEvent (ProposeTimeoutHandler i)
          (w_now w + 50 * ns_per_s) kEVENT_PROPOSE_TIMEOUT (w_sched w)
     \<and> pr_status (fst (Propose env i (p, w))) = ps_kPropose
     \<and> pr_counter (fst (Propose env i (p, w))) = new_ProposalCounter
     \<and> prs_my_proposal_id (pr_state (fst (Propose env i (p, w)))) = my_id"
  by (simp add: Propose_def my_id_def GenerateMessage_def msg_ballot_def Counter_Reset_def
      new_ProposalCounter_def PROPOSE_TIMEOUT_def NewProposalId_def Let_def)

end
