(* ===== verification/Pax_Learner.thy ===== *)
theory Pax_Learner
  imports Pax_Acceptor
begin

section \<open>The learner (core/learner_pax.cpp, learner_follow.cpp, learner_lead.cpp)\<close>

text \<open>
  The learner's record holds \<open>PaxLearnerState\<close>, what the following side keeps (the highest
  instance heard of, whether it is learning) and what the leading side keeps (the sending job).
  A handler takes the instance number and the acceptor's state, which the code reads through
  the controller. \<open>mutex_follow_\<close> is a plain \<open>std::mutex\<close> held for the rest of a scope: a
  function that is called while it is held and locks it again never returns, which is the fault
  \<open>SelfDeadlock\<close>.

  The sending loop runs on a thread of its own; \<open>lead_step\<close> interleaves its steps with the
  handlers, the clock and the controller's instance counter.
\<close>

definition SHALL_LEARN_TIMEOUT :: millisec where "SHALL_LEARN_TIMEOUT = 3000"
definition LEAD_FOLLOW_DIS :: u64 where "LEAD_FOLLOW_DIS = 10"
definition SENDING_INTERNAL_MS :: u64 where "SENDING_INTERNAL_MS = 5000"

datatype LearnerSendingJobStatus = kStale | kPrepared | kSending

record PaxLearner =
  ln_log_value :: LogValue
  ln_learned :: bool
  ln_highest_known_instance_id :: instance_id_t
  ln_is_learning :: bool
  ln_job_status :: LearnerSendingJobStatus
  ln_receiver :: node_id_t
  ln_begin_instance_id :: instance_id_t
  ln_ack_send :: instance_id_t

definition new_PaxLearner :: PaxLearner where
  "new_PaxLearner = \<lparr> ln_log_value = [], ln_learned = False,
     ln_highest_known_instance_id = INSTANCE_DUMMY, ln_is_learning = False,
     ln_job_status = kStale, ln_receiver = NODE_DUMMY, ln_begin_instance_id = INSTANCE_DUMMY,
     ln_ack_send = INSTANCE_DUMMY \<rparr>"

text \<open>The controller's view of the acceptor (\<open>PaxController::GetAcceptedProposal\<close>).\<close>

record ProposalTriplet =
  tp_instance_id :: instance_id_t
  tp_proposal_id :: proposal_id_t
  tp_node_id :: node_id_t

definition GetAcceptedProposal :: "instance_id_t \<Rightarrow> AcceptorState \<Rightarrow> ProposalTriplet" where
  "GetAcceptedProposal instance_id acc = \<lparr> tp_instance_id = instance_id,
     tp_proposal_id = as_accepted_proposal_id acc, tp_node_id = as_accepted_proposer acc \<rparr>"

subsection \<open>Learning\<close>

definition LearnNew ::
  "'st Env \<Rightarrow> LogValue \<Rightarrow> instance_id_t \<Rightarrow> proposal_id_t \<Rightarrow> node_id_t \<Rightarrow> bool
     \<Rightarrow> PaxLearner \<times> 'st World \<Rightarrow> PaxLearner \<times> 'st World" where
  "LearnNew env value_new instance_id proposal_id proposer writeState lw =
     (let (l, w) = lw;
          l = l\<lparr> ln_log_value := value_new, ln_learned := True \<rparr>
      in if writeState
         then (l, WriteState env (new_PaxosLogEntry\<lparr> le_proposer_id := proposer,
                 le_instance_id := instance_id, le_accepted_proposal_id := proposal_id,
                 le_accepted_node_id := proposer, le_accepted_value := value_new \<rparr>) w)
         else (l, w))"

definition LearnFromSelf ::
  "'st Env \<Rightarrow> instance_id_t \<Rightarrow> AcceptorState \<Rightarrow> PaxMessage \<Rightarrow> PaxLearner \<times> 'st World
     \<Rightarrow> PaxLearner \<times> 'st World" where
  "LearnFromSelf env instance_id acc m lw =
     (if pm_instanceId m \<noteq> instance_id then lw
      else if pm_proposingNodeId m \<noteq> GetNodeId env then lw
      else let proposal = GetAcceptedProposal instance_id acc in
        if tp_proposal_id proposal = PROPOSAL_DUMMY \<or> pm_proposalId m \<noteq> tp_proposal_id proposal
        then lw
        else let node_id = tp_node_id proposal in
          if node_id \<noteq> GetNodeId env then lw
          else LearnNew env (as_accepted_value acc) (pm_instanceId m) (tp_proposal_id proposal)
                 node_id False lw)"

definition TellOthers ::
  "'st Env \<Rightarrow> instance_id_t \<Rightarrow> proposal_id_t \<Rightarrow> node_id_t \<Rightarrow> LogValue \<Rightarrow> 'st World \<Rightarrow> 'st World" where
  "TellOthers env instance_id proposal_id proposer log_value w =
     BroadCastMessage ((new_PaxMessage (GetNodeId env) kMSG_VALUE_CHOSEN_BROADCAST)\<lparr>
       pm_instanceId := instance_id, pm_proposalId := proposal_id,
       pm_proposingNodeId := proposer, pm_chosenValue := log_value \<rparr>) w"

definition Learner_HandleSenderPublish ::
  "'st Env \<Rightarrow> instance_id_t \<Rightarrow> AcceptorState \<Rightarrow> PaxMessage \<Rightarrow> PaxLearner \<times> 'st World
     \<Rightarrow> PaxLearner \<times> 'st World" where
  "Learner_HandleSenderPublish env instance_id acc m lw =
     (let (l, w) = LearnFromSelf env instance_id acc m lw
      in (l, TellOthers env instance_id (pm_proposalId m) (GetNodeId env) (pm_learnedValue m) w))"

definition LearnFromOthers ::
  "'st Env \<Rightarrow> instance_id_t \<Rightarrow> PaxMessage \<Rightarrow> PaxLearner \<times> 'st World \<Rightarrow> PaxLearner \<times> 'st World" where
  "LearnFromOthers env instance_id m lw =
     (let (l, w) = lw;
          w = Publish kEVENT_SHALL_I_LEARN ShallLearnHandler SHALL_LEARN_TIMEOUT w
      in if pm_instanceId m \<noteq> instance_id then (l, w)
         else LearnNew env (pm_chosenValue m) (pm_instanceId m) (pm_proposalId m)
                (pm_proposingNodeId m) True (l, w))"

definition HandleOthersPublish ::
  "'st Env \<Rightarrow> instance_id_t \<Rightarrow> AcceptorState \<Rightarrow> PaxMessage \<Rightarrow> PaxLearner \<times> 'st World
     \<Rightarrow> PaxLearner \<times> 'st World" where
  "HandleOthersPublish env instance_id acc m lw =
     (if pm_instanceId m \<noteq> instance_id then lw
      else if pm_proposingNodeId m \<noteq> GetNodeId env then lw
      else let proposal = GetAcceptedProposal instance_id acc in
        if tp_proposal_id proposal = PROPOSAL_DUMMY \<or> pm_proposalId m \<noteq> tp_proposal_id proposal
        then lw
        else LearnFromOthers env instance_id m lw)"

subsection \<open>Following (core/learner_follow.cpp)\<close>

definition ShallLearn ::
  "'st Env \<Rightarrow> instance_id_t \<Rightarrow> PaxLearner \<times> 'st World \<Rightarrow> PaxLearner \<times> 'st World" where
  "ShallLearn env instance_id lw =
     (let (l, w) = lw;
          w = Publish kEVENT_SHALL_I_LEARN ShallLearnHandler SHALL_LEARN_TIMEOUT w;
          l = l\<lparr> ln_is_learning := False \<rparr>
      in (l, BroadCastMessage ((new_PaxMessage (GetNodeId env) kMSG_SHALL_I_LEARN)\<lparr>
               pm_instanceId := instance_id \<rparr>) w))"

definition SetPossibleHigherInstanceId :: "instance_id_t \<Rightarrow> PaxLearner \<Rightarrow> PaxLearner" where
  "SetPossibleHigherInstanceId instance_id l =
     (if instance_id \<le> ln_highest_known_instance_id l then l
      else l\<lparr> ln_highest_known_instance_id := instance_id \<rparr>)"

text \<open>
  \<open>held\<close> says whether the calling thread already holds \<open>mutex_follow_\<close>. The message is
  built and dropped.
\<close>

definition ConfirmLearn ::
  "instance_id_t \<Rightarrow> node_id_t \<Rightarrow> bool \<Rightarrow> PaxLearner \<Rightarrow> PaxLearner res" where
  "ConfirmLearn instance_id node_id held l =
     (if held then Inl SelfDeadlock
      else let l = l\<lparr> ln_is_learning := True \<rparr>;
               pax_message = (new_PaxMessage node_id kMSG_CONFIRM_LEARN)\<lparr>
                               pm_instanceId := instance_id \<rparr>
           in Inr l)"

definition HandleTellNewInstanceId ::
  "instance_id_t \<Rightarrow> PaxMessage \<Rightarrow> PaxLearner \<Rightarrow> PaxLearner res" where
  "HandleTellNewInstanceId instance_id m l =
     (let l = SetPossibleHigherInstanceId (pm_leaderInstanceId m) l in
      if pm_instanceId m \<noteq> instance_id then Inr l
      else if pm_leaderInstanceId m < instance_id then Inr l
      else if \<not> ln_is_learning l then ConfirmLearn instance_id (pm_senderId m) True l
      else Inr l)"

definition AckLearnValue :: "'st Env \<Rightarrow> instance_id_t \<Rightarrow> node_id_t \<Rightarrow> 'st World \<Rightarrow> 'st World" where
  "AckLearnValue env instance_id node_id w =
     SendMessage ((new_PaxMessage (GetNodeId env) kMSG_SYNC_VALUE_ACK)\<lparr>
       pm_instanceId := instance_id \<rparr>) node_id w"

definition HandleSyncValue ::
  "'st Env \<Rightarrow> instance_id_t \<Rightarrow> PaxMessage \<Rightarrow> PaxLearner \<times> 'st World \<Rightarrow> PaxLearner \<times> 'st World" where
  "HandleSyncValue env instance_id m lw =
     (let (l, w) = LearnFromOthers env instance_id m lw
      in (l, AckLearnValue env instance_id (pm_senderId m) w))"

definition AnymoreToLearn :: "instance_id_t \<Rightarrow> PaxLearner \<Rightarrow> bool" where
  "AnymoreToLearn instance_id l \<longleftrightarrow> instance_id + 1 < ln_highest_known_instance_id l"

definition Learner_NewInstance :: "PaxLearner \<Rightarrow> PaxLearner" where
  "Learner_NewInstance l = l\<lparr> ln_log_value := [], ln_learned := False \<rparr>"

subsection \<open>Leading (core/learner_lead.cpp)\<close>

definition TellInstanceId ::
  "'st Env \<Rightarrow> instance_id_t \<Rightarrow> instance_id_t \<Rightarrow> node_id_t \<Rightarrow> 'st World \<Rightarrow> 'st World" where
  "TellInstanceId env my_instance_id instance_id node_id w =
     SendMessage ((new_PaxMessage (GetNodeId env) kMSG_TELL_INSTANCE_ID)\<lparr>
       pm_instanceId := instance_id, pm_leaderInstanceId := my_instance_id \<rparr>) node_id w"

text \<open>The sender of the message is the node it goes to.\<close>

definition learned_value_message :: "instance_id_t \<Rightarrow> node_id_t \<Rightarrow> bool \<Rightarrow> PaxosLogEntry \<Rightarrow> PaxMessage" where
  "learned_value_message instanceId toNodeId sync e =
     (new_PaxMessage toNodeId (if sync then kMSG_LEARNER_VALUE_SYNC else kMSG_LEARNER_VALUE_SEND))\<lparr>
       pm_instanceId := instanceId, pm_chosenValue := le_accepted_value e,
       pm_proposalId := le_accepted_proposal_id e, pm_proposingNodeId := le_proposer_id e \<rparr>"

definition SendLearnedValue ::
  "'st Env \<Rightarrow> instance_id_t \<Rightarrow> node_id_t \<Rightarrow> bool \<Rightarrow> 'st World \<Rightarrow> 'st World" where
  "SendLearnedValue env instanceId toNodeId sync w =
     (let (paxosState, w) = ReadState env instanceId w
      in SendMessage (learned_value_message instanceId toNodeId sync paxosState) toNodeId w)"

definition HandleShallILearn ::
  "'st Env \<Rightarrow> instance_id_t \<Rightarrow> PaxMessage \<Rightarrow> PaxLearner \<times> 'st World \<Rightarrow> PaxLearner \<times> 'st World" where
  "HandleShallILearn env instance_id m lw =
     (let (l, w) = lw; l = SetPossibleHigherInstanceId (pm_instanceId m) l in
      if pm_instanceId m + 1 \<noteq> instance_id
      then (l, TellInstanceId env instance_id (pm_instanceId m) (pm_senderId m) w)
      else (l, SendLearnedValue env (pm_instanceId m) (pm_senderId m) False w))"

definition MakeSenderReady :: "node_id_t \<Rightarrow> instance_id_t \<Rightarrow> PaxLearner \<Rightarrow> PaxLearner" where
  "MakeSenderReady receiver follower_instance_id l =
     (if ln_job_status l \<noteq> kStale then l
      else l\<lparr> ln_job_status := kPrepared, ln_receiver := receiver,
              ln_begin_instance_id := follower_instance_id \<rparr>)"

definition HandleConfirmLearn :: "PaxMessage \<Rightarrow> PaxLearner \<Rightarrow> PaxLearner" where
  "HandleConfirmLearn m l = MakeSenderReady (pm_senderId m) (pm_instanceId m) l"

definition HandleValueAck :: "PaxMessage \<Rightarrow> PaxLearner \<Rightarrow> PaxLearner" where
  "HandleValueAck m l =
     (if ln_job_status l \<noteq> kSending \<or> ln_receiver l \<noteq> pm_senderId m then l
      else if pm_instanceId m > ln_ack_send l then l\<lparr> ln_ack_send := pm_instanceId m \<rparr>
      else l)"

definition ClearSendingState :: "PaxLearner \<Rightarrow> PaxLearner" where
  "ClearSendingState l = l\<lparr> ln_job_status := kStale, ln_begin_instance_id := INSTANCE_DUMMY,
     ln_receiver := NODE_DUMMY, ln_ack_send := INSTANCE_DUMMY \<rparr>"

subsection \<open>Dispatch (core/learner_pax.cpp)\<close>

text \<open>The case of \<open>kMSG_VALUE_CHOSEN\<close> has no \<open>break\<close> and falls through to the next.\<close>

definition Learner_HandleMessage ::
  "'st Env \<Rightarrow> instance_id_t \<Rightarrow> AcceptorState \<Rightarrow> PaxMessage \<Rightarrow> PaxLearner \<times> 'st World
     \<Rightarrow> (PaxLearner \<times> 'st World) res" where
  "Learner_HandleMessage env instance_id acc m lw =
     (let (l, w) = lw in case pm_messageType m of
        kMSG_VALUE_CHOSEN \<Rightarrow> Inr (HandleOthersPublish env instance_id acc m
            (Learner_HandleSenderPublish env instance_id acc m lw))
      | kMSG_LEARNER_VALUE_SEND \<Rightarrow> Inr (HandleOthersPublish env instance_id acc m lw)
      | kMSG_VALUE_CHOSEN_BROADCAST \<Rightarrow> Inr (HandleOthersPublish env instance_id acc m lw)
      | kMSG_SHALL_I_LEARN \<Rightarrow> Inr (HandleShallILearn env instance_id m lw)
      | kMSG_CONFIRM_LEARN \<Rightarrow> Inr (HandleConfirmLearn m l, w)
      | kMSG_LEARNER_VALUE_SYNC \<Rightarrow> Inr (HandleSyncValue env instance_id m lw)
      | kMSG_SYNC_VALUE_ACK \<Rightarrow> Inr (HandleValueAck m l, w)
      | kMSG_TELL_INSTANCE_ID \<Rightarrow>
          bind_res (HandleTellNewInstanceId instance_id m l) (\<lambda>l. Inr (l, w))
      | _ \<Rightarrow> Inr lw)"

definition Learner_Init :: "'st World \<Rightarrow> 'st World" where
  "Learner_Init w = Publish kEVENT_SHALL_I_LEARN ShallLearnHandler SHALL_LEARN_TIMEOUT w"

subsection \<open>The sending loop as a step relation\<close>

text \<open>
  Where the sending thread is: in \<open>WaitForReady\<close>; about to send the value of an instance, or
  to leave the loop; in the window test after a send; about to clear. \<open>SendLearnedValues\<close>
  compares \<open>receiver_\<close> with its argument, which is \<open>receiver_\<close>, on entry.
\<close>

datatype sender_pc =
    AtWait
  | AtLoop (pc_to_send: instance_id_t) SteadyTime (pc_receiver: node_id_t)
  | AtWindow (pc_last_send: instance_id_t) (pc_to_send: instance_id_t) SteadyTime (pc_receiver: node_id_t)
  | AtClear

record 'st LeadState =
  ls_learner :: PaxLearner
  ls_world :: "'st World"
  ls_pc :: sender_pc
  ls_instance :: instance_id_t

inductive lead_step :: "'st Env \<Rightarrow> 'st LeadState \<Rightarrow> 'st LeadState \<Rightarrow> bool" for env where
  wake: "ls_pc s = AtWait \<Longrightarrow> ln_job_status (ls_learner s) = kPrepared \<Longrightarrow>
    lead_step env s (s\<lparr> ls_learner := (ls_learner s)\<lparr> ln_job_status := kSending \<rparr>,
      ls_pc := AtLoop (ln_begin_instance_id (ls_learner s)) (w_now (ls_world s))
                 (ln_receiver (ls_learner s)) \<rparr>)"
| send: "ls_pc s = AtLoop t begun r \<Longrightarrow> t < ls_instance s \<Longrightarrow>
    lead_step env s (s\<lparr> ls_world := SendLearnedValue env t r True (ls_world s),
      ls_pc := AtWindow t (t + 1) begun r \<rparr>)"
| sent_all: "ls_pc s = AtLoop t begun r \<Longrightarrow> \<not> t < ls_instance s \<Longrightarrow>
    lead_step env s (s\<lparr> ls_pc := AtClear \<rparr>)"
| window_open: "ls_pc s = AtWindow prev t begun r \<Longrightarrow>
    \<not> prev - ln_ack_send (ls_learner s) > LEAD_FOLLOW_DIS \<Longrightarrow>
    lead_step env s (s\<lparr> ls_pc := AtLoop t begun r \<rparr>)"
| too_slow: "ls_pc s = AtWindow prev t begun r \<Longrightarrow>
    prev - ln_ack_send (ls_learner s) > LEAD_FOLLOW_DIS \<Longrightarrow>
    StopWatchMS begun (w_now (ls_world s)) > SENDING_INTERNAL_MS \<Longrightarrow>
    lead_step env s (s\<lparr> ls_pc := AtClear \<rparr>)"
| clear: "ls_pc s = AtClear \<Longrightarrow>
    lead_step env s (s\<lparr> ls_learner := ClearSendingState (ls_learner s), ls_pc := AtWait \<rparr>)"
| handler: "Learner_HandleMessage env (ls_instance s) acc m (ls_learner s, ls_world s) = Inr (l, w) \<Longrightarrow>
    lead_step env s (s\<lparr> ls_learner := l, ls_world := w \<rparr>)"
| ask: "ShallLearn env (ls_instance s) (ls_learner s, ls_world s) = (l, w) \<Longrightarrow>
    lead_step env s (s\<lparr> ls_learner := l, ls_world := w \<rparr>)"
| tick: "w_now (ls_world s) \<le> now \<Longrightarrow>
    lead_step env s (s\<lparr> ls_world := (ls_world s)\<lparr> w_now := now \<rparr> \<rparr>)"
| next_instance: "lead_step env s (s\<lparr> ls_learner := Learner_NewInstance (ls_learner s),
      ls_instance := ls_instance s + 1 \<rparr>)"

definition lead_start :: "'st World \<Rightarrow> instance_id_t \<Rightarrow> 'st LeadState" where
  "lead_start w i = \<lparr> ls_learner = new_PaxLearner, ls_world = w, ls_pc = AtWait, ls_instance = i \<rparr>"

text \<open>The sync messages of a trace: instance and receiver, in order.\<close>

fun sync_of :: "Action \<Rightarrow> (instance_id_t \<times> node_id_t) list" where
  "sync_of (SentTo n m) =
     (if pm_messageType m = kMSG_LEARNER_VALUE_SYNC then [(pm_instanceId m, n)] else [])"
| "sync_of _ = []"

definition sync_log :: "Action list \<Rightarrow> (instance_id_t \<times> node_id_t) list" where
  "sync_log tr = concat (map sync_of tr)"

lemma sync_log_simps [simp]:
  "sync_log [] = []" "sync_log (tr @ [a]) = sync_log tr @ sync_of a"
  by (simp_all add: sync_log_def)

text \<open>What the handlers leave alone.\<close>

definition same_job :: "PaxLearner \<Rightarrow> PaxLearner \<Rightarrow> bool" where
  "same_job l l' \<longleftrightarrow> ln_job_status l' = ln_job_status l \<and> ln_receiver l' = ln_receiver l \<and>
     ln_begin_instance_id l' = ln_begin_instance_id l \<and> ln_ack_send l' = ln_ack_send l"

definition job_grows :: "PaxLearner \<Rightarrow> PaxLearner \<Rightarrow> bool" where
  "job_grows l l' \<longleftrightarrow> ln_ack_send l \<le> ln_ack_send l' \<and>
     (if ln_job_status l = kStale
      then ln_job_status l' \<in> {kStale, kPrepared} \<and> ln_ack_send l' = ln_ack_send l
      else ln_job_status l' = ln_job_status l \<and> ln_receiver l' = ln_receiver l \<and>
           ln_begin_instance_id l' = ln_begin_instance_id l \<and>
           (ln_job_status l = kPrepared \<longrightarrow> ln_ack_send l' = ln_ack_send l))"

lemma same_job_grows: "same_job l l' \<Longrightarrow> job_grows l l'"
  by (auto simp: same_job_def job_grows_def intro: LearnerSendingJobStatus.exhaust)

lemma LearnNew_frame:
  "LearnNew env v i p n b (l, w) = (l', w') \<Longrightarrow>
     same_job l l' \<and> sync_log (w_trace w') = sync_log (w_trace w)"
  by (auto simp: LearnNew_def same_job_def Let_def split: if_splits)

lemma LearnFromOthers_frame:
  "LearnFromOthers env i m (l, w) = (l', w') \<Longrightarrow>
     same_job l l' \<and> sync_log (w_trace w') = sync_log (w_trace w)"
  using LearnNew_frame [of env _ _ _ _ _ l]
  by (fastforce simp: LearnFromOthers_def same_job_def Let_def split: if_splits)

lemma HandleOthersPublish_frame:
  "HandleOthersPublish env i acc m (l, w) = (l', w') \<Longrightarrow>
     same_job l l' \<and> sync_log (w_trace w') = sync_log (w_trace w)"
  using LearnFromOthers_frame [of env i m l w]
  by (auto simp: HandleOthersPublish_def same_job_def Let_def split: if_splits)

lemma HandleSenderPublish_frame:
  "Learner_HandleSenderPublish env i acc m (l, w) = (l', w') \<Longrightarrow>
     same_job l l' \<and> sync_log (w_trace w') = sync_log (w_trace w)"
  by (auto simp: Learner_HandleSenderPublish_def LearnFromSelf_def LearnNew_def TellOthers_def
      same_job_def Let_def split: if_splits)

lemma SendLearnedValue_trace:
  "\<exists>e. w_trace (SendLearnedValue env i n b w) =
     w_trace w @ [SentTo n (learned_value_message i n b e)]"
  by (auto simp: SendLearnedValue_def ReadState_def split: prod.splits)

lemma learned_value_message_sync [simp]:
  "sync_of (SentTo n (learned_value_message i n b e)) = (if b then [(i, n)] else [])"
  by (simp add: learned_value_message_def)

lemma sync_log_SendLearnedValue:
  "sync_log (w_trace (SendLearnedValue env i n b w)) =
     sync_log (w_trace w) @ (if b then [(i, n)] else [])"
  using SendLearnedValue_trace [of env i n b w] by (auto simp del: sync_of.simps)

lemma w_now_SendLearnedValue [simp]: "w_now (SendLearnedValue env i n b w) = w_now w"
  by (simp add: SendLearnedValue_def ReadState_def split: prod.splits)

lemma SetPossibleHigher_same: "same_job l (SetPossibleHigherInstanceId i l)"
  by (simp add: same_job_def SetPossibleHigherInstanceId_def)

lemma HandleShallILearn_frame:
  "HandleShallILearn env i m (l, w) = (l', w') \<Longrightarrow>
     same_job l l' \<and> sync_log (w_trace w') = sync_log (w_trace w)"
  using SetPossibleHigher_same [of l "pm_instanceId m"]
  by (auto simp: HandleShallILearn_def TellInstanceId_def sync_log_SendLearnedValue Let_def
      split: if_splits)

lemma HandleSyncValue_frame:
  "HandleSyncValue env i m (l, w) = (l', w') \<Longrightarrow>
     same_job l l' \<and> sync_log (w_trace w') = sync_log (w_trace w)"
  using LearnFromOthers_frame [of env i m l w]
  by (cases "LearnFromOthers env i m (l, w)")
    (auto simp: HandleSyncValue_def AckLearnValue_def)

lemma HandleTell_same: "HandleTellNewInstanceId i m l = Inr l' \<Longrightarrow> same_job l l'"
  using SetPossibleHigher_same [of l "pm_leaderInstanceId m"]
  by (auto simp: HandleTellNewInstanceId_def ConfirmLearn_def Let_def split: if_splits)

lemma handler_frame:
  assumes "Learner_HandleMessage env i acc m (l, w) = Inr (l', w')"
  shows "job_grows l l' \<and> sync_log (w_trace w') = sync_log (w_trace w)"
proof -
  obtain l1 w1 where sp: "Learner_HandleSenderPublish env i acc m (l, w) = (l1, w1)" by force
  have trans: "same_job l l1 \<Longrightarrow> same_job l1 l' \<Longrightarrow> same_job l l'" by (simp add: same_job_def)
  have ready: "job_grows l (HandleConfirmLearn m l)" "job_grows l (HandleValueAck m l)"
    by (cases "ln_job_status l"; auto simp: job_grows_def HandleConfirmLearn_def MakeSenderReady_def
        HandleValueAck_def)+
  have refl: "job_grows l l" by (simp add: same_job_grows same_job_def)
  show ?thesis
    using assms ready refl sp HandleSenderPublish_frame [OF sp] trans
    by (cases "pm_messageType m")
      (auto simp: Learner_HandleMessage_def bind_res_eq_Inr intro: same_job_grows
        dest: HandleOthersPublish_frame HandleShallILearn_frame HandleSyncValue_frame HandleTell_same)
qed

subsection \<open>The invariant of the sending job\<close>

definition sent_from :: "instance_id_t \<Rightarrow> instance_id_t \<Rightarrow> node_id_t \<Rightarrow> 'st World \<Rightarrow> bool" where
  "sent_from b t r w \<longleftrightarrow> (\<exists>n pre. t = b + of_nat n \<and>
     sync_log (w_trace w) = pre @ map (\<lambda>k. (b + of_nat k, r)) [0..<n])"

definition in_window :: "instance_id_t \<Rightarrow> instance_id_t \<Rightarrow> bool" where
  "in_window t ack \<longleftrightarrow> (\<exists>a \<le> ack. t - 1 - a \<le> LEAD_FOLLOW_DIS)"

definition job_inv :: "'st LeadState \<Rightarrow> bool" where
  "job_inv s = (let l = ls_learner s in case ls_pc s of
       AtWait \<Rightarrow> ln_job_status l \<noteq> kSending \<and> ln_ack_send l = 0
     | AtLoop t _ r \<Rightarrow> ln_job_status l = kSending \<and> r = ln_receiver l \<and>
         sent_from (ln_begin_instance_id l) t r (ls_world s) \<and>
         (t = ln_begin_instance_id l \<or> in_window t (ln_ack_send l))
     | AtWindow p t _ r \<Rightarrow> ln_job_status l = kSending \<and> r = ln_receiver l \<and> p = t - 1 \<and>
         sent_from (ln_begin_instance_id l) t r (ls_world s)
     | AtClear \<Rightarrow> ln_job_status l = kSending)"

lemma sent_from_cong: "sync_log (w_trace w') = sync_log (w_trace w) \<Longrightarrow>
    sent_from b t r w \<Longrightarrow> sent_from b t r w'"
  by (simp add: sent_from_def)

lemma sent_from_start: "sent_from b b r w"
  unfolding sent_from_def by (rule exI [of _ 0]) simp

lemma sent_from_send:
  assumes "sent_from b t r w"
  shows "sent_from b (t + 1) r (SendLearnedValue env t r True w)"
proof -
  obtain n pre where "t = b + of_nat n"
    and "sync_log (w_trace w) = pre @ map (\<lambda>k. (b + of_nat k, r)) [0..<n]"
    using assms by (auto simp: sent_from_def)
  then have "t + 1 = b + of_nat (Suc n) \<and> sync_log (w_trace (SendLearnedValue env t r True w)) =
      pre @ map (\<lambda>k. (b + of_nat k, r)) [0..<Suc n]"
    by (simp add: sync_log_SendLearnedValue algebra_simps)
  then show ?thesis unfolding sent_from_def by blast
qed

lemma in_window_mono: "in_window t a \<Longrightarrow> a \<le> a' \<Longrightarrow> in_window t a'"
  unfolding in_window_def using order_trans by blast

text \<open>Handlers, the own request, the clock and a new instance only let the job grow.\<close>

lemma job_inv_grows:
  assumes "job_inv s" and "job_grows (ls_learner s) l"
    and "sync_log (w_trace w) = sync_log (w_trace (ls_world s))"
  shows "job_inv (s\<lparr> ls_learner := l, ls_world := w, ls_instance := i \<rparr>)"
proof (cases "ls_pc s")
  case AtWait
  then show ?thesis using assms(1,2)
    by (auto simp: job_inv_def Let_def job_grows_def split: if_splits) (metis LearnerSendingJobStatus.exhaust)+
next
  case (AtLoop t b r)
  then show ?thesis using assms
    by (auto simp: job_inv_def Let_def job_grows_def intro: sent_from_cong in_window_mono)
next
  case (AtWindow p t b r)
  then show ?thesis using assms by (auto simp: job_inv_def Let_def job_grows_def intro: sent_from_cong)
next
  case AtClear
  then show ?thesis using assms by (auto simp: job_inv_def Let_def job_grows_def)
qed

lemma ShallLearn_frame:
  "ShallLearn env i (l, w) = (l', w') \<Longrightarrow>
     same_job l l' \<and> sync_log (w_trace w') = sync_log (w_trace w)"
  by (auto simp: ShallLearn_def same_job_def Let_def)

lemma job_inv_step:
  assumes "lead_step env s s'" and "job_inv s"
  shows "job_inv s'"
  using assms
proof (cases rule: lead_step.cases)
  case wake
  then show ?thesis by (simp add: job_inv_def Let_def sent_from_start)
next
  case (send t begun r)
  then show ?thesis using assms(2) by (auto simp: job_inv_def Let_def intro: sent_from_send)
next
  case (window_open prev t begun r)
  then show ?thesis using assms(2)
    by (auto simp: job_inv_def Let_def in_window_def not_less)
next
  case (handler acc m l w)
  with handler_frame [OF handler(2)] job_inv_grows [OF assms(2), of l w "ls_instance s"]
  show ?thesis by simp
next
  case (ask l w)
  with ShallLearn_frame [OF ask(2)] job_inv_grows [OF assms(2), of l w "ls_instance s"]
  show ?thesis by (simp add: same_job_grows)
next
  case (tick now)
  have "job_grows (ls_learner s) (ls_learner s)" by (simp add: same_job_grows same_job_def)
  with tick job_inv_grows [OF assms(2) this, of "(ls_world s)\<lparr> w_now := now \<rparr>" "ls_instance s"]
  show ?thesis by simp
next
  case next_instance
  have "same_job (ls_learner s) (Learner_NewInstance (ls_learner s))"
    by (simp add: same_job_def Learner_NewInstance_def)
  with next_instance same_job_grows
    job_inv_grows [OF assms(2), of "Learner_NewInstance (ls_learner s)" "ls_world s" "ls_instance s + 1"]
  show ?thesis by simp
qed (use assms(2) in \<open>simp_all add: job_inv_def Let_def ClearSendingState_def\<close>)

lemma job_inv_reachable:
  assumes "(lead_step env)\<^sup>*\<^sup>* (lead_start w i) s"
  shows "job_inv s"
  using assms
proof (induction rule: rtranclp_induct)
  case base
  show ?case by (simp add: job_inv_def Let_def lead_start_def new_PaxLearner_def)
next
  case (step s s')
  then show ?case by (auto intro: job_inv_step)
qed

subsection \<open>Properties\<close>

text \<open>
  C10. The sending job, interleaved in any way with message handlers, the clock and new
  instances: whenever the sending thread is about to send the value of instance \<open>t\<close> to
  \<open>r\<close>, the job is in status sending, \<open>r\<close> is the receiver of the job, the sync messages
  sent end with those for all instances from the job's first one up to \<open>t - 1\<close>, in order and
  all to \<open>r\<close>; and \<open>t\<close> is the first one or at most \<open>LEAD_FOLLOW_DIS\<close> ahead of an acknowledged
  instance. A thread that waits has left no acknowledgement behind.
\<close>

theorem sending_job_in_order:
  assumes "(lead_step env)\<^sup>*\<^sup>* (lead_start w i) s"
  shows "(ls_pc s = AtLoop t begun r \<longrightarrow>
       ln_job_status (ls_learner s) = kSending \<and> ln_receiver (ls_learner s) = r
     \<and> (\<exists>n pre. t = ln_begin_instance_id (ls_learner s) + of_nat n
          \<and> sync_log (w_trace (ls_world s)) =
              pre @ map (\<lambda>k. (ln_begin_instance_id (ls_learner s) + of_nat k, r)) [0..<n])
     \<and> (t = ln_begin_instance_id (ls_learner s)
        \<or> (\<exists>a \<le> ln_ack_send (ls_learner s). t - 1 - a \<le> LEAD_FOLLOW_DIS)))
   \<and> (ls_pc s = AtWait \<longrightarrow>
       ln_job_status (ls_learner s) \<noteq> kSending \<and> ln_ack_send (ls_learner s) = 0)"
  using job_inv_reachable [OF assms]
  by (auto simp: job_inv_def Let_def sent_from_def in_window_def)

definition sample_confirm :: PaxMessage where
  "sample_confirm = (new_PaxMessage 2 kMSG_CONFIRM_LEARN)\<lparr> pm_instanceId := 3 \<rparr>"

lemma sending_job_in_order_witness:
  "\<exists>s. (lead_step sample_env)\<^sup>*\<^sup>* (lead_start sample_world 9) s \<and> ls_pc s = AtLoop 3 0 2
     \<and> ln_receiver (ls_learner s) = 2 \<and> ln_job_status (ls_learner s) = kSending"
proof -
  let ?s = "lead_start sample_world 9"
  let ?l = "HandleConfirmLearn sample_confirm new_PaxLearner"
  let ?s1 = "?s\<lparr> ls_learner := ?l, ls_world := sample_world \<rparr>"
  have "Learner_HandleMessage sample_env (ls_instance ?s) new_AcceptorState sample_confirm
      (ls_learner ?s, ls_world ?s) = Inr (?l, sample_world)"
    by (simp add: Learner_HandleMessage_def sample_confirm_def lead_start_def)
  then have one: "lead_step sample_env ?s ?s1" by (rule lead_step.handler)
  let ?s2 = "?s1\<lparr> ls_learner := (ls_learner ?s1)\<lparr> ln_job_status := kSending \<rparr>, ls_pc := AtLoop 3 0 2 \<rparr>"
  have l: "ln_job_status ?l = kPrepared" "ln_begin_instance_id ?l = 3" "ln_receiver ?l = 2"
    by (simp_all add: HandleConfirmLearn_def MakeSenderReady_def new_PaxLearner_def sample_confirm_def)
  have "lead_step sample_env ?s1 ?s2"
    using lead_step.wake [of ?s1 sample_env] l by (simp add: lead_start_def)
  with one have two: "(lead_step sample_env)\<^sup>*\<^sup>* ?s ?s2" by (meson converse_rtranclp_into_rtranclp r_into_rtranclp)
  moreover have "ls_pc ?s2 = AtLoop 3 0 2" by simp
  ultimately show ?thesis
    using sending_job_in_order [OF two, of 3 0 2] by (intro exI [of _ ?s2]) blast
qed

text \<open>
  An acknowledgement that is ahead of what was sent closes the window instead of opening
  it: the distance wraps around, so the sending thread cannot go on in that instance until the
  job is given up as too slow.
\<close>

theorem early_ack_stalls_sender:
  assumes "ls_pc s = AtWindow p t begun r"
    and "p < ln_ack_send (ls_learner s)"
    and "unat (ln_ack_send (ls_learner s)) - unat p < 2 ^ 64 - 10"
    and "lead_step env s s'" and "ls_pc s' \<noteq> ls_pc s"
  shows "ls_pc s' = AtClear \<and> StopWatchMS begun (w_now (ls_world s)) > SENDING_INTERNAL_MS"
proof -
  define a where "a = ln_ack_send (ls_learner s)"
  have "unat (p - a) = 2 ^ 64 - (unat a - unat p)"
    using assms(2) unfolding a_def by (simp add: unat_sub_if_size word_less_nat_alt word_size)
  moreover have "0 < unat a - unat p" using assms(2) by (simp add: a_def word_less_nat_alt)
  ultimately have "10 < unat (p - a)" using assms(3) by (simp flip: a_def)
  then have far: "p - a > LEAD_FOLLOW_DIS"
    by (simp add: LEAD_FOLLOW_DIS_def word_less_nat_alt)
  from assms(4) show ?thesis
    by (cases rule: lead_step.cases) (use assms(1,5) far in \<open>auto simp: a_def\<close>)
qed

definition stalled :: "MemoryDB LeadState" where
  "stalled = \<lparr> ls_learner = new_PaxLearner\<lparr> ln_job_status := kSending, ln_receiver := 2,
       ln_ack_send := 5 \<rparr>,
     ls_world = sample_world\<lparr> w_now := 6 * ns_per_s \<rparr>, ls_pc = AtWindow 4 5 0 2, ls_instance = 9 \<rparr>"

lemma early_ack_stalls_sender_witness:
  "\<exists>s'. lead_step sample_env stalled s' \<and> ls_pc s' = AtClear
     \<and> StopWatchMS 0 (w_now (ls_world stalled)) > SENDING_INTERNAL_MS"
proof -
  have pc: "ls_pc stalled = AtWindow 4 5 0 2" and ack: "ln_ack_send (ls_learner stalled) = 5"
    by (simp_all add: stalled_def)
  have "lead_step sample_env stalled (stalled\<lparr> ls_pc := AtClear \<rparr>)"
    by (rule lead_step.too_slow [OF pc])
      (simp_all add: stalled_def LEAD_FOLLOW_DIS_def SENDING_INTERNAL_MS_def StopWatchMS_def
        DurationMS_def ns_per_ms_def ns_per_s_def)
  with early_ack_stalls_sender [OF pc _ _ this] ack pc show ?thesis by auto
qed

text \<open>
  What a matching publication does: the conditions that both publish handlers test.
\<close>

definition publication_matches ::
  "'st Env \<Rightarrow> instance_id_t \<Rightarrow> AcceptorState \<Rightarrow> PaxMessage \<Rightarrow> bool" where
  "publication_matches env i acc m \<longleftrightarrow> pm_instanceId m = i \<and> pm_proposingNodeId m = GetNodeId env \<and>
     as_accepted_proposal_id acc \<noteq> 0 \<and> pm_proposalId m = as_accepted_proposal_id acc"

lemma HandleOthersPublish_eq:
  "HandleOthersPublish env i acc m lw =
     (if publication_matches env i acc m then LearnFromOthers env i m lw else lw)"
  by (auto simp: HandleOthersPublish_def publication_matches_def GetAcceptedProposal_def Let_def)

lemma LearnFromSelf_eq:
  "LearnFromSelf env i acc m (l, w) =
     (if publication_matches env i acc m \<and> as_accepted_proposer acc = GetNodeId env
      then (l\<lparr> ln_log_value := as_accepted_value acc, ln_learned := True \<rparr>, w) else (l, w))"
  by (auto simp: LearnFromSelf_def publication_matches_def GetAcceptedProposal_def LearnNew_def Let_def)

text \<open>The entry that learning from a message writes.\<close>

definition learned_entry :: "PaxMessage \<Rightarrow> PaxosLogEntry" where
  "learned_entry m = new_PaxosLogEntry\<lparr> le_proposer_id := pm_proposingNodeId m,
     le_instance_id := pm_instanceId m, le_accepted_proposal_id := pm_proposalId m,
     le_accepted_node_id := pm_proposingNodeId m, le_accepted_value := pm_chosenValue m \<rparr>"

lemma LearnFromOthers_eq:
  "LearnFromOthers env i m (l, w) =
     (let w1 = Publish kEVENT_SHALL_I_LEARN ShallLearnHandler SHALL_LEARN_TIMEOUT w in
      if pm_instanceId m \<noteq> i then (l, w1)
      else (l\<lparr> ln_log_value := pm_chosenValue m, ln_learned := True \<rparr>,
            WriteState env (learned_entry m) w1))"
  by (simp add: LearnFromOthers_def LearnNew_def learned_entry_def Let_def)

text \<open>
  A chosen value is learned wrongly. When the node's own accepted proposal is reported
  chosen, the learner first learns the accepted value, then broadcasts the message's learned
  value (not the accepted one), then falls through to the handler for other nodes'
  publications: it ends up with the message's chosen value, and writes that to the log. A
  message without values, as the proposer builds it, so makes it learn, store and announce
  the empty value.
\<close>

theorem chosen_value_is_overwritten:
  fixes env :: "'st Env" and acc :: AcceptorState and m :: PaxMessage and i :: instance_id_t
    and l :: PaxLearner and w :: "'st World"
  assumes "publication_matches env i acc m" and "pm_messageType m = kMSG_VALUE_CHOSEN"
  shows "\<exists>l' w' b. Learner_HandleMessage env i acc m (l, w) = Inr (l', w')
     \<and> ln_learned l' \<and> ln_log_value l' = pm_chosenValue m
     \<and> w_trace w' = w_trace w @ [Broadcasted b, Wrote (learned_entry m)]
     \<and> pm_chosenValue b = pm_learnedValue m \<and> le_accepted_value (learned_entry m) = pm_chosenValue m"
proof -
  have "pm_instanceId m = i" using assms(1) by (simp add: publication_matches_def)
  then show ?thesis using assms
    by (simp add: Learner_HandleMessage_def HandleOthersPublish_eq Learner_HandleSenderPublish_def
        LearnFromSelf_eq LearnFromOthers_eq TellOthers_def Let_def) (simp add: learned_entry_def)
qed

definition sample_chosen :: PaxMessage where
  "sample_chosen = (new_PaxMessage 1 kMSG_VALUE_CHOSEN)\<lparr> pm_instanceId := 4, pm_proposalId := 1,
     pm_proposingNodeId := 1 \<rparr>"

lemma chosen_value_is_overwritten_witness:
  "\<exists>l' w'. Learner_HandleMessage sample_env 4
       (new_AcceptorState\<lparr> as_accepted_proposal_id := 1, as_accepted_proposer := 1,
          as_accepted_value := ''v'' \<rparr>) sample_chosen (new_PaxLearner, sample_world) = Inr (l', w')
     \<and> ln_learned l' \<and> ln_log_value l' = []"
  using chosen_value_is_overwritten [of sample_env 4 "new_AcceptorState\<lparr> as_accepted_proposal_id := 1,
      as_accepted_proposer := 1, as_accepted_value := ''v'' \<rparr>" sample_chosen new_PaxLearner sample_world]
  by (auto simp: publication_matches_def sample_chosen_def)

lemma is_learning_LearnNew [simp]:
  "ln_is_learning (fst (LearnNew env v i p n b lw)) = ln_is_learning (fst lw)"
  by (cases lw) (simp add: LearnNew_def Let_def)

lemma is_learning_others [simp]:
  "ln_is_learning (fst (HandleOthersPublish env i acc m lw)) = ln_is_learning (fst lw)"
  by (cases lw) (simp add: HandleOthersPublish_eq LearnFromOthers_eq Let_def)

lemma is_learning_self [simp]:
  "ln_is_learning (fst (Learner_HandleSenderPublish env i acc m lw)) = ln_is_learning (fst lw)"
  by (cases lw) (simp add: Learner_HandleSenderPublish_def LearnFromSelf_eq)

lemma never_learning:
  assumes "Learner_HandleMessage env i acc m (l, w) = Inr (l', w')"
  shows "ln_is_learning l' = ln_is_learning l"
proof -
  have sync: "ln_is_learning (fst (HandleSyncValue env i m (l, w))) = ln_is_learning l"
    by (simp add: HandleSyncValue_def LearnFromOthers_eq Let_def)
  have ask: "ln_is_learning (fst (HandleShallILearn env i m (l, w))) = ln_is_learning l"
    by (simp add: HandleShallILearn_def SetPossibleHigherInstanceId_def Let_def)
  have chosen: "ln_is_learning (fst (HandleOthersPublish env i acc m
      (Learner_HandleSenderPublish env i acc m (l, w)))) = ln_is_learning l"
    "ln_is_learning (fst (HandleOthersPublish env i acc m (l, w))) = ln_is_learning l" by simp_all
  have tell: "ln_is_learning l' = ln_is_learning l" if "HandleTellNewInstanceId i m l = Inr l'" for l'
    using that by (auto simp: HandleTellNewInstanceId_def ConfirmLearn_def Let_def
        SetPossibleHigherInstanceId_def split: if_splits)
  have job: "ln_is_learning (HandleConfirmLearn m l) = ln_is_learning l"
    "ln_is_learning (HandleValueAck m l) = ln_is_learning l"
    by (simp_all add: HandleConfirmLearn_def MakeSenderReady_def HandleValueAck_def)
  show ?thesis
    using assms sync ask chosen job
    by (cases "pm_messageType m")
      (auto simp: Learner_HandleMessage_def bind_res_eq_Inr dest: tell)
qed

lemma never_learning_reachable:
  assumes "(lead_step env)\<^sup>*\<^sup>* (lead_start w i) s"
  shows "\<not> ln_is_learning (ls_learner s)"
  using assms
proof (induction rule: rtranclp_induct)
  case base
  show ?case by (simp add: lead_start_def new_PaxLearner_def)
next
  case (step s s')
  from step.hyps(2) show ?case
  proof (cases rule: lead_step.cases)
    case (handler acc m l w)
    with never_learning [OF handler(2)] step.IH show ?thesis by simp
  next
    case (ask l w)
    then show ?thesis by (auto simp: ShallLearn_def Let_def)
  qed (use step.IH in \<open>simp_all add: ClearSendingState_def Learner_NewInstance_def\<close>)
qed

text \<open>
  A learner that is behind cannot ask for the values it lacks. In every state the learner
  can reach, a message faults exactly when a node that is not behind answers about the
  learner's current instance: the handler then locks the mutex that it already holds. (The
  flag that would prevent it is never set.) No other message faults.
\<close>

theorem confirm_learn_deadlocks:
  assumes "(lead_step env)\<^sup>*\<^sup>* (lead_start w0 i0) s"
  shows "Learner_HandleMessage env i acc m (ls_learner s, w) = Inl e \<longleftrightarrow>
     e = SelfDeadlock \<and> pm_messageType m = kMSG_TELL_INSTANCE_ID \<and> pm_instanceId m = i \<and>
     i \<le> pm_leaderInstanceId m"
  using never_learning_reachable [OF assms]
  by (auto simp: Learner_HandleMessage_def HandleTellNewInstanceId_def ConfirmLearn_def Let_def
      SetPossibleHigherInstanceId_def not_less split: MessageType.split)

lemma confirm_learn_deadlocks_witness:
  "Learner_HandleMessage sample_env 4 new_AcceptorState
     ((new_PaxMessage 2 kMSG_TELL_INSTANCE_ID)\<lparr> pm_instanceId := 4, pm_leaderInstanceId := 9 \<rparr>)
     (ls_learner (lead_start sample_world 4), sample_world) = Inl SelfDeadlock"
  using confirm_learn_deadlocks [OF rtranclp.rtrancl_refl, of sample_env 4 new_AcceptorState
      "(new_PaxMessage 2 kMSG_TELL_INSTANCE_ID)\<lparr> pm_instanceId := 4, pm_leaderInstanceId := 9 \<rparr>"
      sample_world 4 sample_world SelfDeadlock]
  by simp

text \<open>
  A synchronised value is stored before it is acknowledged: when the sync message is for
  the current instance the log entry with the message's value is written first; in every case
  exactly one acknowledgement follows, with the current instance number.
\<close>

theorem sync_value_stored_then_acked:
  fixes env :: "'st Env" and acc :: AcceptorState and m :: PaxMessage and i :: instance_id_t
    and l :: PaxLearner and w :: "'st World"
  assumes "pm_messageType m = kMSG_LEARNER_VALUE_SYNC"
  shows "\<exists>l' w' k. Learner_HandleMessage env i acc m (l, w) = Inr (l', w')
     \<and> w_trace w' = w_trace w @ (if pm_instanceId m = i then [Wrote (learned_entry m)] else [])
                     @ [SentTo (pm_senderId m) k]
     \<and> pm_messageType k = kMSG_SYNC_VALUE_ACK \<and> pm_instanceId k = i
     \<and> (if pm_instanceId m = i then ln_learned l' \<and> ln_log_value l' = pm_chosenValue m else l' = l)"
  using assms
  by (simp add: Learner_HandleMessage_def HandleSyncValue_def LearnFromOthers_eq AckLearnValue_def Let_def)

definition sample_sync :: PaxMessage where
  "sample_sync = learned_value_message 4 2 True
     (new_PaxosLogEntry\<lparr> le_accepted_value := ''v'', le_accepted_proposal_id := 1 \<rparr>)"

lemma sample_sync_facts [simp]:
  "pm_messageType sample_sync = kMSG_LEARNER_VALUE_SYNC" "pm_instanceId sample_sync = 4"
  "pm_chosenValue sample_sync = ''v''" "pm_senderId sample_sync = 2"
  by (simp_all add: sample_sync_def learned_value_message_def)

lemma sync_value_stored_then_acked_witness:
  "\<exists>l' w'. Learner_HandleMessage sample_env 4 new_AcceptorState sample_sync
       (new_PaxLearner, sample_world) = Inr (l', w') \<and> ln_log_value l' = ''v''"
  using sync_value_stored_then_acked [of sample_sync sample_env 4 new_AcceptorState
      new_PaxLearner sample_world]
  by (auto simp: sample_sync_facts)

text \<open>
  C16. A learned value travels unchanged. With a storage that keeps its contract and takes the
  write, once a node has learned a value from a message of its current instance, the message
  it later sends for that instance makes a follower at that instance learn the same value,
  and write the same entry; but the follower's acknowledgement goes to the follower itself,
  because the message names its receiver as its sender.
\<close>

theorem learned_value_transfer:
  fixes env :: "'st Env" and env' :: "'st2 Env" and acc' :: AcceptorState
    and l lf :: PaxLearner and w :: "'st World" and wf :: "'st2 World"
  assumes "log_storage (ls_Put (env_storage env)) (ls_Get (env_storage env)) valid good view"
    and "codec_roundtrip env" and "good (w_store w)" and "valid (to_string i)"
    and "\<forall>v. fst (ls_Put (env_storage env) (to_string i) v (w_store w))"
    and "pm_instanceId m = i"
  defines "w1 \<equiv> snd (LearnFromOthers env i m (l, w))"
  shows "\<exists>k. w_trace (SendLearnedValue env i n True w1) = w_trace w1 @ [SentTo n k]
     \<and> (\<exists>l' w' a. Learner_HandleMessage env' i acc' k (lf, wf) = Inr (l', w')
          \<and> ln_learned l' \<and> ln_log_value l' = pm_chosenValue m
          \<and> w_trace w' = w_trace wf @ [Wrote (learned_entry m), SentTo n a]
          \<and> pm_messageType a = kMSG_SYNC_VALUE_ACK)"
proof -
  let ?w = "Publish kEVENT_SHALL_I_LEARN ShallLearnHandler SHALL_LEARN_TIMEOUT w"
  have w1: "w1 = WriteState env (learned_entry m) ?w"
    using assms(6) by (simp add: w1_def LearnFromOthers_eq Let_def)
  have li: "le_instance_id (learned_entry m) = i" using assms(6) by (simp add: learned_entry_def)
  have rd: "fst (ReadState env i w1) = learned_entry m"
    using WriteState_stored [OF assms(1,2), of ?w "learned_entry m"] assms(3-5) by (simp add: w1 li)
  define k where "k = learned_value_message i n True (learned_entry m)"
  have "w_trace (SendLearnedValue env i n True w1) = w_trace w1 @ [SentTo n k]"
    using rd by (simp add: SendLearnedValue_def k_def split: prod.splits)
      (metis ReadState_world(3) fst_conv snd_conv)
  moreover have "learned_entry k = learned_entry m" "pm_chosenValue k = pm_chosenValue m"
      "pm_messageType k = kMSG_LEARNER_VALUE_SYNC" "pm_instanceId k = i" "pm_senderId k = n"
    using assms(6) by (simp_all add: k_def learned_value_message_def learned_entry_def)
  ultimately show ?thesis
    by (simp add: Learner_HandleMessage_def HandleSyncValue_def LearnFromOthers_eq AckLearnValue_def Let_def)
qed

lemma learned_value_transfer_witness:
  "\<exists>k. w_trace (SendLearnedValue sample_env 4 3 True
         (snd (LearnFromOthers sample_env 4 sample_sync (new_PaxLearner, sample_world)))) =
       w_trace (snd (LearnFromOthers sample_env 4 sample_sync (new_PaxLearner, sample_world)))
         @ [SentTo 3 k]"
  using learned_value_transfer [where env = sample_env and valid = "\<lambda>k. True" and
      good = "\<lambda>db. True" and view = "\<lambda>db. db" and w = sample_world and i = 4 and m = sample_sync
      and l = new_PaxLearner and n = 3 and env' = sample_env and acc' = new_AcceptorState
      and lf = new_PaxLearner and wf = sample_world]
  by auto

end
