(* ===== verification/Pax_Controller.thy ===== *)
theory Pax_Controller
  imports Pax_Proposer Pax_Learner
begin

section \<open>The controller (core/controller.cpp, include/sm.hpp)\<close>

text \<open>
  A node is its three players, the instance counter, the queue of received messages and the
  state machine behind a pointer that the program never sets (an option). The state machine is
  the abstract class \<open>Statemachine\<close>: a record of operations over any state. \<open>instance_id_\<close>
  has no initialiser: the node as constructed holds some number, a parameter.

  \<open>HandleMessage\<close> is called again by the proposer through \<open>ProcessChosenValue\<close>; the model's
  recursion is the same, and ends because the message of the inner call is not one a proposer
  answers. The main loop is a function for one round of its thread, with a program counter
  for the three phases, and a step relation that adds the network thread and the clock.
\<close>

record 'm StateMachine =
  sm_Execute :: "instance_id_t \<Rightarrow> string \<Rightarrow> 'm \<Rightarrow> bool \<times> 'm"
  sm_GetSMInstanceId :: "'m \<Rightarrow> instance_id_t"

record 'm PaxController =
  nd_instance_id :: instance_id_t
  nd_proposer :: PaxProposer
  nd_acceptor :: AcceptorState
  nd_learner :: PaxLearner
  nd_msgs :: "PaxMessage SafeQueue"
  nd_sm :: "'m option"

definition HARDCODE_MSG_COUNT_LIMIT :: u64 where "HARDCODE_MSG_COUNT_LIMIT = 1000"

definition new_PaxController :: "instance_id_t \<Rightarrow> 'm option \<Rightarrow> 'm PaxController" where
  "new_PaxController garbage sm = \<lparr> nd_instance_id = garbage, nd_proposer = new_PaxProposer,
     nd_acceptor = new_AcceptorState, nd_learner = new_PaxLearner,
     nd_msgs = new_SafeQueue HARDCODE_MSG_COUNT_LIMIT, nd_sm = sm \<rparr>"

subsection \<open>Handling a message\<close>

definition Controller_InstanceDone ::
  "'m PaxController \<times> 'st World \<Rightarrow> ('m PaxController \<times> 'st World) res" where
  "Controller_InstanceDone nw =
     (case nw of (n, w) \<Rightarrow>
        bind_res (Proposer_InstanceDone (nd_instance_id n) (ln_log_value (nd_learner n))
                    (nd_proposer n, w))
          (\<lambda>(p, w). Inr (n\<lparr> nd_proposer := p \<rparr>, w)))"

definition Controller_NewInstance :: "'m PaxController \<Rightarrow> 'm PaxController" where
  "Controller_NewInstance n =
     n\<lparr> nd_instance_id := nd_instance_id n + 1,
        nd_acceptor := Acceptor_NewInstance (nd_acceptor n),
        nd_proposer := Proposer_NewInstance (nd_proposer n),
        nd_learner := Learner_NewInstance (nd_learner n) \<rparr>"

text \<open>The end of \<open>HandleMessage\<close>: what happens once a value is learned.\<close>

definition execute_learned ::
  "'m StateMachine \<Rightarrow> 'm PaxController \<times> 'st World \<Rightarrow> ('m PaxController \<times> 'st World) res" where
  "execute_learned sm nw =
     (let (n, w) = nw in
      if ln_learned (nd_learner n)
      then (case nd_sm n of
              None \<Rightarrow> Inl NullPointer
            | Some m \<Rightarrow>
                let (_, m) = sm_Execute sm (nd_instance_id n) (ln_log_value (nd_learner n)) m
                in bind_res (Controller_InstanceDone (n\<lparr> nd_sm := Some m \<rparr>, w))
                     (\<lambda>(n, w). Inr (Controller_NewInstance n, w)))
      else Inr (n, w))"

lemma Proposer_HandleMessage_callback:
  assumes "Proposer_HandleMessage env i m pw = (p, w, Some k)"
  shows "pm_messageType m = kMSG_ACCEPT_ACK" and "pm_messageType k = kMSG_VALUE_CHOSEN"
  using assms
  by (cases pw; auto simp: Proposer_HandleMessage_def HandleAcceptAck_def Let_def
      split: MessageType.splits prod.splits if_splits)+

function Controller_HandleMessage ::
  "'st Env \<Rightarrow> 'm StateMachine \<Rightarrow> PaxMessage \<Rightarrow> 'm PaxController \<times> 'st World
     \<Rightarrow> ('m PaxController \<times> 'st World) res" where
  "Controller_HandleMessage env sm message nw =
     (let (n, w) = nw; messageType = pm_messageType message in
      if MessagePlaceHolder messageType then Inr (n, w)
      else bind_res
        (if MessageForLearner messageType then
           bind_res (Learner_HandleMessage env (nd_instance_id n) (nd_acceptor n) message
                      (nd_learner n, w))
             (\<lambda>(l, w). Inr (n\<lparr> nd_learner := l \<rparr>, w))
         else if MessageForProposer messageType then
           (case Proposer_HandleMessage env (nd_instance_id n) message (nd_proposer n, w) of
              (p, w, None) \<Rightarrow> Inr (n\<lparr> nd_proposer := p \<rparr>, w)
            | (p, w, Some chosen) \<Rightarrow>
                Controller_HandleMessage env sm chosen (n\<lparr> nd_proposer := p \<rparr>, w))
         else if MessageForAcceptor messageType then
           (case Acceptor_HandleMessage env (nd_instance_id n) message (nd_acceptor n, w) of
              (a, w) \<Rightarrow> Inr (n\<lparr> nd_acceptor := a \<rparr>, w))
         else Inr (n, w))
        (execute_learned sm))"
  by pat_completeness auto
termination
  by (relation "measure (\<lambda>(env, sm, m, nw). if pm_messageType m = kMSG_ACCEPT_ACK then 1 else 0)")
    (auto dest: Proposer_HandleMessage_callback)

declare Controller_HandleMessage.simps [simp del]

definition AddMessage :: "PaxMessage \<Rightarrow> 'm PaxController \<Rightarrow> 'm PaxController" where
  "AddMessage m n = n\<lparr> nd_msgs := snd (TryAdd m (nd_msgs n)) \<rparr>"

definition TryNewValue ::
  "'st Env \<Rightarrow> 'm PaxController \<times> 'st World \<Rightarrow> ('m PaxController \<times> 'st World) res" where
  "TryNewValue env nw =
     (case nw of (n, w) \<Rightarrow>
      if AnymoreToLearn (nd_instance_id n) (nd_learner n) then Inr (n, w)
      else if \<not> ProposingAuthority (env_options env) then Inr (n, w)
      else bind_res (NewValue env (nd_instance_id n) (nd_proposer n, w))
             (\<lambda>(p, w). Inr (n\<lparr> nd_proposer := p \<rparr>, w)))"

subsection \<open>Start\<close>

text \<open>\<open>for (i = instanceInSM; i < target_instance_id; ++i)\<close>\<close>

function push_loop ::
  "'st Env \<Rightarrow> 'm StateMachine \<Rightarrow> instance_id_t \<Rightarrow> instance_id_t \<Rightarrow> 'm \<times> 'st World \<Rightarrow> 'm \<times> 'st World" where
  "push_loop env sm i target mw =
     (if i < target
      then (let (m, w) = mw;
                (paxos_state, w) = ReadState env i w;
                (_, m) = sm_Execute sm i (le_accepted_value paxos_state) m
            in push_loop env sm (i + 1) target (m, w))
      else mw)"
  by pat_completeness auto
termination
proof (relation "measure (\<lambda>(env, sm, i, target, mw). unat target - unat i)")
  fix i target :: instance_id_t
  assume lt: "i < target"
  have "i < - 1" using lt by (metis word_not_simps(3) not_less_iff_gr_or_eq order_less_trans)
  then show "\<And>(env :: 'st Env) (sm :: 'm StateMachine) mw x y xa ya m m' (w :: 'st World).
      ((env, sm, i + 1, target, (m', w)), env, sm, i, target, mw) \<in>
        measure (\<lambda>(env, sm, i, target, mw). unat target - unat i)"
    using lt by (simp add: unat_plus_one word_less_nat_alt)
qed auto

declare push_loop.simps [simp del]

definition PushSMByState ::
  "'st Env \<Rightarrow> 'm StateMachine \<Rightarrow> instance_id_t \<Rightarrow> 'm PaxController \<times> 'st World
     \<Rightarrow> ('m PaxController \<times> 'st World) res" where
  "PushSMByState env sm target nw =
     (let (n, w) = nw in
      case nd_sm n of
        None \<Rightarrow> Inl NullPointer
      | Some m \<Rightarrow>
          let (m, w) = push_loop env sm (sm_GetSMInstanceId sm m) target (m, w)
          in Inr (n\<lparr> nd_sm := Some m \<rparr>, w))"

definition Controller_Init ::
  "'st Env \<Rightarrow> 'm StateMachine \<Rightarrow> 'm PaxController \<times> 'st World
     \<Rightarrow> ('m PaxController \<times> 'st World) res" where
  "Controller_Init env sm nw =
     (let (n, w) = nw;
          n = n\<lparr> nd_proposer := new_PaxProposer, nd_learner := new_PaxLearner \<rparr>;
          (instanceInState, acc, w) = Acceptor_Init env (new_AcceptorState, w);
          n = n\<lparr> nd_acceptor := acc \<rparr>
      in case nd_sm n of
           None \<Rightarrow> Inl NullPointer
         | Some m \<Rightarrow>
           let instanceInSM = sm_GetSMInstanceId sm m in
           bind_res (if instanceInState > instanceInSM + 1
                     then bind_res (PushSMByState env sm instanceInState (n, w))
                            (\<lambda>(n, w). Inr (n\<lparr> nd_instance_id := instanceInState \<rparr>, w))
                     else Inr (n, w))
             (\<lambda>(n, w).
                let n = (if instanceInState < instanceInSM
                         then n\<lparr> nd_instance_id := instanceInSM + 1 \<rparr> else n);
                    proposalId = as_accepted_proposal_id (nd_acceptor n);
                    n = n\<lparr> nd_proposer := Proposer_Init (proposalId + 1) (nd_proposer n) \<rparr>
                in Inr (n, Learner_Init w)))"

subsection \<open>The main loop\<close>

text \<open>\<open>eventToHandle()\<close>: the callbacks of the players. \<open>DeleteSegmentHandler\<close> belongs to
  another scheduler and does not occur in this one.\<close>

fun call_event ::
  "'st Env \<Rightarrow> EventHandler \<Rightarrow> 'm PaxController \<times> 'st World \<Rightarrow> ('m PaxController \<times> 'st World) res" where
  "call_event env NoHandler nw = Inl BadCall"
| "call_event env (ProposeTimeoutHandler i) (n, w) =
     (case ProposeTimeoutCallback env (nd_instance_id n) i (nd_proposer n, w) of
        (p, w) \<Rightarrow> Inr (n\<lparr> nd_proposer := p \<rparr>, w))"
| "call_event env NewValueTimeoutHandler (n, w) =
     bind_res (NewValueTimeoutCallback (nd_instance_id n) (nd_proposer n, w))
       (\<lambda>(p, w). Inr (n\<lparr> nd_proposer := p \<rparr>, w))"
| "call_event env ShallLearnHandler (n, w) =
     (case ShallLearn env (nd_instance_id n) (nd_learner n, w) of
        (l, w) \<Rightarrow> Inr (n\<lparr> nd_learner := l \<rparr>, w))"
| "call_event env (DeleteSegmentHandler k) nw = Inr nw"

datatype loop_pc = AtDispatch | AtTake | AtTry

text \<open>
  One round of the thread from its program counter: one test of the \<open>while\<close> loop with its
  event, or waiting for a message until the next event time and handling it, or trying a new
  value.
\<close>

fun main_round ::
  "'st Env \<Rightarrow> 'm StateMachine \<Rightarrow> loop_pc \<times> 'm PaxController \<times> 'st World
     \<Rightarrow> (loop_pc \<times> 'm PaxController \<times> 'st World) res" where
  "main_round env sm (AtDispatch, n, w) =
     (case Dispatch (w_now w) (w_sched w) of
        (Some event, s) \<Rightarrow>
          bind_res (call_event env (ev_callback event) (n, w\<lparr> w_sched := s \<rparr>))
            (\<lambda>nw. Inr (AtDispatch, nw))
      | (None, s) \<Rightarrow> Inr (AtTake, n, w\<lparr> w_sched := s \<rparr>))"
| "main_round env sm (AtTake, n, w) =
     bind_res (NextEventTime (w_sched w)) (\<lambda>(_, s).
       let w = w\<lparr> w_sched := s \<rparr> in
       case Take (nd_msgs n) of
         (Some m, q) \<Rightarrow>
           bind_res (Controller_HandleMessage env sm m (n\<lparr> nd_msgs := q \<rparr>, w))
             (\<lambda>nw. Inr (AtTry, nw))
       | (None, q) \<Rightarrow> Inr (AtTry, n\<lparr> nd_msgs := q \<rparr>, w))"
| "main_round env sm (AtTry, n, w) =
     bind_res (TryNewValue env (n, w)) (\<lambda>nw. Inr (AtDispatch, nw))"

inductive main_step ::
  "'st Env \<Rightarrow> 'm StateMachine \<Rightarrow> loop_pc \<times> 'm PaxController \<times> 'st World
     \<Rightarrow> loop_pc \<times> 'm PaxController \<times> 'st World \<Rightarrow> bool" for env sm where
  round: "main_round env sm s = Inr s' \<Longrightarrow> main_step env sm s s'"
| receive: "main_step env sm (pc, n, w) (pc, AddMessage m n, w)"
| tick: "w_now w \<le> t \<Longrightarrow> main_step env sm (pc, n, w) (pc, n, w\<lparr> w_now := t \<rparr>)"

subsection \<open>What a message can do\<close>

lemma execute_learned_idle: "\<not> ln_learned (nd_learner n) \<Longrightarrow> execute_learned sm (n, w) = Inr (n, w)"
  by (simp add: execute_learned_def)

lemma Controller_HandleMessage_eq:
  "Controller_HandleMessage env sm m (n, w) =
     (if is_request m
      then (case Acceptor_HandleMessage env (nd_instance_id n) m (nd_acceptor n, w) of
              (a, w) \<Rightarrow> execute_learned sm (n\<lparr> nd_acceptor := a \<rparr>, w))
      else execute_learned sm (n, w))"
  by (simp add: Controller_HandleMessage.simps [of env sm m "(n, w)"] is_request_def Let_def
      split: prod.splits)

lemma nd_AddMessage [simp]:
  "nd_learner (AddMessage m n) = nd_learner n" "nd_instance_id (AddMessage m n) = nd_instance_id n"
  "nd_proposer (AddMessage m n) = nd_proposer n" "nd_sm (AddMessage m n) = nd_sm n"
  "nd_acceptor (AddMessage m n) = nd_acceptor n"
  by (simp_all add: AddMessage_def)

subsection \<open>The invariant of the running node\<close>

text \<open>The scheduler of a running node holds one event, the learner's request.\<close>

definition only_shall_learn :: "Scheduler \<Rightarrow> bool" where
  "only_shall_learn s \<longleftrightarrow> (\<exists>e. sch_queue s = [e] \<and> ev_type e = kEVENT_SHALL_I_LEARN \<and>
     ev_callback e = ShallLearnHandler \<and> sch_ids s kEVENT_SHALL_I_LEARN = Some (ev_id e))"

definition node_inv :: "instance_id_t \<Rightarrow> 'm \<Rightarrow> loop_pc \<times> 'm PaxController \<times> 'st World \<Rightarrow> bool" where
  "node_inv i m s = (case s of (pc, n, w) \<Rightarrow>
     nd_instance_id n = i \<and> nd_sm n = Some m \<and> \<not> ln_learned (nd_learner n) \<and>
     ln_highest_known_instance_id (nd_learner n) = 0 \<and> pr_prov (nd_proposer n) = None \<and>
     pr_status (nd_proposer n) = ps_kNone \<and> only_shall_learn (w_sched w))"

lemma AddEvent_only:
  "sch_queue s = [] \<Longrightarrow> only_shall_learn (AddEvent ShallLearnHandler t kEVENT_SHALL_I_LEARN s)"
  by (simp add: only_shall_learn_def AddEvent_def Push_empty Let_def)

lemma Dispatch_only:
  assumes "only_shall_learn s" and "Dispatch now s = (r, s')"
  shows "if r = None then s' = s
    else sch_queue s' = [] \<and> map_option ev_callback r = Some ShallLearnHandler"
proof -
  obtain e where e: "sch_queue s = [e]" "ev_type e = kEVENT_SHALL_I_LEARN"
    "ev_callback e = ShallLearnHandler" "sch_ids s kEVENT_SHALL_I_LEARN = Some (ev_id e)"
    using assms(1) by (auto simp: only_shall_learn_def)
  have "dispatch_loop [e] (sch_ids s) = (Some e, [], sch_ids s)"
    using e by (simp add: dispatch_loop.simps [of "[e]"] PopOne_single ids_at_def)
  then show ?thesis using assms(2) e by (auto simp: Dispatch_def split: if_splits)
qed

lemma NextEventTime_only:
  assumes "only_shall_learn s"
  shows "\<exists>t. NextEventTime s = Inr (Some t, s)"
proof -
  obtain e where e: "sch_queue s = [e]" "ev_type e = kEVENT_SHALL_I_LEARN"
    "sch_ids s kEVENT_SHALL_I_LEARN = Some (ev_id e)"
    using assms by (auto simp: only_shall_learn_def)
  have "next_loop [e] (sch_ids s) = Inr (ev_when e, [e], sch_ids s)"
    using e by (simp add: next_loop.simps [of "[e]"] Next_def ids_at_def)
  then show ?thesis using e by (simp add: NextEventTime_def)
qed

lemma w_sched_HandleMessage [simp]:
  "w_sched (snd (Acceptor_HandleMessage env i m (s, w))) = w_sched w"
  by (simp add: HandleMessage_world ReplyProposer_def Let_def)

text \<open>One round, from a state of the invariant.\<close>

lemma Dispatch_round:
  assumes "node_inv i m (AtDispatch, n, w)"
  shows "\<exists>s'. main_round env sm (AtDispatch, n, w) = Inr s' \<and> node_inv i m s' \<and>
    nd_acceptor (fst (snd s')) = nd_acceptor n"
proof -
  have only: "only_shall_learn (w_sched w)" using assms by (simp add: node_inv_def)
  obtain r s1 where d: "Dispatch (w_now w) (w_sched w) = (r, s1)" by force
  note D = Dispatch_only [OF only d]
  show ?thesis
  proof (cases r)
    case None
    with D d assms show ?thesis by (simp add: node_inv_def)
  next
    case (Some e)
    have q: "sch_queue s1 = []" and cb: "ev_callback e = ShallLearnHandler" using D Some by simp_all
    obtain l w1 where sl: "ShallLearn env (nd_instance_id n) (nd_learner n, w\<lparr> w_sched := s1 \<rparr>) = (l, w1)"
      by force
    have "only_shall_learn (w_sched w1)" using sl q by (auto simp: ShallLearn_def AddEvent_only Let_def)
    moreover have "l = (nd_learner n)\<lparr> ln_is_learning := False \<rparr>"
      using sl by (auto simp: ShallLearn_def Let_def)
    ultimately show ?thesis using assms d Some cb sl by (simp add: node_inv_def)
  qed
qed

lemma Take_round:
  assumes "node_inv i m (AtTake, n, w)"
  shows "\<exists>s'. main_round env sm (AtTake, n, w) = Inr s' \<and> node_inv i m s' \<and>
    promised (nd_acceptor n) \<le> promised (nd_acceptor (fst (snd s')))"
proof -
  obtain t where t: "NextEventTime (w_sched w) = Inr (Some t, w_sched w)"
    using NextEventTime_only assms by (auto simp: node_inv_def)
  obtain r q where tk: "Take (nd_msgs n) = (r, q)" by force
  show ?thesis
  proof (cases r)
    case None
    with t tk assms show ?thesis by (simp add: node_inv_def)
  next
    case (Some k)
    obtain a w1 where h: "Acceptor_HandleMessage env i k (nd_acceptor n, w) = (a, w1)" by force
    have a: "a = acceptor_step k (nd_acceptor n)" using HandleMessage_state [of env i k "nd_acceptor n" w] h by simp
    have s1: "w_sched w1 = w_sched w" using w_sched_HandleMessage [of env i k "nd_acceptor n" w] h by simp
    show ?thesis
    proof (cases "is_request k")
      case True
      with t tk Some h s1 a assms voter.rank_step show ?thesis
        by (simp add: node_inv_def Controller_HandleMessage_eq execute_learned_idle)
    next
      case False
      with t tk Some assms show ?thesis
        by (simp add: node_inv_def Controller_HandleMessage_eq execute_learned_idle)
    qed
  qed
qed

lemma Try_round:
  assumes "node_inv i m (AtTry, n, w)"
  shows "main_round env sm (AtTry, n, w) =
    (if ProposingAuthority (env_options env) then Inl NullPointer else Inr (AtDispatch, n, w))"
  using assms by (simp add: node_inv_def TryNewValue_def AnymoreToLearn_def NewValue_def)

lemma main_step_inv:
  assumes "main_step env sm s s'" and "node_inv i m s"
  shows "node_inv i m s' \<and>
    promised (nd_acceptor (fst (snd s))) \<le> promised (nd_acceptor (fst (snd s')))"
  using assms(1)
proof (cases rule: main_step.cases)
  case round
  obtain pc n w where s: "s = (pc, n, w)" by (cases s)
  show ?thesis
  proof (cases pc)
    case AtDispatch
    with Dispatch_round [of i m n w env sm] round assms(2) s show ?thesis by auto
  next
    case AtTake
    with Take_round [of i m n w env sm] round assms(2) s show ?thesis by auto
  next
    case AtTry
    with Try_round [of i m n w env sm] round assms(2) s show ?thesis
      by (auto simp: node_inv_def split: if_splits)
  qed
next
  case (receive pc n w k)
  then show ?thesis using assms(2) by (simp add: node_inv_def)
next
  case (tick w t pc n)
  then show ?thesis using assms(2) by (simp add: node_inv_def)
qed

lemma main_steps_inv:
  assumes "(main_step env sm)\<^sup>*\<^sup>* s s'" and "node_inv i m s"
  shows "node_inv i m s' \<and>
    promised (nd_acceptor (fst (snd s))) \<le> promised (nd_acceptor (fst (snd s')))"
  using assms
proof (induction rule: rtranclp_induct)
  case base
  then show ?case by simp
next
  case (step s1 s2)
  then show ?case using main_step_inv [OF step.hyps(2)] by fastforce
qed

text \<open>What \<open>Init\<close> leaves: the state of the invariant, if it returns.\<close>

lemma Acceptor_Init_sched [simp]:
  "w_sched (snd (snd (Acceptor_Init env (s, w)))) = w_sched w"
  by (simp add: Acceptor_Init_def split: prod.splits) (metis ReadState_world(1) snd_conv)

lemma push_loop_sched: "w_sched (snd (push_loop env sm i t (m, w))) = w_sched w"
proof (induction "unat t - unat i" arbitrary: i m w rule: less_induct)
  case less
  show ?case
  proof (cases "i < t")
    case True
    obtain e w1 where rd: "ReadState env i w = (e, w1)" by force
    obtain b m1 where ex: "sm_Execute sm i (le_accepted_value e) m = (b, m1)" by force
    have "i \<noteq> - 1" using True by auto
    then have "unat (i + 1) = Suc (unat i)" by (simp add: unat_plus_one word_order.not_eq_extremum)
    then have "unat t - unat (i + 1) < unat t - unat i" using True by (simp add: word_less_nat_alt)
    from less [OF this, of m1 w1] have "w_sched (snd (push_loop env sm (i + 1) t (m1, w1))) = w_sched w1" .
    moreover have "w_sched w1 = w_sched w" using ReadState_world(1) [of env i w] rd by simp
    ultimately show ?thesis using True rd ex by (simp add: push_loop.simps [of env sm i t "(m, w)"])
  next
    case False
    then show ?thesis by (simp add: push_loop.simps [of env sm i t "(m, w)"])
  qed
qed

lemma Learner_Init_only:
  "sch_queue (w_sched w) = [] \<Longrightarrow> only_shall_learn (w_sched (Learner_Init w))"
  by (simp add: Learner_Init_def AddEvent_only)

lemma Controller_Init_inv:
  assumes "Controller_Init env sm (new_PaxController g sm0, w0) = Inr (n, w)"
    and "sch_queue (w_sched w0) = []"
  shows "\<exists>m. node_inv (nd_instance_id n) m (AtDispatch, n, w)"
proof -
  obtain st acc w1 where ai: "Acceptor_Init env (new_AcceptorState, w0) = (st, acc, w1)"
    by (metis prod_cases3)
  have w1: "w_sched w1 = w_sched w0" using Acceptor_Init_sched [of env new_AcceptorState w0] ai by simp
  show ?thesis
  proof (cases sm0)
    case None
    with assms(1) ai show ?thesis by (simp add: Controller_Init_def new_PaxController_def)
  next
    case (Some m)
    obtain m2 w2 where pl: "push_loop env sm (sm_GetSMInstanceId sm m) st (m, w1) = (m2, w2)" by force
    have w2: "w_sched w2 = w_sched w1"
      using push_loop_sched [of env sm "sm_GetSMInstanceId sm m" st m w1] pl by simp
    have "only_shall_learn (w_sched (Learner_Init w1))" "only_shall_learn (w_sched (Learner_Init w2))"
      using w1 w2 assms(2) by (simp_all add: Learner_Init_only)
    then show ?thesis using assms(1) ai Some pl
      by (auto simp: Controller_Init_def new_PaxController_def PushSMByState_def node_inv_def
          new_PaxLearner_def new_PaxProposer_def Proposer_Init_def Let_def split: if_splits)
  qed
qed

subsection \<open>Properties\<close>

text \<open>
  C30. Routing. Whatever is delivered to a node whose learner has not learned anything, the
  controller hands propose and accept requests to the acceptor and drops everything else: the
  acknowledgements for the proposer and all messages for the learner leave node and world
  exactly as they were.
\<close>

theorem only_acceptor_is_served:
  assumes "\<not> ln_learned (nd_learner n)"
  shows "Controller_HandleMessage env sm m (n, w) =
    (if pm_messageType m \<in> {kMSG_PROPOSE_BROADCAST, kMSG_ACCEPT_BROADCAST}
     then (let (a, w') = Acceptor_HandleMessage env (nd_instance_id n) m (nd_acceptor n, w)
           in Inr (n\<lparr> nd_acceptor := a \<rparr>, w'))
     else Inr (n, w))"
  using assms by (simp add: Controller_HandleMessage_eq execute_learned_idle is_request_def
      split: prod.splits)

text \<open>A state machine that records what it executes, the instance for trying things out.\<close>

definition recorder :: "(instance_id_t \<times> string) list StateMachine" where
  "recorder = \<lparr> sm_Execute = (\<lambda>i v m. (True, m @ [(i, v)])),
     sm_GetSMInstanceId = (\<lambda>m. if m = [] then 0 else fst (last m)) \<rparr>"

lemma only_acceptor_is_served_witness:
  "Controller_HandleMessage sample_env recorder sample_ack
     (new_PaxController 4 (Some []), sample_world) = Inr (new_PaxController 4 (Some []), sample_world)"
  using only_acceptor_is_served [of "new_PaxController 4 (Some [])" sample_env recorder sample_ack
      sample_world]
  by (simp add: new_PaxController_def new_PaxLearner_def sample_ack_def)

text \<open>
  C11. A running node makes no progress and a member dies. From a node that \<open>Init\<close> started,
  whatever messages arrive and however time passes: the instance number and the state machine
  never change, nothing is learned, the proposer never proposes, and the acceptor's promise
  never goes back. A round of the main loop fails only by trying a new value, and it does so
  every time on a node with the right to propose, by dereferencing null; on other nodes no
  round ever fails.
\<close>

theorem running_node:
  fixes env :: "'st Env" and sm :: "'m StateMachine" and n :: "'m PaxController"
    and w w0 :: "'st World" and s :: "loop_pc \<times> 'm PaxController \<times> 'st World"
  assumes "Controller_Init env sm (new_PaxController g sm0, w0) = Inr (n, w)"
    and "sch_queue (w_sched w0) = []"
    and "(main_step env sm)\<^sup>*\<^sup>* (AtDispatch, n, w) s"
  shows "nd_instance_id (fst (snd s)) = nd_instance_id n \<and> nd_sm (fst (snd s)) = nd_sm n
    \<and> \<not> ln_learned (nd_learner (fst (snd s)))
    \<and> pr_status (nd_proposer (fst (snd s))) = ps_kNone
    \<and> promised (nd_acceptor n) \<le> promised (nd_acceptor (fst (snd s)))
    \<and> (main_round env sm s = Inl e \<longleftrightarrow>
        e = NullPointer \<and> fst s = AtTry \<and> ProposingAuthority (env_options env))"
proof -
  obtain m where "node_inv (nd_instance_id n) m (AtDispatch, n, w)"
    using Controller_Init_inv [OF assms(1,2)] by auto
  note inv = main_steps_inv [OF assms(3) this]
  obtain pc n' w' where s: "s = (pc, n', w')" by (cases s)
  have ninv: "node_inv (nd_instance_id n) m (pc, n', w')" using inv s by simp
  have "main_round env sm s = Inl e \<longleftrightarrow>
      e = NullPointer \<and> pc = AtTry \<and> ProposingAuthority (env_options env)"
  proof (cases pc)
    case AtDispatch
    with Dispatch_round [of _ m n' w' env sm] ninv s show ?thesis by auto
  next
    case AtTake
    with Take_round [of _ m n' w' env sm] ninv s show ?thesis by auto
  next
    case AtTry
    with Try_round [of _ m n' w' env sm] ninv s show ?thesis by auto
  qed
  moreover have "nd_sm n = Some m"
    using Controller_Init_inv [OF assms(1,2)] \<open>node_inv (nd_instance_id n) m (AtDispatch, n, w)\<close>
    by (simp add: node_inv_def)
  ultimately show ?thesis using ninv inv s by (simp add: node_inv_def)
qed

definition started :: "(instance_id_t \<times> string) list PaxController \<times> MemoryDB World" where
  "started = (case Controller_Init sample_env recorder (new_PaxController 4 (Some []), sample_world)
     of Inr nw \<Rightarrow> nw | Inl _ \<Rightarrow> (new_PaxController 4 (Some []), sample_world))"

lemma started_ok:
  "Controller_Init sample_env recorder (new_PaxController 4 (Some []), sample_world) =
     Inr (fst started, snd started)"
  by (simp add: started_def Controller_Init_def new_PaxController_def Acceptor_Init_def ReadState_def
      ReadLog_def DirectMemory_def DirectMemory_Get_def SafeMap_Get_def recorder_def
      new_PaxosLogEntry_def Let_def)

lemma started_eq:
  "started = ((new_PaxController 4 (Some []))\<lparr> nd_proposer := Proposer_Init 1 new_PaxProposer \<rparr>,
     Learner_Init sample_world)"
  by (simp add: started_def Controller_Init_def new_PaxController_def Acceptor_Init_def ReadState_def
      ReadLog_def DirectMemory_def DirectMemory_Get_def SafeMap_Get_def recorder_def
      new_PaxosLogEntry_def AcceptorState_Init_def acceptor_state_defs new_AcceptorState_def
      sample_world_def Let_def)

lemma started_msgs: "sq_queue (nd_msgs (fst started)) = []"
  by (simp add: started_eq new_PaxController_def new_SafeQueue_def)

lemma running_node_witness:
  "\<exists>s. (main_step sample_env recorder)\<^sup>*\<^sup>* (AtDispatch, fst started, snd started) s
     \<and> main_round sample_env recorder s = Inl NullPointer"
proof -
  obtain n w where st: "fst started = n" "snd started = w" by simp
  have only: "only_shall_learn (w_sched w)"
    by (simp add: started_eq Learner_Init_only new_Scheduler_def flip: st)
  have now: "w_now w = 0" by (simp add: started_eq Learner_Init_def flip: st)
  have "\<not> HasTimeout 0 (sch_queue (w_sched w))"
    by (simp add: started_eq Learner_Init_def AddEvent_def new_Scheduler_def Push_empty HasTimeout_def
        SHALL_LEARN_TIMEOUT_def ns_per_s_def Let_def flip: st)
  then have "main_round sample_env recorder (AtDispatch, n, w) = Inr (AtTake, n, w)"
    using now by (simp add: Dispatch_def)
  then have one: "main_step sample_env recorder (AtDispatch, n, w) (AtTake, n, w)"
    by (rule main_step.round)
  obtain t where "NextEventTime (w_sched w) = Inr (Some t, w_sched w)"
    using NextEventTime_only [OF only] by blast
  then have "main_round sample_env recorder (AtTake, n, w) = Inr (AtTry, n, w)"
    using started_msgs st by (simp add: Take_def)
  then have two: "main_step sample_env recorder (AtTake, n, w) (AtTry, n, w)"
    by (rule main_step.round)
  have steps: "(main_step sample_env recorder)\<^sup>*\<^sup>* (AtDispatch, n, w) (AtTry, n, w)"
    using one two by (meson converse_rtranclp_into_rtranclp r_into_rtranclp)
  have "ProposingAuthority (env_options sample_env)"
    by (simp add: ProposingAuthority_def IsMember_def sample_options_def)
  then have "main_round sample_env recorder (AtTry, n, w) = Inl NullPointer"
    using running_node [OF started_ok _ steps [folded st], of NullPointer] by (simp add: new_Scheduler_def st)
  with steps show ?thesis unfolding st by blast
qed

text \<open>
  Starting up. \<open>Init\<close> fails exactly when the state machine is not set (which is always
  so in the program); otherwise the instance number afterwards is the stored one if that is
  more than one ahead of the state machine, the state machine's plus one if it is ahead of
  the stored one, and the indeterminate number of the constructor in between; in the first case
  the state machine was fed the stored values from its own instance on.
\<close>

theorem Controller_Init_instance:
  fixes env :: "'st Env" and sm :: "'m StateMachine" and w :: "'st World"
  defines "stored \<equiv> fst (Acceptor_Init env (new_AcceptorState, w))"
    and "w1 \<equiv> snd (snd (Acceptor_Init env (new_AcceptorState, w)))"
  shows "Controller_Init env sm (new_PaxController g None, w) = Inl NullPointer
    \<and> (\<exists>n w'. Controller_Init env sm (new_PaxController g (Some m), w) = Inr (n, w')
        \<and> nd_instance_id n = (if stored < sm_GetSMInstanceId sm m then sm_GetSMInstanceId sm m + 1
             else if stored > sm_GetSMInstanceId sm m + 1 then stored else g)
        \<and> nd_sm n = Some (if stored > sm_GetSMInstanceId sm m + 1
             then fst (push_loop env sm (sm_GetSMInstanceId sm m) stored (m, w1)) else m))"
proof -
  obtain st acc w1' where ai: "Acceptor_Init env (new_AcceptorState, w) = (st, acc, w1')"
    by (metis prod_cases3)
  obtain m2 w2 where pl: "push_loop env sm (sm_GetSMInstanceId sm m) st (m, w1') = (m2, w2)" by force
  show ?thesis using ai pl
    by (simp add: Controller_Init_def new_PaxController_def PushSMByState_def stored_def w1_def Let_def)
qed

lemma ReadState_mem: "env_storage env = DirectMemory \<Longrightarrow> snd (ReadState env i w) = w"
  by (simp add: ReadState_def ReadLog_def DirectMemory_def DirectMemory_Get_def split: option.split)

lemma push_loop_mem:
  assumes "env_storage env = DirectMemory" and "i < 2 ^ 64"
  shows "push_loop env sm (of_nat i) target (m, w) =
    (fold (\<lambda>k m. snd (sm_Execute sm (of_nat k)
        (le_accepted_value (fst (ReadState env (of_nat k) w))) m)) [i..<unat target] m, w)"
  using assms(2)
proof (induction "unat target - i" arbitrary: i m)
  case 0
  then have "\<not> (of_nat i :: u64) < target"
    by (simp add: word_less_nat_alt unat_of_nat_u64)
  with 0 show ?case by (simp add: push_loop.simps [of env sm "of_nat i" target "(m, w)"])
next
  case (Suc d)
  then have lt: "i < unat target" by simp
  have "unat target < 2 ^ 64" by (rule unat_u64_less)
  then have i1: "Suc i < 2 ^ 64" using lt by simp
  have "snd (ReadState env (of_nat i) w) = w" by (rule ReadState_mem [OF assms(1)])
  then obtain e where e: "ReadState env (of_nat i) w = (e, w)" by (metis prod.collapse)
  obtain b m1 where m1: "sm_Execute sm (of_nat i) (le_accepted_value e) m = (b, m1)" by force
  have "(of_nat i :: u64) < target" using lt Suc.prems by (simp add: word_less_nat_alt unat_of_nat_u64)
  then have "push_loop env sm (of_nat i) target (m, w) = push_loop env sm (of_nat (Suc i)) target (m1, w)"
    by (subst push_loop.simps) (simp add: e m1 add.commute)
  also have "\<dots> = (fold (\<lambda>k m. snd (sm_Execute sm (of_nat k)
      (le_accepted_value (fst (ReadState env (of_nat k) w))) m)) [Suc i..<unat target] m1, w)"
    using Suc.hyps(2) i1 by (intro Suc.hyps(1)) simp_all
  also have "\<dots> = (fold (\<lambda>k m. snd (sm_Execute sm (of_nat k)
      (le_accepted_value (fst (ReadState env (of_nat k) w))) m)) (i # [Suc i..<unat target]) m, w)"
    by (simp add: e m1)
  finally show ?case using lt by (simp only: upt_conv_Cons)
qed



end
