(* ===== verification/Posix_Fs.thy ===== *)
theory Posix_Fs
  imports Pax_Prelude
begin

section \<open>The file system calls that the storage uses\<close>

text \<open>
  A file system as the segment store sees it through \<open>open\<close>, \<open>close\<close>, \<open>lseek\<close>, \<open>read\<close>,
  \<open>write\<close>, \<open>ftruncate\<close>, \<open>fsync\<close>, \<open>access\<close>, \<open>stat\<close>, \<open>mkdir\<close> and \<open>remove\<close>: names lead
  to inodes, inodes to contents, and a descriptor is a slot of a table that holds an inode and
  a position (a new descriptor takes the lowest free slot). Every call takes the next outcome
  from a schedule of faults: it may fail, or transfer fewer bytes than asked; an empty schedule
  is a file system that never fails. What a call returns is what the C function returns, with
  \<open>None\<close> for the -1 of \<open>read\<close>.
\<close>

datatype sys_outcome = SysOk | SysFail | SysShort nat

record FS =
  fs_files :: "(string \<times> nat) list"
  fs_dirs :: "string list"
  fs_data :: "nat \<Rightarrow> string"
  fs_next :: nat
  fs_fds :: "(nat \<times> nat) option list"
  fs_faults :: "sys_outcome list"

type_synonym FD = int

definition outcome :: "FS \<Rightarrow> sys_outcome \<times> FS" where
  "outcome fs = (case fs_faults fs of
       [] \<Rightarrow> (SysOk, fs) | o1 # os \<Rightarrow> (o1, fs\<lparr> fs_faults := os \<rparr>))"

definition fd_at :: "FD \<Rightarrow> FS \<Rightarrow> (nat \<times> nat) option" where
  "fd_at fd fs = (if 0 \<le> fd \<and> nat fd < length (fs_fds fs) then fs_fds fs ! nat fd else None)"

definition set_fd :: "FD \<Rightarrow> (nat \<times> nat) option \<Rightarrow> FS \<Rightarrow> FS" where
  "set_fd fd v fs = fs\<lparr> fs_fds := (fs_fds fs)[nat fd := v] \<rparr>"

fun free_slot :: "(nat \<times> nat) option list \<Rightarrow> nat" where
  "free_slot [] = 0"
| "free_slot (None # xs) = 0"
| "free_slot (Some _ # xs) = Suc (free_slot xs)"

definition alloc_fd :: "nat \<Rightarrow> FS \<Rightarrow> FD \<times> FS" where
  "alloc_fd ino fs =
     (let k = free_slot (fs_fds fs)
      in (int k, fs\<lparr> fs_fds := (if k < length (fs_fds fs) then (fs_fds fs)[k := Some (ino, 0)]
                               else fs_fds fs @ [Some (ino, 0)]) \<rparr>))"

definition sys_open :: "bool \<Rightarrow> string \<Rightarrow> FS \<Rightarrow> FD \<times> FS" where
  "sys_open creat path fs =
     (case outcome fs of
        (SysFail, fs) \<Rightarrow> (- 1, fs)
      | (_, fs) \<Rightarrow>
          if path \<in> set (fs_dirs fs) then (- 1, fs)
          else (case map_of (fs_files fs) path of
             Some ino \<Rightarrow> alloc_fd ino fs
           | None \<Rightarrow>
               if creat
               then alloc_fd (fs_next fs) (fs\<lparr> fs_files := (path, fs_next fs) # fs_files fs,
                      fs_data := (fs_data fs)(fs_next fs := []), fs_next := fs_next fs + 1 \<rparr>)
               else (- 1, fs)))"

definition sys_close :: "FD \<Rightarrow> FS \<Rightarrow> FS" where
  "sys_close fd fs = (case fd_at fd fs of None \<Rightarrow> fs | Some _ \<Rightarrow> set_fd fd None fs)"

definition sys_lseek_set :: "FD \<Rightarrow> int \<Rightarrow> FS \<Rightarrow> int \<times> FS" where
  "sys_lseek_set fd off fs =
     (case outcome fs of
        (SysFail, fs) \<Rightarrow> (- 1, fs)
      | (_, fs) \<Rightarrow>
          (case fd_at fd fs of
             None \<Rightarrow> (- 1, fs)
           | Some (ino, _) \<Rightarrow>
               if off < 0 then (- 1, fs) else (off, set_fd fd (Some (ino, nat off)) fs)))"

definition sys_lseek_end :: "FD \<Rightarrow> FS \<Rightarrow> int \<times> FS" where
  "sys_lseek_end fd fs =
     (case outcome fs of
        (SysFail, fs) \<Rightarrow> (- 1, fs)
      | (_, fs) \<Rightarrow>
          (case fd_at fd fs of
             None \<Rightarrow> (- 1, fs)
           | Some (ino, _) \<Rightarrow>
               (int (length (fs_data fs ino)), set_fd fd (Some (ino, length (fs_data fs ino))) fs)))"

definition short :: "sys_outcome \<Rightarrow> nat \<Rightarrow> nat" where
  "short r n = (case r of SysShort k \<Rightarrow> min k n | _ \<Rightarrow> n)"

definition sys_read :: "FD \<Rightarrow> nat \<Rightarrow> FS \<Rightarrow> string option \<times> FS" where
  "sys_read fd n fs =
     (case outcome fs of
        (SysFail, fs) \<Rightarrow> (None, fs)
      | (r, fs) \<Rightarrow>
          (case fd_at fd fs of
             None \<Rightarrow> (None, fs)
           | Some (ino, pos) \<Rightarrow>
               let bs = take (short r n) (drop pos (fs_data fs ino))
               in (Some bs, set_fd fd (Some (ino, pos + length bs)) fs)))"

definition write_at :: "nat \<Rightarrow> string \<Rightarrow> string \<Rightarrow> string" where
  "write_at pos bs cs = take pos (cs @ replicate (pos - length cs) (char_of (0 :: nat))) @ bs
     @ drop (pos + length bs) cs"

definition sys_write :: "FD \<Rightarrow> string \<Rightarrow> FS \<Rightarrow> int \<times> FS" where
  "sys_write fd bs fs =
     (case outcome fs of
        (SysFail, fs) \<Rightarrow> (- 1, fs)
      | (r, fs) \<Rightarrow>
          (case fd_at fd fs of
             None \<Rightarrow> (- 1, fs)
           | Some (ino, pos) \<Rightarrow>
               let ws = take (short r (length bs)) bs
               in (int (length ws),
                   set_fd fd (Some (ino, pos + length ws))
                     (fs\<lparr> fs_data := (fs_data fs)(ino := write_at pos ws (fs_data fs ino)) \<rparr>))))"

definition sys_ftruncate :: "FD \<Rightarrow> int \<Rightarrow> FS \<Rightarrow> int \<times> FS" where
  "sys_ftruncate fd len fs =
     (case outcome fs of
        (SysFail, fs) \<Rightarrow> (- 1, fs)
      | (_, fs) \<Rightarrow>
          (case fd_at fd fs of
             None \<Rightarrow> (- 1, fs)
           | Some (ino, _) \<Rightarrow>
               if len < 0 then (- 1, fs)
               else (0, fs\<lparr> fs_data := (fs_data fs)(ino := take (nat len)
                      (fs_data fs ino @ replicate (nat len - length (fs_data fs ino)) (char_of (0 :: nat)))) \<rparr>)))"

definition sys_fsync :: "FD \<Rightarrow> FS \<Rightarrow> int \<times> FS" where
  "sys_fsync fd fs =
     (case outcome fs of
        (SysFail, fs) \<Rightarrow> (- 1, fs)
      | (_, fs) \<Rightarrow> (if fd_at fd fs = None then - 1 else 0, fs))"

definition sys_access :: "string \<Rightarrow> FS \<Rightarrow> int \<times> FS" where
  "sys_access path fs =
     (case outcome fs of
        (SysFail, fs) \<Rightarrow> (- 1, fs)
      | (_, fs) \<Rightarrow>
          (if map_of (fs_files fs) path = None \<and> path \<notin> set (fs_dirs fs) then - 1 else 0, fs))"

text \<open>\<open>stat\<close>: \<open>None\<close> when it fails, otherwise whether the path is a directory.\<close>

definition sys_stat :: "string \<Rightarrow> FS \<Rightarrow> bool option \<times> FS" where
  "sys_stat path fs =
     (case outcome fs of
        (SysFail, fs) \<Rightarrow> (None, fs)
      | (_, fs) \<Rightarrow>
          (if path \<in> set (fs_dirs fs) then Some True
           else if map_of (fs_files fs) path \<noteq> None then Some False else None, fs))"

definition sys_mkdir :: "string \<Rightarrow> FS \<Rightarrow> int \<times> FS" where
  "sys_mkdir path fs =
     (case outcome fs of
        (SysFail, fs) \<Rightarrow> (- 1, fs)
      | (_, fs) \<Rightarrow>
          if path \<in> set (fs_dirs fs) \<or> map_of (fs_files fs) path \<noteq> None then (- 1, fs)
          else (0, fs\<lparr> fs_dirs := path # fs_dirs fs \<rparr>))"

definition sys_remove :: "string \<Rightarrow> FS \<Rightarrow> int \<times> FS" where
  "sys_remove path fs =
     (case outcome fs of
        (SysFail, fs) \<Rightarrow> (- 1, fs)
      | (_, fs) \<Rightarrow>
          if map_of (fs_files fs) path = None then (- 1, fs)
          else (0, fs\<lparr> fs_files := filter (\<lambda>f. fst f \<noteq> path) (fs_files fs) \<rparr>))"

subsection \<open>Descriptors\<close>

lemma outcome_eq: "outcome fs = (case fs_faults fs of [] \<Rightarrow> SysOk | r # _ \<Rightarrow> r,
    fs\<lparr> fs_faults := tl (fs_faults fs) \<rparr>)"
  by (simp add: outcome_def split: list.split)

lemma outcome_ok [simp]: "fs_faults fs = [] \<Longrightarrow> outcome fs = (SysOk, fs)"
  by (simp add: outcome_def)

lemma fd_at_faults [simp]: "fd_at fd (fs\<lparr> fs_faults := x \<rparr>) = fd_at fd fs"
  "fd_at fd (fs\<lparr> fs_data := d \<rparr>) = fd_at fd fs" "fd_at fd (fs\<lparr> fs_files := f \<rparr>) = fd_at fd fs"
  "fd_at fd (fs\<lparr> fs_next := n \<rparr>) = fd_at fd fs"
  by (simp_all add: fd_at_def)

lemma free_slot_le: "free_slot xs \<le> length xs"
  by (induction xs rule: free_slot.induct) auto

lemma free_slot_None: "free_slot xs < length xs \<Longrightarrow> xs ! free_slot xs = None"
  by (induction xs rule: free_slot.induct) auto

lemma alloc_fd:
  assumes "alloc_fd ino fs = (fd, fs')"
  shows "0 \<le> fd" and "fd_at fd fs = None"
    and "fd_at fd' fs' = (if fd' = fd then Some (ino, 0) else fd_at fd' fs)"
    and "\<exists>t. fs' = fs\<lparr> fs_fds := t \<rparr>"
proof -
  let ?k = "free_slot (fs_fds fs)"
  have fd: "fd = int ?k" and fs': "fs' = fs\<lparr> fs_fds := (if ?k < length (fs_fds fs)
      then (fs_fds fs)[?k := Some (ino, 0)] else fs_fds fs @ [Some (ino, 0)]) \<rparr>"
    using assms by (auto simp: alloc_fd_def Let_def)
  show "0 \<le> fd" by (simp add: fd)
  show "fd_at fd fs = None" using free_slot_None [of "fs_fds fs"] by (simp add: fd_at_def fd)
  show "\<exists>t. fs' = fs\<lparr> fs_fds := t \<rparr>" using fs' by blast
  have k: "\<not> ?k < length (fs_fds fs) \<Longrightarrow> length (fs_fds fs) = ?k"
    using free_slot_le [of "fs_fds fs"] by simp
  show "fd_at fd' fs' = (if fd' = fd then Some (ino, 0) else fd_at fd' fs)"
  proof (cases "fd' = fd")
    case True
    then show ?thesis using k by (auto simp: fd_at_def fd fs' nth_append)
  next
    case False
    then have "0 \<le> fd' \<Longrightarrow> nat fd' \<noteq> ?k" using fd by auto
    then show ?thesis using False k by (auto simp: fd_at_def fs' nth_append)
  qed
qed

lemma set_fd [simp]:
  assumes "fd_at fd fs \<noteq> None"
  shows "fd_at fd' (set_fd fd v fs) = (if fd' = fd then v else fd_at fd' fs)"
  using assms by (auto simp: fd_at_def set_fd_def split: if_splits)

lemma set_fd_fields [simp]:
  "fs_files (set_fd fd v fs) = fs_files fs" "fs_data (set_fd fd v fs) = fs_data fs"
  "fs_dirs (set_fd fd v fs) = fs_dirs fs" "fs_next (set_fd fd v fs) = fs_next fs"
  "fs_faults (set_fd fd v fs) = fs_faults fs"
  by (simp_all add: set_fd_def)

text \<open>
  A step that changes positions, closes descriptors it opened itself and uses up faults, but
  no name and no content: \<open>quiet\<close>.
\<close>

definition quiet :: "FS \<Rightarrow> FS \<Rightarrow> bool" where
  "quiet fs fs' \<longleftrightarrow> fs_files fs' = fs_files fs \<and> fs_data fs' = fs_data fs \<and>
     fs_dirs fs' = fs_dirs fs \<and> fs_next fs' = fs_next fs \<and>
     (fs_faults fs = [] \<longrightarrow> fs_faults fs' = []) \<and>
     (\<forall>fd. map_option fst (fd_at fd fs') = map_option fst (fd_at fd fs))"

lemma quiet_refl [simp]: "quiet fs fs"
  by (simp add: quiet_def)

lemma quiet_trans: "quiet a b \<Longrightarrow> quiet b c \<Longrightarrow> quiet a c"
  by (simp add: quiet_def)

lemma quiet_faults [simp]: "quiet fs (fs\<lparr> fs_faults := tl (fs_faults fs) \<rparr>)"
  by (simp add: quiet_def)

lemma quiet_set_fd: "fd_at fd fs = Some (ino, p) \<Longrightarrow> quiet fs (set_fd fd (Some (ino, p')) fs)"
  by (simp add: quiet_def)

lemma sys_lseek_set_quiet: "sys_lseek_set fd off fs = (r, fs') \<Longrightarrow> quiet fs fs'"
  by (auto simp: sys_lseek_set_def outcome_eq quiet_def split: sys_outcome.splits option.splits if_splits)

lemma sys_lseek_end_quiet: "sys_lseek_end fd fs = (r, fs') \<Longrightarrow> quiet fs fs'"
  by (auto simp: sys_lseek_end_def outcome_eq quiet_def split: sys_outcome.splits option.splits)

lemma sys_read_quiet: "sys_read fd n fs = (r, fs') \<Longrightarrow> quiet fs fs'"
  by (auto simp: sys_read_def outcome_eq quiet_def Let_def split: sys_outcome.splits option.splits)

lemma sys_fsync_quiet: "sys_fsync fd fs = (r, fs') \<Longrightarrow> quiet fs fs'"
  by (auto simp: sys_fsync_def outcome_eq quiet_def split: sys_outcome.splits)

lemma sys_access_quiet: "sys_access p fs = (r, fs') \<Longrightarrow> quiet fs fs'"
  by (auto simp: sys_access_def outcome_eq quiet_def split: sys_outcome.splits)

text \<open>Where a positive \<open>lseek\<close> leaves the position.\<close>

lemma sys_lseek_set_pos:
  "sys_lseek_set fd off fs = (r, fs') \<Longrightarrow> r = off \<Longrightarrow> 0 \<le> off \<Longrightarrow>
     \<exists>ino p. fd_at fd fs = Some (ino, p) \<and> fd_at fd fs' = Some (ino, nat off)"
  by (auto simp: sys_lseek_set_def outcome_eq split: sys_outcome.splits option.splits if_splits)

text \<open>The same up to one descriptor, and its closing.\<close>

definition quiet_but :: "FD \<Rightarrow> FS \<Rightarrow> FS \<Rightarrow> bool" where
  "quiet_but fd fs fs' \<longleftrightarrow> fs_files fs' = fs_files fs \<and> fs_data fs' = fs_data fs \<and>
     fs_dirs fs' = fs_dirs fs \<and> fs_next fs' = fs_next fs \<and>
     (fs_faults fs = [] \<longrightarrow> fs_faults fs' = []) \<and>
     (\<forall>fd'. fd' \<noteq> fd \<longrightarrow> map_option fst (fd_at fd' fs') = map_option fst (fd_at fd' fs))"

lemma quiet_but_quiet: "quiet_but fd a b \<Longrightarrow> quiet b c \<Longrightarrow> quiet_but fd a c"
  by (simp add: quiet_def quiet_but_def)

lemma fd_at_close: "fd_at fd' (sys_close fd fs) = (if fd' = fd then None else fd_at fd' fs)"
  by (auto simp: sys_close_def split: option.split)

lemma sys_close_fields [simp]:
  "fs_files (sys_close fd fs) = fs_files fs" "fs_data (sys_close fd fs) = fs_data fs"
  "fs_dirs (sys_close fd fs) = fs_dirs fs" "fs_next (sys_close fd fs) = fs_next fs"
  "fs_faults (sys_close fd fs) = fs_faults fs"
  by (simp_all add: sys_close_def split: option.split)

lemma quiet_close: "quiet_but fd fs fs' \<Longrightarrow> fd_at fd fs = None \<Longrightarrow> quiet fs (sys_close fd fs')"
  by (auto simp: quiet_def quiet_but_def fd_at_close)

lemma alloc_quiet:
  assumes "alloc_fd ino fs = (fd, fs')"
  shows "quiet_but fd fs fs' \<and> fd_at fd fs = None \<and> fd_at fd fs' = Some (ino, 0) \<and> 0 \<le> fd"
proof -
  note a = alloc_fd [OF assms]
  from a(4) obtain t where "fs' = fs\<lparr> fs_fds := t \<rparr>" by blast
  then show ?thesis using a(1-3) by (simp add: quiet_but_def)
qed

lemma quiet_but_cong_faults:
  "quiet_but fd (fs\<lparr> fs_faults := tl (fs_faults fs) \<rparr>) fs' \<Longrightarrow> quiet_but fd fs fs'"
  by (auto simp: quiet_but_def)

text \<open>Opening a file that exists.\<close>

lemma sys_open_existing:
  assumes "sys_open creat path fs = (fd, fs')" and "fd \<noteq> - 1"
    and "map_of (fs_files fs) path = Some ino"
  shows "quiet_but fd fs fs' \<and> fd_at fd fs = None \<and> fd_at fd fs' = Some (ino, 0) \<and> 0 \<le> fd"
proof -
  have "alloc_fd ino (fs\<lparr> fs_faults := tl (fs_faults fs) \<rparr>) = (fd, fs')"
    using assms by (auto simp: sys_open_def outcome_eq split: list.splits sys_outcome.splits if_splits)
  from alloc_quiet [OF this] show ?thesis by (auto intro: quiet_but_cong_faults)
qed

lemma sys_open_ok:
  assumes "fs_faults fs = []" and "map_of (fs_files fs) path = Some ino" and "path \<notin> set (fs_dirs fs)"
  shows "\<exists>fd fs'. sys_open creat path fs = (fd, fs') \<and> fd \<noteq> - 1"
proof -
  obtain fd fs' where a: "alloc_fd ino fs = (fd, fs')" by force
  then show ?thesis using alloc_fd(1) [OF a] assms by (simp add: sys_open_def)
qed

lemma sys_open_fail_quiet:
  assumes "sys_open False path fs = (- 1, fs')"
  shows "quiet fs fs'"
proof -
  let ?fs = "fs\<lparr> fs_faults := tl (fs_faults fs) \<rparr>"
  have "alloc_fd ino ?fs \<noteq> (- 1, fs')" for ino
    using alloc_fd(1) [of ino ?fs "- 1" fs'] by auto
  then have "fs' = ?fs"
    using assms by (auto simp: sys_open_def outcome_eq split: sys_outcome.splits if_splits option.splits)
  then show ?thesis by simp
qed

subsection \<open>Contents\<close>

lemma take_write_at: "n \<le> pos \<Longrightarrow> n \<le> length cs \<Longrightarrow> take n (write_at pos ws cs) = take n cs"
  by (simp add: write_at_def)

lemma write_at_region: "take (length ws) (drop pos (write_at pos ws cs)) = ws"
  by (cases "pos \<le> length cs") (simp_all add: write_at_def)

lemma length_write_at: "length (write_at pos ws cs) = max (length cs) (pos + length ws)"
  by (auto simp: write_at_def)

lemma drop_write_at: "drop (pos + length ws) (write_at pos ws cs) = drop (pos + length ws) cs"
  by (cases "pos \<le> length cs") (simp_all add: write_at_def)

text \<open>
  What a write can have done, whatever its outcome: nothing, or a prefix of the bytes is at the
  position; all of them when the count says so.
\<close>

lemma sys_write_cases:
  assumes "sys_write fd bs fs = (n, fs')" and "fd_at fd fs = Some (ino, pos)"
  shows "\<exists>ws. fs_files fs' = fs_files fs \<and> fs_dirs fs' = fs_dirs fs \<and> fs_next fs' = fs_next fs
    \<and> (fs_faults fs = [] \<longrightarrow> fs_faults fs' = [])
    \<and> (\<forall>f. map_option fst (fd_at f fs') = map_option fst (fd_at f fs))
    \<and> (fs_data fs' = fs_data fs \<and> n = - 1 \<or>
       fs_data fs' = (fs_data fs)(ino := write_at pos ws (fs_data fs ino)) \<and> n = int (length ws)
         \<and> ws = take (length ws) bs)"
proof (cases "outcome fs")
  case (Pair r fs1)
  have fs1: "fs1 = fs\<lparr> fs_faults := tl (fs_faults fs) \<rparr>" using Pair by (simp add: outcome_eq)
  show ?thesis
  proof (cases r)
    case SysFail
    with Pair assms fs1 show ?thesis by (auto simp: sys_write_def)
  next
    case SysOk
    with Pair assms fs1 show ?thesis
      by (intro exI [of _ bs]) (auto simp: sys_write_def short_def Let_def)
  next
    case (SysShort k)
    with Pair assms fs1 show ?thesis
      by (intro exI [of _ "take (min k (length bs)) bs"]) (auto simp: sys_write_def short_def Let_def)
  qed
qed

lemma sys_write_ok:
  assumes "fs_faults fs = []" and "fd_at fd fs = Some (ino, pos)"
  shows "\<exists>fs'. sys_write fd bs fs = (int (length bs), fs')"
  using assms by (simp add: sys_write_def short_def Let_def)

lemma sys_ftruncate_cases:
  assumes "sys_ftruncate fd len fs = (r, fs')" and "fd_at fd fs = Some (ino, pos)"
  shows "fs_files fs' = fs_files fs \<and> fs_dirs fs' = fs_dirs fs \<and> fs_next fs' = fs_next fs
    \<and> (fs_faults fs = [] \<longrightarrow> fs_faults fs' = [])
    \<and> (\<forall>f. fd_at f fs' = fd_at f fs)
    \<and> (r = - 1 \<and> fs_data fs' = fs_data fs \<or>
       r = 0 \<and> 0 \<le> len \<and> fs_data fs' = (fs_data fs)(ino := take (nat len)
          (fs_data fs ino @ replicate (nat len - length (fs_data fs ino)) (char_of (0 :: nat)))))"
  using assms
  by (auto simp: sys_ftruncate_def outcome_eq split: sys_outcome.splits if_splits)

text \<open>Reading from a descriptor on a file system that does not fail.\<close>

lemma sys_read_ok:
  assumes "fs_faults fs = []" and "fd_at fd fs = Some (ino, pos)"
  shows "\<exists>fs'. sys_read fd n fs = (Some (take n (drop pos (fs_data fs ino))), fs') \<and> quiet fs fs'
    \<and> fd_at fd fs' = Some (ino, pos + length (take n (drop pos (fs_data fs ino))))"
  using assms by (simp add: sys_read_def short_def Let_def quiet_def)

lemma sys_lseek_set_ok:
  assumes "fs_faults fs = []" and "fd_at fd fs = Some (ino, pos)" and "0 \<le> off"
  shows "\<exists>fs'. sys_lseek_set fd off fs = (off, fs') \<and> quiet fs fs' \<and> fd_at fd fs' = Some (ino, nat off)"
  using assms by (simp add: sys_lseek_set_def quiet_def)

end
