(* ===== verification/Segment_Store.thy ===== *)
theory Segment_Store
  imports Posix_Fs Pax_Scheduler
begin

section \<open>The segment store (storage/segment_store.cpp)\<close>

text \<open>
  Values are appended to segment files, each record the length of key and value, the key and the
  value; the index of a record names the segment, the offset and the checksum of the record.
  A new segment is padded with zeros to its maximal size and cut to its used size when it is
  left. \<open>crc\<close>, zlib's \<open>crc32\<close> from 0, is a parameter.

  Every operation takes and returns the store object and the file system, with the guards and
  early returns of the code. Offsets and sizes are 64-bit words (an \<open>off_t\<close> is read as
  signed), the segment id is a 32-bit word read as signed, the result of \<open>ReplayLog\<close> is an
  \<open>int\<close>. Reading past an object, signed overflow, a failing \<open>assert\<close> and an exception
  that nothing catches are faults.
\<close>

type_synonym SEGMENT_ID = u32
type_synonym CHECKSUM = u64
type_synonym SegmentIndex = string

definition NUL :: char where "NUL = char_of (0 :: nat)"

record SegmentStore =
  sg_db_path :: string
  sg_meta_fd :: FD
  sg_cur_id :: SEGMENT_ID
  sg_cur_fd :: FD
  sg_cur_offset :: u64
  sg_file_size :: u64
  sg_key_len :: u64
  sg_max_size :: u64
  sg_scheduler :: Scheduler

text \<open>The members without initialiser are parameters of the constructor.\<close>

definition new_SegmentStore :: "FD \<Rightarrow> u64 \<Rightarrow> u64 \<Rightarrow> u64 \<Rightarrow> SegmentStore" where
  "new_SegmentStore meta_fd file_size key_len max_size = \<lparr> sg_db_path = [], sg_meta_fd = meta_fd,
     sg_cur_id = - 1, sg_cur_fd = - 1, sg_cur_offset = - 1, sg_file_size = file_size,
     sg_key_len = key_len, sg_max_size = max_size, sg_scheduler = new_Scheduler \<rparr>"

record LogStorageOptions =
  lo_dbPath :: string
  lo_segmentMaxSize :: u64
  lo_indexKeyLength :: u64
  lo_removeAsync :: bool

subsection \<open>Indices\<close>

definition ToSegmentIndex :: "SEGMENT_ID \<Rightarrow> u64 \<Rightarrow> CHECKSUM \<Rightarrow> SegmentIndex" where
  "ToSegmentIndex segment_id offset checksum =
     word_bytes 4 segment_id @ word_bytes 8 offset @ word_bytes 8 checksum"

text \<open>The string is followed by a terminating zero, which belongs to the object.\<close>

definition ParseSegmentIndex :: "SegmentIndex \<Rightarrow> (SEGMENT_ID \<times> u64 \<times> CHECKSUM) res" where
  "ParseSegmentIndex log_index =
     (if length log_index + 1 < 20 then Inl OutOfBounds
      else let s = log_index @ [NUL] in
        Inr (word_of_bytes (take 4 s), word_of_bytes (take 8 (drop 4 s)),
             word_of_bytes (take 8 (drop 12 s))))"

lemma ParseSegmentIndex_ToSegmentIndex [simp]:
  "ParseSegmentIndex (ToSegmentIndex sid off c) = Inr (sid, off, c)"
  by (simp add: ParseSegmentIndex_def ToSegmentIndex_def)

subsection \<open>Paths and files\<close>

definition int_string :: "int \<Rightarrow> string" where
  "int_string i = (if i < 0 then CHR ''-'' # nat_digits (nat (- i)) else nat_digits (nat i))"

definition ToSegmentPath :: "SEGMENT_ID \<Rightarrow> SegmentStore \<Rightarrow> string" where
  "ToSegmentPath segment_id s =
     sg_db_path s @ (if last (sg_db_path s) = CHR ''/'' then [] else ''/'') @ int_string (sint segment_id)"

definition OpenSegment ::
  "SEGMENT_ID \<Rightarrow> bool \<Rightarrow> SegmentStore \<times> FS \<Rightarrow> bool \<times> FD \<times> FS" where
  "OpenSegment segment_id need_create sf =
     (let (s, fs) = sf; (fd, fs) = sys_open need_create (ToSegmentPath segment_id s) fs
      in (fd \<noteq> - 1, fd, fs))"

definition SegmentExists :: "SEGMENT_ID \<Rightarrow> SegmentStore \<times> FS \<Rightarrow> bool \<times> FS" where
  "SegmentExists segment_id sf =
     (let (s, fs) = sf; (r, fs) = sys_access (ToSegmentPath segment_id s) fs in (r \<noteq> - 1, fs))"

definition CreateIfNotExists :: "string \<Rightarrow> FS \<Rightarrow> bool \<times> FS" where
  "CreateIfNotExists path fs =
     (case sys_stat path fs of
        (None, fs) \<Rightarrow> (case sys_mkdir path fs of (r, fs) \<Rightarrow> (r \<noteq> - 1, fs))
      | (Some dir, fs) \<Rightarrow> (dir, fs))"

definition PaddingIfNewSegment :: "SegmentStore \<times> FS \<Rightarrow> int \<times> SegmentStore \<times> FS" where
  "PaddingIfNewSegment sf =
     (let (s, fs) = sf; (fileSize, fs) = sys_lseek_end (sg_cur_fd s) fs in
      if fileSize = - 1 then (- 1, s, fs)
      else if fileSize > 0 then (0, s\<lparr> sg_file_size := word_of_int fileSize \<rparr>, fs)
      else
        let (fileSize, fs) = sys_lseek_set (sg_cur_fd s) (sint (sg_max_size s - 1)) fs in
        if word_of_int fileSize \<noteq> sg_max_size s - 1 then (- 1, s, fs)
        else
          let (write_size, fs) = sys_write (sg_cur_fd s) [NUL] fs in
          if write_size \<noteq> 1 then (- 1, s, fs)
          else
            let (offset, fs) = sys_lseek_set (sg_cur_fd s) 0 fs in
            if offset \<noteq> 0 then (- 1, s, fs)
            else (1, s\<lparr> sg_file_size := sg_max_size s \<rparr>, fs))"

text \<open>
  The metadata file: the new segment id and its checksum. Where the write of the checksum
  fails the function returns -1, which is true.
\<close>

definition UpdateMetadata ::
  "(string \<Rightarrow> u32) \<Rightarrow> SegmentStore \<times> FS \<Rightarrow> (bool \<times> FS) res" where
  "UpdateMetadata crc sf =
     (let (s, fs) = sf; (p, fs) = sys_lseek_set (sg_meta_fd s) 0 fs in
      if p = - 1 then Inr (False, fs)
      else if sint (sg_cur_id s) = 2 ^ 31 - 1 then Inl SignedOverflow
      else
        let tmp_segid = sg_cur_id s + 1;
            (n, fs) = sys_write (sg_meta_fd s) (word_bytes 4 tmp_segid) fs in
        if n \<noteq> 4 then Inr (False, fs)
        else
          let new_seg_crc = (ucast (crc (word_bytes 4 tmp_segid)) :: CHECKSUM);
              (n, fs) = sys_write (sg_meta_fd s) (word_bytes 8 new_seg_crc) fs in
          if n \<noteq> 8 then Inr (True, fs)
          else
            let (ret, fs) = sys_fsync (sg_meta_fd s) fs in
            if ret \<noteq> 0 then Inr (False, fs) else Inr (True, fs))"

definition NewSegment ::
  "(string \<Rightarrow> u32) \<Rightarrow> SegmentStore \<times> FS \<Rightarrow> (bool \<times> SegmentStore \<times> FS) res" where
  "NewSegment crc sf =
     (let (s, fs) = sf in bind_res (UpdateMetadata crc (s, fs)) (\<lambda>(st, fs).
        if \<not> st then Inr (False, s, fs)
        else if sint (sg_cur_id s) = 2 ^ 31 - 1 then Inl SignedOverflow
        else
          let s = s\<lparr> sg_cur_id := sg_cur_id s + 1 \<rparr>;
              (ex, fs) = SegmentExists (sg_cur_id s) (s, fs) in
          if ex then Inr (False, s, fs)
          else
            let (st, fd, fs) = OpenSegment (sg_cur_id s) True (s, fs) in
            if \<not> st then Inr (False, s, fs)
            else
              let s = s\<lparr> sg_cur_fd := fd \<rparr>;
                  (padding_result, s, fs) = PaddingIfNewSegment (s, fs) in
              if padding_result < 0 then Inr (False, s, sys_close (sg_cur_fd s) fs)
              else Inr (True, s\<lparr> sg_cur_offset := 0 \<rparr>, fs)))"

subsection \<open>Append\<close>

text \<open>\<open>memcpy(buffer + 8, key.c_str(), index_key_length_)\<close>: what is copied, if inside the string.\<close>

definition copied_key :: "u64 \<Rightarrow> string \<Rightarrow> string res" where
  "copied_key n key = (if length key + 1 < unat n then Inl OutOfBounds
                       else Inr (take (unat n) (key @ [NUL])))"

text \<open>The part that leaves a segment without room for the record.\<close>

definition append_room :: "(string \<Rightarrow> u32) \<Rightarrow> u64 \<Rightarrow> SegmentStore \<times> FS \<Rightarrow> (bool \<times> SegmentStore \<times> FS) res" where
  "append_room crc buffer_length sf =
     (let (s, fs) = sf in
      if sg_cur_offset s + buffer_length > sg_file_size s then
        (let (r, fs) = sys_ftruncate (sg_cur_fd s) (sint (sg_cur_offset s)) fs in
         if r \<noteq> 0 then Inr (False, s, fs)
         else
           let fs = sys_close (sg_cur_fd s) fs in
           bind_res (NewSegment crc (s, fs)) (\<lambda>(ready, s, fs).
             if \<not> ready then Inr (False, s, fs)
             else Inr (True, s\<lparr> sg_cur_offset := 0 \<rparr>, fs)))
      else Inr (True, s, fs))"

definition Append ::
  "(string \<Rightarrow> u32) \<Rightarrow> string \<Rightarrow> string \<Rightarrow> SegmentStore \<times> FS
     \<Rightarrow> (SegmentIndex option \<times> SegmentStore \<times> FS) res" where
  "Append crc key val sf =
     (let (s, fs) = sf;
          value_size = (of_nat (length val) :: u64);
          key_value_size = sg_key_len s + value_size;
          buffer_length = 8 + key_value_size in
      if buffer_length > sg_max_size s then Inr (None, s, fs)
      else bind_res (append_room crc buffer_length (s, fs)) (\<lambda>(ok, s, fs).
          if \<not> ok then Inr (None, s, fs)
          else bind_res (copied_key (sg_key_len s) key) (\<lambda>k.
            let buffer = word_bytes 8 key_value_size @ k @ val;
                (p, fs) = sys_lseek_set (sg_cur_fd s) (sint (sg_cur_offset s)) fs in
            if word_of_int p \<noteq> sg_cur_offset s then Inr (None, s, fs)
            else
              let (write_length, fs) = sys_write (sg_cur_fd s) buffer fs in
              if (word_of_int write_length :: u64) \<noteq> buffer_length then Inr (None, s, fs)
              else
                let checksum = (ucast (crc (k @ val)) :: CHECKSUM);
                    segment_index = ToSegmentIndex (sg_cur_id s) (sg_cur_offset s) checksum
                in Inr (Some segment_index,
                        s\<lparr> sg_cur_offset := sg_cur_offset s + buffer_length \<rparr>, fs))))"

subsection \<open>Read\<close>

text \<open>The largest size of a \<open>std::string\<close>; asking for more throws.\<close>

definition string_max_size :: nat where "string_max_size = 2 ^ 63 - 1"

text \<open>Key and value if it returns true. The mutex makes the whole body one step.\<close>

definition Segment_Read ::
  "(string \<Rightarrow> u32) \<Rightarrow> SegmentIndex \<Rightarrow> SegmentStore \<times> FS \<Rightarrow> ((string \<times> string) option \<times> FS) res" where
  "Segment_Read crc segment_index sf =
     (let (s, fs) = sf in
      bind_res (ParseSegmentIndex segment_index) (\<lambda>(segment_id, offset, parse_checksum).
        let (st, segment_fd, fs) = OpenSegment segment_id False (s, fs) in
        if \<not> st then Inr (None, fs)
        else
          let (p, fs) = sys_lseek_set segment_fd (sint offset) fs in
          if p \<noteq> sint offset then Inr (None, sys_close segment_fd fs)
          else
            let (bs, fs) = sys_read segment_fd 8 fs in
            if map_option length bs \<noteq> Some 8 then Inr (None, sys_close segment_fd fs)
            else
              let kv_size = (word_of_bytes (the bs) :: u64) in
              if unat kv_size > string_max_size then Inl UncaughtError
              else
                let (kbs, fs) = sys_read segment_fd (unat (sg_key_len s)) fs in
                if (case kbs of None \<Rightarrow> False | Some k \<Rightarrow> length k > unat kv_size) then Inl OutOfBounds
                else if map_option length kbs \<noteq> Some (unat (sg_key_len s))
                then Inr (None, sys_close segment_fd fs)
                else
                  let key_in_segment = the kbs;
                      value_len = kv_size - sg_key_len s;
                      (vbs, fs) = sys_read segment_fd (unat value_len) fs in
                  if map_option length vbs \<noteq> Some (unat value_len)
                  then Inr (None, sys_close segment_fd fs)
                  else
                    let value_in_segment = the vbs;
                        cal_checksum = (ucast (crc (key_in_segment @ value_in_segment)) :: CHECKSUM) in
                    if cal_checksum \<noteq> parse_checksum then Inr (None, sys_close segment_fd fs)
                    else Inr (Some (key_in_segment, value_in_segment), sys_close segment_fd fs)))"

subsection \<open>Replay\<close>

text \<open>
  The result is \<open>offset + sizeof(size_t) + kvSize\<close> as an \<open>int\<close>; the key and the index are
  set only with a positive result. An error of \<open>read\<close> leaves \<open>kvSize\<close> zero.
\<close>

definition to_int :: "u64 \<Rightarrow> int" where
  "to_int x = sint (ucast x :: u32)"

definition ReplayLog ::
  "(string \<Rightarrow> u32) \<Rightarrow> SEGMENT_ID \<Rightarrow> u64 \<Rightarrow> SegmentStore \<times> FS
     \<Rightarrow> (int \<times> (string \<times> SegmentIndex) option \<times> FS) res" where
  "ReplayLog crc segment_id offset sf =
     (let (s, fs) = sf; (ex, fs) = SegmentExists segment_id (s, fs) in
      if \<not> ex then Inr (- 1, None, fs)
      else
        let (_, fd, fs) = OpenSegment segment_id True (s, fs) in
        if fd < 0 then Inr (- 1, None, fs)
        else
          let (pos, fs) = sys_lseek_set fd (sint offset) fs in
          if pos = - 1 then Inr (- 1, None, sys_close fd fs)
          else
            let (bs, fs) = sys_read fd 8 fs;
                kvSize = (case bs of Some b \<Rightarrow> (word_of_bytes b :: u64) | None \<Rightarrow> 0) in
            if (case bs of Some b \<Rightarrow> length b < 8 | None \<Rightarrow> False)
            then Inr (0, None, sys_close fd fs)
            else if kvSize = 0 then Inr (0, None, sys_close fd fs)
            else
              let (buffer, fs) = sys_read fd (unat kvSize) fs in
              if map_option length buffer \<noteq> Some (unat kvSize) then Inr (0, None, sys_close fd fs)
              else if unat (sg_key_len s) > unat kvSize then Inl OutOfBounds
              else
                let index_key = take (unat (sg_key_len s)) (the buffer);
                    checksum = (ucast (crc (the buffer)) :: CHECKSUM);
                    fs = sys_close fd fs
                in Inr (to_int (offset + 8 + kvSize),
                        Some (index_key, ToSegmentIndex segment_id offset checksum), fs))"

text \<open>
  \<open>ReplaySegment\<close> goes from record to record; since the returned \<open>int\<close> need not grow, it is
  a partial function: \<open>None\<close> is a loop that does not end.
\<close>

partial_function (option) replay_loop ::
  "(string \<Rightarrow> u32) \<Rightarrow> SEGMENT_ID \<Rightarrow> u64 \<Rightarrow> SegmentStore \<times> FS \<Rightarrow> (bool \<times> int \<times> FS) res option" where
  "replay_loop crc segment_id replayOffset sf =
     (case ReplayLog crc segment_id replayOffset sf of
        Inl e \<Rightarrow> Some (Inl e)
      | Inr (offset, _, fs) \<Rightarrow>
          (if offset < 0 then Some (Inr (False, offset, fs))
           else if offset = 0 then Some (Inr (True, sint replayOffset, fs))
           else replay_loop crc segment_id (word_of_int offset) (fst sf, fs)))"

definition ReplaySegment ::
  "(string \<Rightarrow> u32) \<Rightarrow> SEGMENT_ID \<Rightarrow> u64 \<Rightarrow> SegmentStore \<times> FS \<Rightarrow> (bool \<times> int \<times> FS) res option" where
  "ReplaySegment crc segment_id offset sf = replay_loop crc segment_id offset sf"

definition GetLastSegmentId :: "SegmentStore \<Rightarrow> SEGMENT_ID" where
  "GetLastSegmentId s = sg_cur_id s"

definition GetCurrentOffset :: "SegmentStore \<Rightarrow> u64" where
  "GetCurrentOffset s = sg_cur_offset s"

subsection \<open>Removal\<close>

definition SEGMENT_CLEAN_DELAY_IN_SECONDS :: int where "SEGMENT_CLEAN_DELAY_IN_SECONDS = 10"

definition RemoveAsync ::
  "SegmentIndex \<Rightarrow> SteadyTime \<Rightarrow> SegmentStore \<times> FS \<Rightarrow> (bool \<times> SegmentStore \<times> FS) res" where
  "RemoveAsync segment_index now sf =
     (let (s, fs) = sf in
      bind_res (ParseSegmentIndex segment_index) (\<lambda>(segment_id, offset, _).
        let (st, segment_fd, fs) = OpenSegment segment_id True (s, fs) in
        if \<not> st then Inr (False, s, fs)
        else
          let (p, fs) = sys_lseek_set segment_fd (sint offset) fs in
          if p = - 1 then Inr (False, s, sys_close segment_fd fs)
          else
            let (bs, fs) = sys_read segment_fd 8 fs in
            if map_option length bs \<noteq> Some 8 then Inr (False, s, sys_close segment_fd fs)
            else
              let kv_size = (word_of_bytes (the bs) :: u64);
                  next_off = offset + 8 + kv_size;
                  (end_off, fs) = sys_lseek_end segment_fd fs;
                  fs = sys_close segment_fd fs in
              if sint next_off = end_off
              then Inr (True, s\<lparr> sg_scheduler := AddEvent (DeleteSegmentHandler segment_id)
                     (now + 1000 * SEGMENT_CLEAN_DELAY_IN_SECONDS * ns_per_ms)
                     kEVENT_CLEAN_SEGMENT (sg_scheduler s) \<rparr>, fs)
              else Inr (True, s, fs)))"

definition DeleteSegment :: "SEGMENT_ID \<Rightarrow> SegmentStore \<times> FS \<Rightarrow> bool \<times> FS" where
  "DeleteSegment segment_id sf =
     (let (s, fs) = sf; (st, fs) = sys_remove (ToSegmentPath segment_id s) fs in (st = 0, fs))"

lemma outcome_files [simp]: "fs_files (snd (outcome fs)) = fs_files fs"
  by (simp add: outcome_def split: list.split)

lemma DeleteSegment_shorter:
  "DeleteSegment segment_id (s, fs) = (True, fs') \<Longrightarrow> length (fs_files fs') < length (fs_files fs)"
proof -
  assume d: "DeleteSegment segment_id (s, fs) = (True, fs')"
  obtain r fs1 where o1: "outcome fs = (r, fs1)" by force
  have f1: "fs_files fs1 = fs_files fs" using outcome_files [of fs] o1 by simp
  let ?p = "ToSegmentPath segment_id s"
  have ne: "map_of (fs_files fs1) ?p \<noteq> None"
    and fs': "fs_files fs' = filter (\<lambda>f. fst f \<noteq> ?p) (fs_files fs1)"
    using d o1 by (auto simp: DeleteSegment_def sys_remove_def split: sys_outcome.splits if_splits)
  then obtain v where "(?p, v) \<in> set (fs_files fs1)" by (auto dest: map_of_SomeD)
  then have "length (filter (\<lambda>f. fst f \<noteq> ?p) (fs_files fs1)) < length (fs_files fs1)"
    by (intro length_filter_less) auto
  with fs' f1 show ?thesis by simp
qed

lemma SegmentExists_files:
  assumes "SegmentExists segment_id (s, fs) = (ex, fs')"
  shows "fs_files fs' = fs_files fs"
proof -
  obtain r fs1 where o1: "outcome fs = (r, fs1)" by force
  then have "fs' = fs1"
    using assms by (auto simp: SegmentExists_def sys_access_def split: sys_outcome.splits)
  then show ?thesis using outcome_files [of fs] o1 by simp
qed

text \<open>The loop of \<open>DeleteSegmentBefore\<close> ends because every round removes a file.\<close>

function delete_loop :: "SEGMENT_ID \<Rightarrow> SegmentStore \<times> FS \<Rightarrow> (bool \<times> FS) res" where
  "delete_loop to_delete sf =
     (case SegmentExists to_delete sf of
        (False, fs) \<Rightarrow> Inr (True, fs)
      | (True, fs) \<Rightarrow>
          (case DeleteSegment to_delete (fst sf, fs) of
             (False, fs) \<Rightarrow> Inr (False, fs)
           | (True, fs) \<Rightarrow>
               if sint to_delete = - (2 ^ 31) then Inl SignedOverflow
               else delete_loop (to_delete - 1) (fst sf, fs)))"
  by pat_completeness auto
termination
proof (relation "measure (\<lambda>(k, s, fs). length (fs_files fs))", goal_cases)
  case 1
  show ?case by simp
next
  case (2 k sf ex fs1 del fs2)
  obtain s fs where sf: "sf = (s, fs)" by force
  have "SegmentExists k (s, fs) = (True, fs1)" and "DeleteSegment k (s, fs1) = (True, fs2)"
    using 2 sf by simp_all
  from SegmentExists_files [OF this(1)] DeleteSegment_shorter [OF this(2)] show ?case
    by (simp add: sf)
qed

declare delete_loop.simps [simp del]

definition DeleteSegmentBefore :: "SEGMENT_ID \<Rightarrow> SegmentStore \<times> FS \<Rightarrow> (bool \<times> FS) res" where
  "DeleteSegmentBefore segment_id sf =
     (if sint segment_id \<ge> sint (sg_cur_id (fst sf)) then Inr (False, snd sf)
      else delete_loop segment_id sf)"

text \<open>The destructor closes the current segment; the metadata file stays open.\<close>

definition SegmentStore_destroy :: "SegmentStore \<times> FS \<Rightarrow> FS" where
  "SegmentStore_destroy sf =
     (let (s, fs) = sf in if sg_cur_fd s \<noteq> - 1 then sys_close (sg_cur_fd s) fs else fs)"

subsection \<open>Init\<close>

text \<open>
  The second component of the result says whether the clean-up thread is started. The eight
  bytes of the stored checksum are read into a four-byte object; the comparison of checksums,
  which needs all eight bytes, is never reached without that overflow.
\<close>

definition SEGMENT_STORE_DIR :: string where "SEGMENT_STORE_DIR = ''segment''"
definition METADATA_FILE :: string where "METADATA_FILE = ''.metadata''"

definition slash :: "string \<Rightarrow> string" where
  "slash dbPath = (if last dbPath = CHR ''/'' then [] else ''/'')"

definition Segment_Init ::
  "(string \<Rightarrow> u32) \<Rightarrow> LogStorageOptions \<Rightarrow> SegmentStore \<times> FS
     \<Rightarrow> (bool \<times> bool \<times> SegmentStore \<times> FS) res option" where
  "Segment_Init crc options sf =
     (let (s, fs) = sf; dbPath = lo_dbPath options in
      if sg_db_path s \<noteq> [] then Some (Inr (False, False, s, fs))
      else if lo_indexKeyLength options = 0 then Some (Inr (False, False, s, fs))
      else if dbPath = [] then Some (Inl OutOfBounds)
      else
        let s = s\<lparr> sg_db_path := dbPath @ slash dbPath @ SEGMENT_STORE_DIR,
                  sg_key_len := lo_indexKeyLength options \<rparr>;
            (ok, fs) = CreateIfNotExists (sg_db_path s) fs in
        if \<not> ok then Some (Inr (False, False, s, fs))
        else
          let path = sg_db_path s @ slash dbPath @ METADATA_FILE;
              (meta_fd, fs) = sys_open True path fs;
              s = s\<lparr> sg_meta_fd := meta_fd \<rparr> in
          if meta_fd = - 1 then Some (Inr (False, False, s, fs))
          else
            let (head_pos, fs) = sys_lseek_set meta_fd 0 fs in
            if head_pos = - 1 then Some (Inr (False, False, s, fs))
            else
              let (bs, fs) = sys_read meta_fd 4 fs;
                  got = (case bs of Some b \<Rightarrow> b | None \<Rightarrow> []);
                  s = s\<lparr> sg_cur_id := (if bs = Some [] then 0
                         else word_of_bytes (got @ drop (length got) (word_bytes 4 (sg_cur_id s)))) \<rparr> in
              if bs \<noteq> Some [] \<and> map_option length bs \<noteq> Some 4 then Some (Inr (False, False, s, fs))
              else
                let (cs, fs) = sys_read meta_fd 8 fs in
                if (case cs of Some c \<Rightarrow> 4 < length c | None \<Rightarrow> False) then Some (Inl OutOfBounds)
                else
                  let (st, fd, fs) = OpenSegment (sg_cur_id s) True (s, fs) in
                  if \<not> st then Some (Inr (False, False, s, fs))
                  else
                    let s = s\<lparr> sg_cur_fd := fd, sg_max_size := lo_segmentMaxSize options \<rparr>;
                        (padding_result, s, fs) = PaddingIfNewSegment (s, fs) in
                    if padding_result < 0 then Some (Inr (False, False, s, fs))
                    else if padding_result = 1 then
                      let (offset, fs) = sys_lseek_set (sg_cur_fd s) 0 fs;
                          s = s\<lparr> sg_cur_offset := 0 \<rparr> in
                      if offset \<noteq> 0 then Some (Inr (False, False, s, fs))
                      else Some (Inr (True, lo_removeAsync options, s, fs))
                    else
                      (case ReplaySegment crc (sg_cur_id s) 0 (s, fs) of
                         None \<Rightarrow> None
                       | Some (Inl e) \<Rightarrow> Some (Inl e)
                       | Some (Inr (replay_res, offset, fs)) \<Rightarrow>
                           let s = s\<lparr> sg_cur_offset := word_of_int offset \<rparr> in
                           if \<not> replay_res then Some (Inl AssertFailed)
                           else Some (Inr (True, lo_removeAsync options, s, fs))))"

end
