(* ===== verification/Segment_Safety.thy ===== *)
theory Segment_Safety
  imports Segment_Store
begin

section \<open>What the segment store keeps, whatever the file system does\<close>

text \<open>
  The invariant \<open>seg_inv\<close> of a store and its file system, and the records \<open>stored\<close> in it.
  Every call of \<open>Append\<close> keeps both, under any schedule of failing and short calls, and the
  index that it returns is that of a stored record. The lemmas follow the calls: what a call can
  change is a relation \<open>touches\<close> that names one inode and the prefix of it that stays.
\<close>

subsection \<open>Paths\<close>

lemma minus_not_in_digits: "CHR ''-'' \<notin> set (nat_digits n)"
proof (induction n rule: nat_digits.induct)
  case (1 n)
  have d: "char_of (48 + m) \<noteq> CHR ''-''" if "m < 10" for m :: nat
  proof
    assume "char_of (48 + m) = CHR ''-''"
    then have "of_char (char_of (48 + m) :: char) = (of_char (CHR ''-'') :: nat)" by simp
    then show False using that by simp
  qed
  show ?case
    using 1 d [of n] d [of "n mod 10"] by (subst nat_digits.simps) auto
qed

lemma nat_digits_inject: "nat_digits a = nat_digits b \<Longrightarrow> a = b"
  by (metis digits_val_nat_digits)

lemma int_string_inject: "int_string a = int_string b \<Longrightarrow> a = b"
  using minus_not_in_digits [of "nat a"] minus_not_in_digits [of "nat b"]
  by (auto simp: int_string_def split: if_splits dest: nat_digits_inject)
     (metis list.set_intros(1))+

lemma ToSegmentPath_inject: "ToSegmentPath a s = ToSegmentPath b s \<Longrightarrow> a = b"
  by (auto simp: ToSegmentPath_def dest: int_string_inject intro: signed_word_eqI)

lemma ToSegmentPath_cong: "sg_db_path s' = sg_db_path s \<Longrightarrow> ToSegmentPath a s' = ToSegmentPath a s"
  by (simp add: ToSegmentPath_def)

subsection \<open>What a call can change\<close>

definition touches :: "nat \<Rightarrow> nat \<Rightarrow> FS \<Rightarrow> FS \<Rightarrow> bool" where
  "touches ino n fs fs' \<longleftrightarrow> fs_files fs' = fs_files fs \<and> fs_dirs fs' = fs_dirs fs \<and>
     fs_next fs' = fs_next fs \<and> (fs_faults fs = [] \<longrightarrow> fs_faults fs' = []) \<and>
     (\<forall>fd. map_option fst (fd_at fd fs') = map_option fst (fd_at fd fs)) \<and>
     (\<forall>i. i \<noteq> ino \<longrightarrow> fs_data fs' i = fs_data fs i) \<and>
     (n \<le> length (fs_data fs ino) \<longrightarrow> take n (fs_data fs' ino) = take n (fs_data fs ino))"

lemma touches_quiet: "quiet fs fs' \<Longrightarrow> touches ino n fs fs'"
  by (simp add: quiet_def touches_def)

lemma touches_refl [simp]: "touches ino n fs fs"
  by (simp add: touches_def)

lemma touches_trans:
  assumes "touches ino n a b" and "touches ino n b c"
  shows "touches ino n a c"
proof -
  have "n \<le> length (fs_data b ino)" if "n \<le> length (fs_data a ino)"
  proof -
    have "take n (fs_data b ino) = take n (fs_data a ino)"
      using assms(1) that by (simp add: touches_def)
    then have "length (take n (fs_data b ino)) = n" using that by simp
    then show ?thesis by simp
  qed
  with assms show ?thesis by (simp add: touches_def)
qed

lemma touches_write:
  assumes "sys_write fd bs fs = (r, fs')" and "fd_at fd fs = Some (ino, pos)" and "n \<le> pos"
  shows "touches ino n fs fs'"
proof -
  obtain ws where "fs_files fs' = fs_files fs \<and> fs_dirs fs' = fs_dirs fs \<and> fs_next fs' = fs_next fs
    \<and> (fs_faults fs = [] \<longrightarrow> fs_faults fs' = [])
    \<and> (\<forall>f. map_option fst (fd_at f fs') = map_option fst (fd_at f fs))"
    and "fs_data fs' = fs_data fs \<or> fs_data fs' = (fs_data fs)(ino := write_at pos ws (fs_data fs ino))"
    using sys_write_cases [OF assms(1,2)] by blast
  then show ?thesis using assms(3) by (auto simp: touches_def take_write_at)
qed

lemma touches_ftruncate:
  assumes "sys_ftruncate fd len fs = (r, fs')" and "fd_at fd fs = Some (ino, pos)" and "n \<le> nat len"
  shows "touches ino n fs fs'"
  using sys_ftruncate_cases [OF assms(1,2)] assms(3) by (auto simp: touches_def)

lemma touches_fd:
  assumes "touches ino n fs fs'"
  shows "fd_at fd fs' = None \<longleftrightarrow> fd_at fd fs = None"
    and "fd_at fd fs = Some (i, p) \<Longrightarrow> \<exists>p'. fd_at fd fs' = Some (i, p')"
proof -
  have e: "map_option fst (fd_at fd fs') = map_option fst (fd_at fd fs)"
    using assms by (simp add: touches_def)
  show "fd_at fd fs' = None \<longleftrightarrow> fd_at fd fs = None"
    using e by (cases "fd_at fd fs"; cases "fd_at fd fs'") auto
  show "fd_at fd fs = Some (i, p) \<Longrightarrow> \<exists>p'. fd_at fd fs' = Some (i, p')"
    using e by (cases "fd_at fd fs'") auto
qed

lemma write_without_fd: "fd_at fd fs = None \<Longrightarrow> sys_write fd bs fs = (r, fs') \<Longrightarrow> r = - 1 \<and> quiet fs fs'"
  by (auto simp: sys_write_def outcome_eq split: sys_outcome.splits)

lemma ftruncate_without_fd:
  "fd_at fd fs = None \<Longrightarrow> sys_ftruncate fd len fs = (r, fs') \<Longrightarrow> r = - 1 \<and> quiet fs fs'"
  by (auto simp: sys_ftruncate_def outcome_eq split: sys_outcome.splits)

lemma lseek_without_fd:
  "fd_at fd fs = None \<Longrightarrow> sys_lseek_set fd off fs = (r, fs') \<Longrightarrow> r = - 1 \<and> quiet fs fs'"
  by (auto simp: sys_lseek_set_def outcome_eq split: sys_outcome.splits)

text \<open>The metadata file, and the padding of a new segment.\<close>

lemma UpdateMetadata_touches:
  assumes "UpdateMetadata crc (s, fs) = Inr (b, fs')" and m: "fd_at (sg_meta_fd s) fs = Some (mino, mp)"
  shows "touches mino 0 fs fs'"
proof -
  let ?fd = "sg_meta_fd s"
  obtain p fs1 where 1: "sys_lseek_set ?fd 0 fs = (p, fs1)" by force
  obtain n2 fs2 where 2: "sys_write ?fd (word_bytes 4 (sg_cur_id s + 1)) fs1 = (n2, fs2)" by force
  obtain n3 fs3 where 3: "sys_write ?fd
      (word_bytes 8 (ucast (crc (word_bytes 4 (sg_cur_id s + 1))) :: u64)) fs2 = (n3, fs3)" by force
  obtain n4 fs4 where 4: "sys_fsync ?fd fs3 = (n4, fs4)" by force
  have t1: "touches mino 0 fs fs1" using sys_lseek_set_quiet [OF 1] by (rule touches_quiet)
  obtain p1 where m1: "fd_at ?fd fs1 = Some (mino, p1)" using touches_fd(2) [OF t1 m] by blast
  have t2: "touches mino 0 fs1 fs2" using touches_write [OF 2 m1] by simp
  obtain p2 where m2: "fd_at ?fd fs2 = Some (mino, p2)" using touches_fd(2) [OF t2 m1] by blast
  have t3: "touches mino 0 fs2 fs3" using touches_write [OF 3 m2] by simp
  have t4: "touches mino 0 fs3 fs4" using sys_fsync_quiet [OF 4] by (rule touches_quiet)
  note t = t1 touches_trans [OF t1 t2] touches_trans [OF touches_trans [OF t1 t2] t3]
    touches_trans [OF touches_trans [OF touches_trans [OF t1 t2] t3] t4]
  have "fs' \<in> {fs1, fs2, fs3, fs4}"
    using assms(1) 1 2 3 4 by (auto simp: UpdateMetadata_def Let_def split: if_splits)
  with t show ?thesis by auto
qed

lemma PaddingIfNewSegment_touches:
  assumes "PaddingIfNewSegment (s, fs) = (r, s', fs')" and c: "fd_at (sg_cur_fd s) fs = Some (ino, p)"
  shows "touches ino 0 fs fs'"
    and "\<exists>z. s' = s\<lparr> sg_file_size := z \<rparr> \<and> (r = 1 \<longrightarrow> z = sg_max_size s)
      \<and> (0 < r \<longrightarrow> r = 1) \<and> (r < 0 \<longrightarrow> z = sg_file_size s)"
    and "fs_data fs ino = [] \<Longrightarrow> r \<noteq> 0"
proof -
  let ?fd = "sg_cur_fd s"
  obtain n1 fs1 where 1: "sys_lseek_end ?fd fs = (n1, fs1)" by force
  obtain n2 fs2 where 2: "sys_lseek_set ?fd (sint (sg_max_size s - 1)) fs1 = (n2, fs2)" by force
  obtain n3 fs3 where 3: "sys_write ?fd [NUL] fs2 = (n3, fs3)" by force
  obtain n4 fs4 where 4: "sys_lseek_set ?fd 0 fs3 = (n4, fs4)" by force
  have t1: "touches ino 0 fs fs1" using sys_lseek_end_quiet [OF 1] by (rule touches_quiet)
  obtain p1 where c1: "fd_at ?fd fs1 = Some (ino, p1)" using touches_fd(2) [OF t1 c] by blast
  have t2: "touches ino 0 fs1 fs2" using sys_lseek_set_quiet [OF 2] by (rule touches_quiet)
  obtain p2 where c2: "fd_at ?fd fs2 = Some (ino, p2)" using touches_fd(2) [OF t2 c1] by blast
  have t3: "touches ino 0 fs2 fs3" using touches_write [OF 3 c2] by simp
  have t4: "touches ino 0 fs3 fs4" using sys_lseek_set_quiet [OF 4] by (rule touches_quiet)
  note t = t1 touches_trans [OF t1 t2] touches_trans [OF touches_trans [OF t1 t2] t3]
    touches_trans [OF touches_trans [OF touches_trans [OF t1 t2] t3] t4]
  have "fs' \<in> {fs1, fs2, fs3, fs4}"
    using assms(1) 1 2 3 4 by (auto simp: PaddingIfNewSegment_def Let_def split: if_splits)
  with t show "touches ino 0 fs fs'" by auto
  show "\<exists>z. s' = s\<lparr> sg_file_size := z \<rparr> \<and> (r = 1 \<longrightarrow> z = sg_max_size s)
      \<and> (0 < r \<longrightarrow> r = 1) \<and> (r < 0 \<longrightarrow> z = sg_file_size s)"
    using assms(1) 1 2 3 4
    by (auto simp: PaddingIfNewSegment_def Let_def split: if_splits
        intro: exI [of _ "sg_file_size s"] exI [of _ "sg_max_size s"])
  show "r \<noteq> 0" if "fs_data fs ino = []"
  proof -
    have "n1 = - 1 \<or> n1 = 0"
      using 1 c that by (auto simp: sys_lseek_end_def outcome_eq split: sys_outcome.splits)
    then show ?thesis
      using assms(1) 1 2 3 4 by (auto simp: PaddingIfNewSegment_def Let_def split: if_splits)
  qed
qed

subsection \<open>The invariant\<close>

definition rec_bytes :: "string \<Rightarrow> string \<Rightarrow> string" where
  "rec_bytes k v = word_bytes 8 (of_nat (length k + length v) :: u64) @ k @ v"

lemma length_rec_bytes [simp]: "length (rec_bytes k v) = 8 + length k + length v"
  by (simp add: rec_bytes_def)

text \<open>
  The current descriptor is closed (after a failed change of segment) or holds the current
  segment; no segment with a higher number exists; the metadata file is no segment.
\<close>

definition seg_inv :: "SegmentStore \<times> FS \<Rightarrow> bool" where
  "seg_inv sf = (case sf of (s, fs) \<Rightarrow>
     (\<exists>mino p. fd_at (sg_meta_fd s) fs = Some (mino, p) \<and> mino < fs_next fs \<and>
        (\<forall>id. map_of (fs_files fs) (ToSegmentPath id s) \<noteq> Some mino)) \<and>
     (\<forall>p q i. map_of (fs_files fs) p = Some i \<longrightarrow> map_of (fs_files fs) q = Some i \<longrightarrow> p = q) \<and>
     (\<forall>p i. map_of (fs_files fs) p = Some i \<longrightarrow> i < fs_next fs) \<and>
     (\<forall>ino p. fd_at (sg_cur_fd s) fs = Some (ino, p) \<longrightarrow>
        map_of (fs_files fs) (ToSegmentPath (sg_cur_id s) s) = Some ino \<and>
        unat (sg_cur_offset s) \<le> length (fs_data fs ino)) \<and>
     (\<forall>id. sint (sg_cur_id s) < sint id \<longrightarrow> map_of (fs_files fs) (ToSegmentPath id s) = None) \<and>
     (\<forall>id. ToSegmentPath id s \<notin> set (fs_dirs fs)) \<and>
     sg_cur_offset s \<le> sg_file_size s \<and> unat (sg_file_size s) < 2 ^ 62 \<and>
     unat (sg_max_size s) < 2 ^ 62 \<and> unat (sg_key_len s) < 2 ^ 62)"

definition stored :: "(string \<Rightarrow> u32) \<Rightarrow> SegmentStore \<times> FS \<Rightarrow> SegmentIndex \<Rightarrow> string \<Rightarrow> string \<Rightarrow> bool" where
  "stored crc sf idx k v = (case sf of (s, fs) \<Rightarrow>
     \<exists>id off ino. idx = ToSegmentIndex id off (ucast (crc (k @ v))) \<and>
       map_of (fs_files fs) (ToSegmentPath id s) = Some ino \<and>
       length k = unat (sg_key_len s) \<and> unat off + (8 + length k + length v) < 2 ^ 63 \<and>
       take (8 + length k + length v) (drop (unat off) (fs_data fs ino)) = rec_bytes k v \<and>
       (\<forall>p. fd_at (sg_cur_fd s) fs = Some (ino, p) \<longrightarrow>
          unat off + (8 + length k + length v) \<le> unat (sg_cur_offset s)))"

text \<open>A change of store and file system that keeps both, and the configuration.\<close>

definition keeps :: "(string \<Rightarrow> u32) \<Rightarrow> SegmentStore \<times> FS \<Rightarrow> SegmentStore \<times> FS \<Rightarrow> bool" where
  "keeps crc a b \<longleftrightarrow> seg_inv b \<and> (\<forall>idx k v. stored crc a idx k v \<longrightarrow> stored crc b idx k v) \<and>
     sg_db_path (fst b) = sg_db_path (fst a) \<and> sg_key_len (fst b) = sg_key_len (fst a) \<and>
     sg_max_size (fst b) = sg_max_size (fst a) \<and> sg_meta_fd (fst b) = sg_meta_fd (fst a) \<and>
     (fs_faults (snd a) = [] \<longrightarrow> fs_faults (snd b) = [])"

lemma keeps_trans: "keeps crc a b \<Longrightarrow> keeps crc b c \<Longrightarrow> keeps crc a c"
  by (simp add: keeps_def)

lemma keeps_refl: "seg_inv a \<Longrightarrow> keeps crc a a"
  by (simp add: keeps_def)

lemma region_kept:
  assumes "n \<le> length d \<Longrightarrow> take n d' = take n d" and "take m (drop i d) = b" and "length b = m"
    and "0 < m" and "i + m \<le> n" and "n \<le> length d"
  shows "take m (drop i d') = b"
proof -
  have "take m (drop i d') = drop i (take (m + i) (take n d'))"
    using assms(5) by (simp add: take_drop min_def add.commute)
  also have "\<dots> = drop i (take (m + i) (take n d))" using assms(1,6) by simp
  also have "\<dots> = b" using assms(2,5) by (simp add: take_drop min_def add.commute)
  finally show ?thesis .
qed

text \<open>Touching no segment, or only the current one beyond the current offset.\<close>

lemma touches_keeps:
  assumes i: "seg_inv (s, fs)" and t: "touches ino n fs fs'"
    and c: "(\<forall>id. map_of (fs_files fs) (ToSegmentPath id s) \<noteq> Some ino) \<or>
            (\<exists>p. fd_at (sg_cur_fd s) fs = Some (ino, p)) \<and> n = unat (sg_cur_offset s)"
  shows "keeps crc (s, fs) (s, fs')"
proof -
  have fd: "fd_at fd fs' = Some (j, p) \<Longrightarrow> \<exists>p. fd_at fd fs = Some (j, p)" for fd j p
    using touches_fd(1) [OF t, of fd] touches_fd(2) [OF t, of fd] by (cases "fd_at fd fs") force+
  have len: "unat (sg_cur_offset s) \<le> length (fs_data fs' j)"
    if "fd_at (sg_cur_fd s) fs = Some (j, p)" for j p
  proof (cases "j = ino")
    case False
    then have "fs_data fs' j = fs_data fs j" using t by (simp add: touches_def)
    with i that show ?thesis by (auto simp: seg_inv_def)
  next
    case True
    have l: "unat (sg_cur_offset s) \<le> length (fs_data fs j)" using i that by (auto simp: seg_inv_def)
    moreover have "n = unat (sg_cur_offset s)" using c that True i by (auto simp: seg_inv_def)
    ultimately have "take n (fs_data fs' j) = take n (fs_data fs j)"
      using t True by (simp add: touches_def)
    then have "length (take n (fs_data fs' j)) = n" using l \<open>n = _\<close> by simp
    then show ?thesis using \<open>n = _\<close> by simp
  qed
  have inv: "seg_inv (s, fs')"
  proof -
    have f: "fs_files fs' = fs_files fs" "fs_dirs fs' = fs_dirs fs" "fs_next fs' = fs_next fs"
      using t by (simp_all add: touches_def)
    obtain mino p where m: "fd_at (sg_meta_fd s) fs = Some (mino, p)" "mino < fs_next fs"
      "\<forall>id. map_of (fs_files fs) (ToSegmentPath id s) \<noteq> Some mino"
      using i unfolding seg_inv_def prod.case by blast
    obtain p' where "fd_at (sg_meta_fd s) fs' = Some (mino, p')"
      using touches_fd(2) [OF t m(1)] by blast
    with m have 1: "\<exists>mino p. fd_at (sg_meta_fd s) fs' = Some (mino, p) \<and> mino < fs_next fs \<and>
        (\<forall>id. map_of (fs_files fs) (ToSegmentPath id s) \<noteq> Some mino)" by blast
    have 2: "\<forall>ino p. fd_at (sg_cur_fd s) fs' = Some (ino, p) \<longrightarrow>
        map_of (fs_files fs) (ToSegmentPath (sg_cur_id s) s) = Some ino \<and>
        unat (sg_cur_offset s) \<le> length (fs_data fs' ino)"
    proof (intro allI impI)
      fix j p assume "fd_at (sg_cur_fd s) fs' = Some (j, p)"
      then obtain p' where p': "fd_at (sg_cur_fd s) fs = Some (j, p')" using fd by blast
      with i len [OF p'] show "map_of (fs_files fs) (ToSegmentPath (sg_cur_id s) s) = Some j \<and>
        unat (sg_cur_offset s) \<le> length (fs_data fs' j)" by (simp add: seg_inv_def)
    qed
    show ?thesis
      using i unfolding seg_inv_def prod.case f
      by (intro conjI 1 2) (elim conjE, assumption)+
  qed
  have st: "stored crc (s, fs') idx k v" if st: "stored crc (s, fs) idx k v" for idx k v
  proof -
    obtain id off j where o1: "idx = ToSegmentIndex id off (ucast (crc (k @ v)))"
      "map_of (fs_files fs) (ToSegmentPath id s) = Some j" "length k = unat (sg_key_len s)"
      "unat off + (8 + length k + length v) < 2 ^ 63"
      "take (8 + length k + length v) (drop (unat off) (fs_data fs j)) = rec_bytes k v"
      "\<forall>p. fd_at (sg_cur_fd s) fs = Some (j, p) \<longrightarrow>
         unat off + (8 + length k + length v) \<le> unat (sg_cur_offset s)"
      using st unfolding stored_def prod.case by blast
    have "take (8 + length k + length v) (drop (unat off) (fs_data fs' j)) = rec_bytes k v"
    proof (cases "j = ino")
      case False
      then show ?thesis using t o1(5) by (simp add: touches_def)
    next
      case True
      with c o1(2) obtain p where p: "fd_at (sg_cur_fd s) fs = Some (j, p)" "n = unat (sg_cur_offset s)"
        by blast
      have "n \<le> length (fs_data fs j)" using i p by (auto simp: seg_inv_def)
      then show ?thesis
        using region_kept [of n "fs_data fs j" "fs_data fs' j" _ "unat off" "rec_bytes k v"] t True p o1(5,6)
        by (simp add: touches_def)
    qed
    moreover have "\<forall>p. fd_at (sg_cur_fd s) fs' = Some (j, p) \<longrightarrow>
         unat off + (8 + length k + length v) \<le> unat (sg_cur_offset s)"
      using fd o1(6) by blast
    moreover have "map_of (fs_files fs') (ToSegmentPath id s) = Some j"
      using t o1(2) by (simp add: touches_def)
    ultimately show ?thesis using o1(1,3,4) unfolding stored_def prod.case by blast
  qed
  from inv st t show ?thesis by (simp add: keeps_def touches_def)
qed

lemma quiet_keeps:
  assumes "seg_inv (s, fs)" and "quiet fs fs'"
  shows "keeps crc (s, fs) (s, fs')"
proof -
  have "map_of (fs_files fs) p \<noteq> Some (fs_next fs)" for p
    using assms(1) less_irrefl unfolding seg_inv_def prod.case by blast
  then show ?thesis using touches_keeps [OF assms(1) touches_quiet [OF assms(2)]] by blast
qed

subsection \<open>A new segment\<close>

text \<open>Store fields that neither predicate looks at, when no descriptor of a segment is open.\<close>

lemma seg_invD:
  assumes "seg_inv (s, fs)"
  shows "map_of (fs_files fs) p = Some i \<Longrightarrow> map_of (fs_files fs) q = Some i \<Longrightarrow> p = q"
    and "map_of (fs_files fs) p = Some i \<Longrightarrow> i < fs_next fs"
    and "fd_at (sg_cur_fd s) fs = Some (ino, pos) \<Longrightarrow>
       map_of (fs_files fs) (ToSegmentPath (sg_cur_id s) s) = Some ino \<and>
       unat (sg_cur_offset s) \<le> length (fs_data fs ino)"
    and "sint (sg_cur_id s) < sint sid \<Longrightarrow> map_of (fs_files fs) (ToSegmentPath sid s) = None"
    and "ToSegmentPath sid s \<notin> set (fs_dirs fs)"
    and "sg_cur_offset s \<le> sg_file_size s" and "unat (sg_file_size s) < 2 ^ 62"
    and "unat (sg_max_size s) < 2 ^ 62" and "unat (sg_key_len s) < 2 ^ 62"
    and "\<exists>mino p. fd_at (sg_meta_fd s) fs = Some (mino, p) \<and> mino < fs_next fs \<and>
        (\<forall>id. map_of (fs_files fs) (ToSegmentPath id s) \<noteq> Some mino)"
  using assms unfolding seg_inv_def prod.case by blast+

lemma sint_plus_one: "sint (x :: u32) \<noteq> 2 ^ 31 - 1 \<Longrightarrow> sint (x + 1) = sint x + 1"
proof -
  assume "sint x \<noteq> 2 ^ 31 - 1"
  then have "sint x + 1 < 2 ^ 31" using sint_lt [of x] by simp
  moreover have "- (2 ^ 31) \<le> sint x + 1" using sint_ge [of x] by simp
  ultimately show "sint (x + 1) = sint x + 1"
    by (simp add: sint_word_ariths signed_take_bit_int_eq_self)
qed

text \<open>Closing the current segment.\<close>

lemma close_keeps:
  assumes i: "seg_inv (s, fs)"
  shows "keeps crc (s, fs) (s, sys_close (sg_cur_fd s) fs)"
    and "fd_at (sg_cur_fd s) (sys_close (sg_cur_fd s) fs) = None"
proof -
  let ?fs = "sys_close (sg_cur_fd s) fs"
  obtain mino p where m: "fd_at (sg_meta_fd s) fs = Some (mino, p)" "mino < fs_next fs"
      "\<forall>id. map_of (fs_files fs) (ToSegmentPath id s) \<noteq> Some mino"
    using seg_invD(10) [OF i] by blast
  have "sg_meta_fd s \<noteq> sg_cur_fd s" using seg_invD(3) [OF i] m by auto
  with m(1) have m': "fd_at (sg_meta_fd s) ?fs = Some (mino, p)" by (simp add: fd_at_close)
  show n: "fd_at (sg_cur_fd s) ?fs = None" by (simp add: fd_at_close)
  have "seg_inv (s, ?fs)"
    using i m m' n unfolding seg_inv_def prod.case sys_close_fields by fastforce
  moreover have "stored crc (s, fs) idx k v \<Longrightarrow> stored crc (s, ?fs) idx k v" for idx k v
    using n unfolding stored_def prod.case sys_close_fields by fastforce
  ultimately show "keeps crc (s, fs) (s, ?fs)" by (simp add: keeps_def)
qed

text \<open>
  With the current segment closed, the number can go up, and a descriptor of a fresh file
  becomes the current one.
\<close>

lemma next_id_keeps:
  assumes i: "seg_inv (s, fs)" and n: "fd_at (sg_cur_fd s) fs = None"
    and o: "sint (sg_cur_id s) \<noteq> 2 ^ 31 - 1"
  shows "keeps crc (s, fs) (s\<lparr> sg_cur_id := sg_cur_id s + 1 \<rparr>, fs)"
    and "map_of (fs_files fs) (ToSegmentPath (sg_cur_id s + 1) s) = None"
proof -
  let ?s = "s\<lparr> sg_cur_id := sg_cur_id s + 1 \<rparr>"
  have p: "ToSegmentPath id ?s = ToSegmentPath id s" for id by (simp add: ToSegmentPath_def)
  have c: "sint (sg_cur_id s + 1) = sint (sg_cur_id s) + 1" by (rule sint_plus_one [OF o])
  show "map_of (fs_files fs) (ToSegmentPath (sg_cur_id s + 1) s) = None"
    using c by (intro seg_invD(4) [OF i]) simp
  have "seg_inv (?s, fs)"
    using i n c by (simp add: seg_inv_def p)
  moreover have "stored crc (s, fs) idx k v \<Longrightarrow> stored crc (?s, fs) idx k v" for idx k v
    by (simp add: stored_def p)
  ultimately show "keeps crc (s, fs) (?s, fs)" by (simp add: keeps_def)
qed

text \<open>A file that is created by opening it.\<close>

lemma sys_open_fresh:
  assumes o: "sys_open True path fs = (fd, fs')" and f: "map_of (fs_files fs) path = None"
    and d: "path \<notin> set (fs_dirs fs)"
  shows "fd = - 1 \<and> quiet fs fs' \<and> fs_faults fs \<noteq> [] \<or>
    fd_at fd fs = None \<and> fd_at fd fs' = Some (fs_next fs, 0) \<and> 0 \<le> fd \<and>
    fs_files fs' = (path, fs_next fs) # fs_files fs \<and> fs_dirs fs' = fs_dirs fs \<and>
    fs_data fs' = (fs_data fs)(fs_next fs := []) \<and> fs_next fs' = fs_next fs + 1 \<and>
    (fs_faults fs = [] \<longrightarrow> fs_faults fs' = []) \<and>
    (\<forall>fd'. fd' \<noteq> fd \<longrightarrow> map_option fst (fd_at fd' fs') = map_option fst (fd_at fd' fs))"
proof (cases "fst (outcome fs) = SysFail")
  case True
  with o show ?thesis by (auto simp: sys_open_def outcome_eq quiet_def split: list.splits)
next
  case False
  let ?fs = "(fs\<lparr> fs_faults := tl (fs_faults fs) \<rparr>)\<lparr> fs_files := (path, fs_next fs) # fs_files fs,
      fs_data := (fs_data fs)(fs_next fs := []), fs_next := fs_next fs + 1 \<rparr>"
  have "alloc_fd (fs_next fs) ?fs = (fd, fs')"
    using o f d False by (auto simp: sys_open_def outcome_eq split: sys_outcome.splits)
  from alloc_quiet [OF this] show ?thesis by (auto simp: quiet_but_def)
qed

lemma open_keeps:
  assumes i: "seg_inv (s, fs)" and o: "OpenSegment (sg_cur_id s) True (s, fs) = (st, fd, fs')"
    and f: "map_of (fs_files fs) (ToSegmentPath (sg_cur_id s) s) = None"
    and n: "fd_at (sg_cur_fd s) fs = None"
  shows "\<not> st \<and> quiet fs fs' \<and> fs_faults fs \<noteq> [] \<or>
     st \<and> keeps crc (s, fs)
            (s\<lparr> sg_cur_fd := fd, sg_cur_offset := 0, sg_file_size := sg_max_size s \<rparr>, fs') \<and>
     fd_at fd fs' = Some (fs_next fs, 0) \<and> fs_data fs' (fs_next fs) = []"
proof (cases st)
  case False
  then have "fd = - 1" and "sys_open True (ToSegmentPath (sg_cur_id s) s) fs = (fd, fs')"
    using o by (simp_all add: OpenSegment_def split: prod.splits)
  with sys_open_fresh [OF this(2) f seg_invD(5) [OF i]] False show ?thesis by auto
next
  case True
  let ?p = "ToSegmentPath (sg_cur_id s) s"
  let ?s = "s\<lparr> sg_cur_fd := fd, sg_cur_offset := 0, sg_file_size := sg_max_size s \<rparr>"
  have path: "ToSegmentPath a ?s = ToSegmentPath a s" for a by (simp add: ToSegmentPath_def)
  have "fd \<noteq> - 1" and "sys_open True ?p fs = (fd, fs')"
    using o True by (simp_all add: OpenSegment_def split: prod.splits)
  with sys_open_fresh [OF this(2) f seg_invD(5) [OF i]]
  have a: "fd_at fd fs = None" "fd_at fd fs' = Some (fs_next fs, 0)"
      "fs_files fs' = (?p, fs_next fs) # fs_files fs" "fs_dirs fs' = fs_dirs fs"
      "fs_data fs' = (fs_data fs)(fs_next fs := [])" "fs_next fs' = fs_next fs + 1"
      "fs_faults fs = [] \<longrightarrow> fs_faults fs' = []"
      "\<forall>fd'. fd' \<noteq> fd \<longrightarrow> map_option fst (fd_at fd' fs') = map_option fst (fd_at fd' fs)"
    by auto
  note next_less = seg_invD(2) [OF i]
  obtain mino p where m: "fd_at (sg_meta_fd s) fs = Some (mino, p)" "mino < fs_next fs"
      "\<forall>id. map_of (fs_files fs) (ToSegmentPath id s) \<noteq> Some mino"
    using seg_invD(10) [OF i] by blast
  have "sg_meta_fd s \<noteq> fd" using m(1) a(1) by auto
  then have "map_option fst (fd_at (sg_meta_fd s) fs') = Some mino" using a(8) m(1) by simp
  then obtain p' where m': "fd_at (sg_meta_fd s) fs' = Some (mino, p')" by auto
  have inj: "p = q" if "map_of (fs_files fs') p = Some j" "map_of (fs_files fs') q = Some j" for p q j
    using that next_less less_irrefl seg_invD(1) [OF i] unfolding a(3)
    by (auto split: if_splits)
  have "seg_inv (?s, fs')"
    unfolding seg_inv_def prod.case path
  proof (intro conjI)
    show "\<exists>mino p. fd_at (sg_meta_fd ?s) fs' = Some (mino, p) \<and> mino < fs_next fs' \<and>
        (\<forall>id. map_of (fs_files fs') (ToSegmentPath id s) \<noteq> Some mino)"
      using m m' a by auto
    show "\<forall>p q j. map_of (fs_files fs') p = Some j \<longrightarrow> map_of (fs_files fs') q = Some j \<longrightarrow> p = q"
      using inj by blast
    show "\<forall>p j. map_of (fs_files fs') p = Some j \<longrightarrow> j < fs_next fs'"
      using next_less a by (auto simp: less_Suc_eq)
    show "\<forall>id. sint (sg_cur_id ?s) < sint id \<longrightarrow> map_of (fs_files fs') (ToSegmentPath id s) = None"
      using seg_invD(4) [OF i] a(3) by (auto dest: ToSegmentPath_inject)
    show "\<forall>ino p. fd_at (sg_cur_fd ?s) fs' = Some (ino, p) \<longrightarrow>
        map_of (fs_files fs') (ToSegmentPath (sg_cur_id ?s) s) = Some ino \<and>
        unat (sg_cur_offset ?s) \<le> length (fs_data fs' ino)"
      using a by simp
  qed (use seg_invD(5,8,9) [OF i] a(4) in simp_all)
  moreover have "stored crc (?s, fs') idx k v" if st: "stored crc (s, fs) idx k v" for idx k v
  proof -
    obtain id off j where o1: "idx = ToSegmentIndex id off (ucast (crc (k @ v)))"
      "map_of (fs_files fs) (ToSegmentPath id s) = Some j" "length k = unat (sg_key_len s)"
      "unat off + (8 + length k + length v) < 2 ^ 63"
      "take (8 + length k + length v) (drop (unat off) (fs_data fs j)) = rec_bytes k v"
      using st unfolding stored_def prod.case by blast
    have j: "j \<noteq> fs_next fs" using next_less [OF o1(2)] by simp
    have "map_of (fs_files fs') (ToSegmentPath id s) = Some j" using o1(2) f a(3) by auto
    then show ?thesis using o1 j a(2,5) unfolding stored_def prod.case path
      by (intro exI [of _ id] exI [of _ off] exI [of _ j]) simp
  qed
  ultimately show ?thesis using True a by (simp add: keeps_def)
qed

text \<open>Offset and size do not matter while no segment is open.\<close>

lemma closed_keeps:
  assumes "seg_inv (s, fs)" and "fd_at (sg_cur_fd s) fs = None"
    and "off \<le> z" and "unat z < 2 ^ 62"
  shows "keeps crc (s, fs) (s\<lparr> sg_cur_offset := off, sg_file_size := z \<rparr>, fs)"
  using assms by (simp add: keeps_def seg_inv_def stored_def ToSegmentPath_def)

lemma NewSegment_keeps:
  assumes i: "seg_inv (s, fs)" and n: "fd_at (sg_cur_fd s) fs = None"
    and r: "NewSegment crc (s, fs) = Inr (b, s', fs')"
  shows "keeps crc (s, fs) (s', fs') \<and>
    (b \<longrightarrow> sg_cur_offset s' = 0 \<and> sg_file_size s' = sg_max_size s \<and> fd_at (sg_cur_fd s') fs' \<noteq> None)"
proof -
  obtain mino mp where m: "fd_at (sg_meta_fd s) fs = Some (mino, mp)" "mino < fs_next fs"
      "\<forall>id. map_of (fs_files fs) (ToSegmentPath id s) \<noteq> Some mino"
    using seg_invD(10) [OF i] by blast
  obtain st fs1 where u: "UpdateMetadata crc (s, fs) = Inr (st, fs1)"
    using r by (auto simp: NewSegment_def bind_res_eq_Inr)
  note t1 = UpdateMetadata_touches [OF u m(1)]
  have k1: "keeps crc (s, fs) (s, fs1)" using touches_keeps [OF i t1] m(3) by blast
  have n1: "fd_at (sg_cur_fd s) fs1 = None" using n touches_fd(1) [OF t1] by simp
  show ?thesis
  proof (cases "st \<and> sint (sg_cur_id s) \<noteq> 2 ^ 31 - 1")
    case False
    with r u have "\<not> b \<and> s' = s \<and> fs' = fs1"
      by (auto simp: NewSegment_def split: if_splits)
    with k1 show ?thesis by simp
  next
    case True
    let ?s = "s\<lparr> sg_cur_id := sg_cur_id s + 1 \<rparr>"
    have i1: "seg_inv (s, fs1)" using k1 by (simp add: keeps_def)
    have o: "sint (sg_cur_id s) \<noteq> 2 ^ 31 - 1" using True by simp
    note k2 = keeps_trans [OF k1 next_id_keeps(1) [OF i1 n1 o]]
    have f1: "map_of (fs_files fs1) (ToSegmentPath (sg_cur_id ?s) ?s) = None"
      using next_id_keeps(2) [OF i1 n1 o] by (simp add: ToSegmentPath_def)
    obtain ex fs2 where e: "SegmentExists (sg_cur_id ?s) (?s, fs1) = (ex, fs2)" by force
    have q2: "quiet fs1 fs2"
      using e sys_access_quiet by (auto simp: SegmentExists_def split: prod.splits)
    have i2: "seg_inv (?s, fs1)" using k2 by (simp add: keeps_def)
    note k3 = keeps_trans [OF k2 quiet_keeps [OF i2 q2]]
    have i3: "seg_inv (?s, fs2)" using k3 by (simp add: keeps_def)
    have n2: "fd_at (sg_cur_fd ?s) fs2 = None"
      using n1 touches_fd(1) [OF touches_quiet [OF q2]] by simp
    have f2: "map_of (fs_files fs2) (ToSegmentPath (sg_cur_id ?s) ?s) = None"
      using f1 q2 by (simp add: quiet_def)
    obtain st3 fd fs3 where op: "OpenSegment (sg_cur_id ?s) True (?s, fs2) = (st3, fd, fs3)"
      by (metis prod_cases3)
    show ?thesis
    proof (cases "\<not> ex \<and> st3")
      case False
      have "\<not> st3 \<Longrightarrow> quiet fs2 fs3" using open_keeps [OF i3 op f2 n2] by auto
      then have "\<not> b \<and> s' = ?s \<and> quiet fs2 fs'"
        using r u True e op False by (auto simp: NewSegment_def Let_def split: if_splits)
      then show ?thesis using keeps_trans [OF k3 quiet_keeps [OF i3]] by simp
    next
      case False2: True
      let ?t = "?s\<lparr> sg_cur_fd := fd, sg_cur_offset := 0, sg_file_size := sg_max_size s \<rparr>"
      have k4: "keeps crc (?s, fs2) (?t, fs3)" and fd: "fd_at fd fs3 = Some (fs_next fs2, 0)"
        and em: "fs_data fs3 (fs_next fs2) = []"
        using open_keeps [OF i3 op f2 n2, of crc] False2 by simp_all
      let ?u = "?s\<lparr> sg_cur_fd := fd \<rparr>"
      obtain pr s4 fs4 where pd: "PaddingIfNewSegment (?u, fs3) = (pr, s4, fs4)"
        by (metis prod_cases3)
      have fdu: "fd_at (sg_cur_fd ?u) fs3 = Some (fs_next fs2, 0)" using fd by simp
      note p1 = PaddingIfNewSegment_touches(1) [OF pd fdu]
      from PaddingIfNewSegment_touches(2) [OF pd fdu] obtain z
        where z: "s4 = ?u\<lparr> sg_file_size := z \<rparr>" "pr = 1 \<longrightarrow> z = sg_max_size ?u" "0 < pr \<longrightarrow> pr = 1"
          "pr < 0 \<longrightarrow> z = sg_file_size ?u" by blast
      have pr: "pr \<noteq> 0" using PaddingIfNewSegment_touches(3) [OF pd fdu em] .
      have it: "seg_inv (?t, fs3)" using k4 by (simp add: keeps_def)
      have kt: "keeps crc (?t, fs3) (?t, fs4)"
        by (rule touches_keeps [OF it p1]) (use fd in simp)
      note k5 = keeps_trans [OF keeps_trans [OF k3 k4] kt]
      show ?thesis
      proof (cases "pr < 0")
        case True
        have res: "\<not> b \<and> s' = s4 \<and> fs' = sys_close fd fs4"
          using r u \<open>st \<and> _\<close> e op False2 pd True z(1) by (simp add: NewSegment_def Let_def)
        have i4: "seg_inv (?t, fs4)" using k5 by (simp add: keeps_def)
        have k6: "keeps crc (s, fs) (?t, fs')" and c: "fd_at (sg_cur_fd ?t) fs' = None"
          using keeps_trans [OF k5 close_keeps(1) [OF i4]] close_keeps(2) [OF i4] res by simp_all
        have i6: "seg_inv (?t, fs')" using k6 by (simp add: keeps_def)
        have eq: "s' = ?t\<lparr> sg_cur_offset := sg_cur_offset s, sg_file_size := sg_file_size s \<rparr>"
          using res z True by simp
        have "keeps crc (s, fs) (s', fs')" unfolding eq
          by (rule keeps_trans [OF k6 closed_keeps [OF i6 c seg_invD(6,7) [OF i]]])
        then show ?thesis using res by simp
      next
        case False
        then have "pr = 1" using pr z(3) by simp
        then have "b \<and> s' = ?t \<and> fs' = fs4"
          using r u \<open>st \<and> _\<close> e op False2 pd False z(1,2)
          by (cases s) (auto simp: NewSegment_def Let_def)
        with k5 fd touches_fd(1) [OF p1, of fd] show ?thesis by simp
      qed
    qed
  qed
qed

subsection \<open>Append\<close>

lemma sint_small: "unat (w :: u64) < 2 ^ 63 \<Longrightarrow> sint w = int (unat w)"
proof -
  assume "unat w < 2 ^ 63"
  then have "int (unat w) < int (2 ^ 63)" by (simp only: of_nat_less_iff)
  moreover have ui: "uint w = int (unat w)" by simp
  ultimately have u: "uint w < 2 ^ 63" by (metis of_nat_numeral of_nat_power)
  moreover have "- (2 ^ 63) \<le> uint w" using unsigned_greater_eq [of w] by (rule order_trans [rotated]) simp
  ultimately have "signed_take_bit 63 (uint w) = uint w"
    by (intro signed_take_bit_int_eq_self)
  then have "sint w = uint w" by (simp add: sint_uint)
  with ui show ?thesis by (simp only:)
qed

lemma unat_minus_one: "unat (- 1 :: u64) = 2 ^ 64 - 1"
  by (simp add: unsigned_minus_1_eq_mask mask_eq_exp_minus_1)

lemma advance_keeps:
  assumes i: "seg_inv (s, fs)" and f: "fd_at (sg_cur_fd s) fs = Some (ino, p)"
    and o: "sg_cur_offset s \<le> off" "off \<le> sg_file_size s" "unat off \<le> length (fs_data fs ino)"
  shows "keeps crc (s, fs) (s\<lparr> sg_cur_offset := off \<rparr>, fs)"
proof -
  have "seg_inv (s\<lparr> sg_cur_offset := off \<rparr>, fs)"
    using i f o by (simp add: seg_inv_def ToSegmentPath_def)
  moreover have "unat (sg_cur_offset s) \<le> unat off" using o(1) by (simp add: word_le_nat_alt)
  then have "stored crc (s, fs) idx k v \<Longrightarrow> stored crc (s\<lparr> sg_cur_offset := off \<rparr>, fs) idx k v"
    for idx k v
    unfolding stored_def prod.case by (fastforce simp: ToSegmentPath_def)
  ultimately show ?thesis by (simp add: keeps_def)
qed

text \<open>Sizes of a record that fits.\<close>

lemma record_fits:
  assumes "unat n = length k" and "length k + length v < 2 ^ 62"
    and "off + (8 + (n + of_nat (length v))) \<le> fsz" and "unat off < 2 ^ 62"
  shows "unat (8 + (n + of_nat (length v)) :: u64) = 8 + length k + length v"
    and "unat (n + of_nat (length v) :: u64) = length k + length v"
    and "unat (off + (8 + (n + of_nat (length v))) :: u64) = unat off + (8 + length k + length v)"
    and "unat off + (8 + length k + length v) \<le> unat fsz"
    and "n + of_nat (length v) = (of_nat (length k + length v) :: u64)"
proof -
  have n: "n = of_nat (length k)" using assms(1) by (metis word_of_nat_unat)
  then show k: "n + of_nat (length v) = (of_nat (length k + length v) :: u64)" by simp
  show kv: "unat (n + of_nat (length v) :: u64) = length k + length v"
    unfolding k using assms(2) by (intro unat_of_nat_u64) simp
  have "8 + (n + of_nat (length v)) = (of_nat (8 + length k + length v) :: u64)"
    using k by simp
  then show b: "unat (8 + (n + of_nat (length v)) :: u64) = 8 + length k + length v"
    using assms(2) by (simp only:) (rule unat_of_nat_u64, simp)
  then have "off + (8 + (n + of_nat (length v))) = (of_nat (unat off + (8 + length k + length v)) :: u64)"
    using k by simp
  then show ob: "unat (off + (8 + (n + of_nat (length v))) :: u64) = unat off + (8 + length k + length v)"
    using assms(2,4) by (simp only:) (rule unat_of_nat_u64, simp)
  show "unat off + (8 + length k + length v) \<le> unat fsz"
    using assms(3) ob by (simp add: word_le_nat_alt)
qed

text \<open>The last part of \<open>Append\<close>: seeking, writing and moving the offset.\<close>

lemma write_record:
  assumes i: "seg_inv (s, fs)" and k: "length k = unat (sg_key_len s)" "length k + length v < 2 ^ 62"
    and fits: "sg_cur_offset s + (8 + (sg_key_len s + of_nat (length v))) \<le> sg_file_size s"
    and p: "sys_lseek_set (sg_cur_fd s) (sint (sg_cur_offset s)) fs = (p, fs1)"
       "word_of_int p = sg_cur_offset s"
    and w: "sys_write (sg_cur_fd s) (word_bytes 8 (sg_key_len s + of_nat (length v)) @ k @ v) fs1
       = (n, fs2)"
  shows "keeps crc (s, fs) (s, fs2)"
    and "(word_of_int n :: u64) = 8 + (sg_key_len s + of_nat (length v)) \<Longrightarrow>
       keeps crc (s, fs) (s\<lparr> sg_cur_offset := sg_cur_offset s
          + (8 + (sg_key_len s + of_nat (length v))) \<rparr>, fs2) \<and>
       stored crc (s\<lparr> sg_cur_offset := sg_cur_offset s
          + (8 + (sg_key_len s + of_nat (length v))) \<rparr>, fs2)
         (ToSegmentIndex (sg_cur_id s) (sg_cur_offset s) (ucast (crc (k @ v)))) k v"
proof -
  let ?len = "8 + length k + length v"
  let ?off = "sg_cur_offset s"
  have off: "unat ?off < 2 ^ 62"
    using seg_invD(6,7) [OF i] by (simp add: word_le_nat_alt)
  note sz = record_fits [OF k(1) [symmetric] k(2) fits off]
  have s_off: "sint ?off = int (unat ?off)" using off by (intro sint_small) simp
  have q: "quiet fs fs1" using sys_lseek_set_quiet [OF p(1)] .
  have "p \<noteq> - 1"
  proof
    assume "p = - 1"
    then have "?off = - 1" using p(2) by simp
    then show False using off by (simp add: unat_minus_one)
  qed
  then obtain ino q0 where f: "fd_at (sg_cur_fd s) fs = Some (ino, q0)"
    and f1: "fd_at (sg_cur_fd s) fs1 = Some (ino, unat ?off)"
    using p(1) unfolding s_off
    by (auto simp: sys_lseek_set_def outcome_eq split: sys_outcome.splits option.splits if_splits)
  have t: "touches ino (unat ?off) fs fs2"
    using touches_trans [OF touches_quiet [OF q] touches_write [OF w f1]] by simp
  show k1: "keeps crc (s, fs) (s, fs2)" using touches_keeps [OF i t] f by blast
  have i2: "seg_inv (s, fs2)" using k1 by (simp add: keeps_def)
  obtain p2 where f2: "fd_at (sg_cur_fd s) fs2 = Some (ino, p2)" using touches_fd(2) [OF t f] by blast
  note path = seg_invD(3) [OF i2 f2]
  assume n: "(word_of_int n :: u64) = 8 + (sg_key_len s + of_nat (length v))"
  let ?bs = "word_bytes 8 (sg_key_len s + of_nat (length v)) @ k @ v"
  have rb: "?bs = rec_bytes k v" by (simp add: rec_bytes_def sz(5))
  have len: "length ?bs = ?len" by simp
  obtain ws where ws: "fs_data fs2 = fs_data fs1 \<and> n = - 1 \<or>
      fs_data fs2 = (fs_data fs1)(ino := write_at (unat ?off) ws (fs_data fs1 ino)) \<and> n = int (length ws)
      \<and> ws = take (length ws) ?bs"
    using sys_write_cases [OF w f1] by blast
  have "n \<noteq> - 1"
  proof
    assume "n = - 1"
    then have "word_of_int (- 1) = 8 + (sg_key_len s + of_nat (length v))" using n by (simp only:)
    then have "unat (word_of_int (- 1) :: u64) = ?len" using sz(1) by (simp only:)
    then show False using k(2) by (simp add: unat_minus_one)
  qed
  with ws have ws': "fs_data fs2 = (fs_data fs1)(ino := write_at (unat ?off) ws (fs_data fs1 ino))"
    "n = int (length ws)" "ws = take (length ws) ?bs" by auto
  have lw: "length ws \<le> ?len" using arg_cong [OF ws'(3), of length] len by simp
  have "unat (word_of_int n :: u64) = length ws"
    using ws'(2) lw k(2) by (simp add: unat_of_nat_u64)
  then have "length ws = ?len" using n sz(1) by simp
  then have ws_bs: "ws = rec_bytes k v" using ws'(3) len rb by simp
  have reg: "take ?len (drop (unat ?off) (fs_data fs2 ino)) = rec_bytes k v"
    using write_at_region [of ws "unat ?off" "fs_data fs1 ino"] ws' ws_bs by simp
  have ld: "unat ?off + ?len \<le> length (fs_data fs2 ino)"
    using ws' ws_bs by (simp add: length_write_at)
  have bound: "unat ?off + ?len < 2 ^ 63" using sz(4) seg_invD(7) [OF i] by simp
  let ?off2 = "?off + (8 + (sg_key_len s + of_nat (length v)))"
  have "?off \<le> ?off2" using sz(3) by (simp add: word_le_nat_alt)
  with advance_keeps [OF i2 f2 _ fits] ld sz(3)
  have k2: "keeps crc (s, fs2) (s\<lparr> sg_cur_offset := ?off2 \<rparr>, fs2)" by simp
  have "stored crc (s\<lparr> sg_cur_offset := ?off2 \<rparr>, fs2)
      (ToSegmentIndex (sg_cur_id s) ?off (ucast (crc (k @ v)))) k v"
    unfolding stored_def prod.case
    using path reg k sz(3) bound
    by (intro exI [of _ "sg_cur_id s"] exI [of _ ?off] exI [of _ ino]) (simp add: ToSegmentPath_def)
  with keeps_trans [OF k1 k2] show "keeps crc (s, fs) (s\<lparr> sg_cur_offset := ?off2 \<rparr>, fs2) \<and>
     stored crc (s\<lparr> sg_cur_offset := ?off2 \<rparr>, fs2)
         (ToSegmentIndex (sg_cur_id s) ?off (ucast (crc (k @ v)))) k v" by simp
qed

text \<open>The first part: leaving a segment that has no room.\<close>

lemma append_room_keeps:
  assumes i: "seg_inv (s, fs)" and r: "append_room crc len (s, fs) = Inr (ok, s', fs')"
    and len: "len \<le> sg_max_size s"
  shows "keeps crc (s, fs) (s', fs') \<and> (ok \<longrightarrow> sg_cur_offset s' + len \<le> sg_file_size s')"
proof (cases "sg_cur_offset s + len > sg_file_size s")
  case False
  with r keeps_refl [OF i] show ?thesis by (auto simp: append_room_def)
next
  case full: True
  obtain t fs1 where t: "sys_ftruncate (sg_cur_fd s) (sint (sg_cur_offset s)) fs = (t, fs1)" by force
  have off: "unat (sg_cur_offset s) < 2 ^ 62"
    using seg_invD(6,7) [OF i] by (simp add: word_le_nat_alt)
  have k1: "keeps crc (s, fs) (s, fs1)"
  proof (cases "fd_at (sg_cur_fd s) fs")
    case None
    then show ?thesis using ftruncate_without_fd [OF None t] quiet_keeps [OF i] by blast
  next
    case (Some a)
    then obtain ino p where f: "fd_at (sg_cur_fd s) fs = Some (ino, p)" by (cases a) auto
    have "touches ino (unat (sg_cur_offset s)) fs fs1"
      using touches_ftruncate [OF t f] off by (simp add: sint_small)
    with f show ?thesis by (intro touches_keeps [OF i]) auto
  qed
  show ?thesis
  proof (cases "t = 0")
    case False
    then show ?thesis using r t full k1 by (auto simp: append_room_def)
  next
    case t0: True
    let ?fs = "sys_close (sg_cur_fd s) fs1"
    have i1: "seg_inv (s, fs1)" using k1 by (simp add: keeps_def)
    note k2 = keeps_trans [OF k1 close_keeps(1) [OF i1]]
    have i2: "seg_inv (s, ?fs)" using k2 by (simp add: keeps_def)
    obtain ready s3 fs3 where n: "NewSegment crc (s, ?fs) = Inr (ready, s3, fs3)"
      using r t full t0 by (auto simp: append_room_def Let_def bind_res_eq_Inr)
    note nk = NewSegment_keeps [OF i2 close_keeps(2) [OF i1] n]
    have "fs' = fs3 \<and> s' = s3 \<and> ok = ready"
    proof (cases ready)
      case True
      then have "s3\<lparr> sg_cur_offset := 0 \<rparr> = s3" using nk by (cases s3) simp
      then show ?thesis using r t full t0 n True by (auto simp: append_room_def Let_def)
    qed (use r t full t0 n in \<open>auto simp: append_room_def Let_def\<close>)
    with nk keeps_trans [OF k2] len show ?thesis by auto
  qed
qed

lemma Append_keeps:
  assumes i: "seg_inv (s, fs)" and key: "length key = unat (sg_key_len s)"
    and val: "length key + length val < 2 ^ 62"
    and r: "Append crc key val (s, fs) = Inr (res, s', fs')"
  shows "keeps crc (s, fs) (s', fs') \<and> (\<forall>idx. res = Some idx \<longrightarrow> stored crc (s', fs') idx key val)"
proof (cases "8 + (sg_key_len s + of_nat (length val)) > sg_max_size s")
  case True
  with r keeps_refl [OF i] show ?thesis by (auto simp: Append_def Let_def)
next
  case big: False
  let ?len = "8 + (sg_key_len s + of_nat (length val))"
  obtain ok s1 fs1 where a: "append_room crc ?len (s, fs) = Inr (ok, s1, fs1)"
    using r big by (auto simp: Append_def Let_def bind_res_eq_Inr)
  have k1: "keeps crc (s, fs) (s1, fs1)" and fits: "ok \<Longrightarrow> sg_cur_offset s1 + ?len \<le> sg_file_size s1"
    using append_room_keeps [OF i a] big by auto
  have kl: "sg_key_len s1 = sg_key_len s" and i1: "seg_inv (s1, fs1)" using k1 by (simp_all add: keeps_def)
  have ck: "copied_key (sg_key_len s1) key = Inr key" using key kl by (simp add: copied_key_def)
  show ?thesis
  proof (cases ok)
    case False
    with r a k1 big show ?thesis by (auto simp: Append_def Let_def)
  next
    case True
    obtain p fs2 where p: "sys_lseek_set (sg_cur_fd s1) (sint (sg_cur_offset s1)) fs1 = (p, fs2)" by force
    obtain n fs3 where w: "sys_write (sg_cur_fd s1) (word_bytes 8 (sg_key_len s + of_nat (length val)) @ key @ val) fs2 = (n, fs3)"
      by force
    show ?thesis
    proof (cases "word_of_int p = sg_cur_offset s1")
      case False
      then have "res = None \<and> s' = s1 \<and> fs' = fs2"
        using r a p ck True \<open>\<not> _ > sg_max_size s\<close> by (auto simp: Append_def Let_def)
      then show ?thesis using keeps_trans [OF k1 quiet_keeps [OF i1 sys_lseek_set_quiet [OF p]]] by simp
    next
      case pos: True
      have w': "sys_write (sg_cur_fd s1) (word_bytes 8 (sg_key_len s1 + of_nat (length val)) @ key @ val) fs2
          = (n, fs3)" using w kl by simp
      note wr = write_record [OF i1 key [folded kl] val fits [OF True, folded kl] p pos w']
      show ?thesis
      proof (cases "(word_of_int n :: u64) = ?len")
        case n: False
        then have "res = None \<and> s' = s1 \<and> fs' = fs3"
          using r a p w ck True pos n big by (auto simp: Append_def Let_def)
        then show ?thesis using keeps_trans [OF k1 wr(1)] by simp
      next
        case n: True
        then have "res = Some (ToSegmentIndex (sg_cur_id s1) (sg_cur_offset s1) (ucast (crc (key @ val))))
            \<and> s' = s1\<lparr> sg_cur_offset := sg_cur_offset s1 + ?len \<rparr> \<and> fs' = fs3"
          using r a p w ck True pos n big by (auto simp: Append_def Let_def)
        with wr(2) [unfolded kl, OF n] keeps_trans [OF k1] show ?thesis by auto
      qed
    qed
  qed
qed

end
