(* ===== verification/Segment_Reads.thy ===== *)
theory Segment_Reads
  imports Segment_Safety
begin

section \<open>Reading the segment store back\<close>

text \<open>
  \<open>Read\<close> on a stored record: its key and value or a refusal, nothing else, and the file system
  as before. Without faults \<open>Read\<close>, \<open>NewSegment\<close> and \<open>Append\<close> succeed.
\<close>

subsection \<open>Reads of a descriptor\<close>

lemma sys_read_full:
  assumes r: "sys_read fd n fs = (r, fs')" and f: "fd_at fd fs = Some (ino, pos)"
  shows "quiet fs fs'" and "r = Some b \<Longrightarrow> length b \<le> n"
    and "map_option length r = Some n \<Longrightarrow>
      r = Some (take n (drop pos (fs_data fs ino))) \<and> fd_at fd fs' = Some (ino, pos + n)"
    and "fs_faults fs = [] \<Longrightarrow> pos + n \<le> length (fs_data fs ino) \<Longrightarrow> map_option length r = Some n"
proof -
  show "quiet fs fs'" using sys_read_quiet [OF r] .
  let ?d = "drop pos (fs_data fs ino)"
  have c: "r = None \<or> (\<exists>m\<le>n. r = Some (take m ?d) \<and> fd_at fd fs' = Some (ino, pos + length (take m ?d)))"
  proof (cases "fst (outcome fs)")
    case SysOk
    with r f show ?thesis by (auto simp: sys_read_def outcome_eq short_def Let_def)
  next
    case SysFail
    with r f show ?thesis by (simp add: sys_read_def outcome_eq)
  next
    case (SysShort m)
    with r f show ?thesis
      by (intro disjI2 exI [of _ "min m n"]) (auto simp: sys_read_def outcome_eq short_def Let_def)
  qed
  show "r = Some b \<Longrightarrow> length b \<le> n" using c by auto
  show "r = Some (take n ?d) \<and> fd_at fd fs' = Some (ino, pos + n)"
    if l: "map_option length r = Some n"
  proof -
    from l c obtain m where m: "m \<le> n" "r = Some (take m ?d)"
      "fd_at fd fs' = Some (ino, pos + length (take m ?d))" by auto
    with l have "length (take m ?d) = n" by simp
    with m have "m = n" by simp
    with m \<open>length (take m ?d) = n\<close> show ?thesis by simp
  qed
  show "map_option length r = Some n"
    if "fs_faults fs = []" and "pos + n \<le> length (fs_data fs ino)"
    using r f that by (auto simp: sys_read_def short_def Let_def)
qed

lemma sys_lseek_full:
  assumes r: "sys_lseek_set fd off fs = (p, fs')" and f: "fd_at fd fs = Some (ino, pos)" and o: "0 \<le> off"
  shows "quiet fs fs'" and "p = off \<Longrightarrow> fd_at fd fs' = Some (ino, nat off)"
    and "fs_faults fs = [] \<Longrightarrow> p = off" and "p \<noteq> off \<Longrightarrow> p = - 1"
  using r f o sys_lseek_set_quiet [OF r]
  by (auto simp: sys_lseek_set_def outcome_eq split: sys_outcome.splits)

text \<open>The fields of a record inside a file.\<close>

lemma record_fields:
  assumes "take (8 + length k + length v) (drop off d) = rec_bytes k v"
  shows "take 8 (drop off d) = word_bytes 8 (of_nat (length k + length v) :: u64)"
    and "take (length k) (drop (off + 8) d) = k"
    and "take (length v) (drop (off + 8 + length k) d) = v"
proof -
  let ?r = "rec_bytes k v"
  have sub: "take n (drop (off + m) d) = take n (drop m ?r)" if "m + n \<le> 8 + length k + length v" for m n
    using that by (simp add: assms [symmetric] drop_take add.commute min_def)
  show "take 8 (drop off d) = word_bytes 8 (of_nat (length k + length v) :: u64)"
    using sub [of 0 8] by (simp add: rec_bytes_def)
  show "take (length k) (drop (off + 8) d) = k"
    using sub [of 8 "length k"] by (simp add: rec_bytes_def)
  show "take (length v) (drop (off + 8 + length k) d) = v"
    using sub [of "8 + length k" "length v"] by (simp add: rec_bytes_def add.assoc)
qed

subsection \<open>Read\<close>

lemma open_stored:
  assumes o: "OpenSegment sid False (s, fs) = (st, fd, fs1)"
    and f: "map_of (fs_files fs) (ToSegmentPath sid s) = Some ino"
    and d: "ToSegmentPath sid s \<notin> set (fs_dirs fs)"
  shows "\<not> st \<Longrightarrow> quiet fs fs1 \<and> fs_faults fs \<noteq> []"
    and "st \<Longrightarrow> quiet_but fd fs fs1 \<and> fd_at fd fs = None \<and> fd_at fd fs1 = Some (ino, 0)"
proof -
  have s: "sys_open False (ToSegmentPath sid s) fs = (fd, fs1)" and st: "st \<longleftrightarrow> fd \<noteq> - 1"
    using o by (auto simp: OpenSegment_def split: prod.splits)
  show "quiet fs fs1 \<and> fs_faults fs \<noteq> []" if "\<not> st"
    using that s st sys_open_fail_quiet sys_open_ok [OF _ f d, of False] by force
  show "quiet_but fd fs fs1 \<and> fd_at fd fs = None \<and> fd_at fd fs1 = Some (ino, 0)" if "st"
    using that st sys_open_existing [OF s _ f] by simp
qed

lemma Read_stored:
  assumes i: "seg_inv (s, fs)" and st: "stored crc (s, fs) idx k v"
  shows "\<exists>r fs'. Segment_Read crc idx (s, fs) = Inr (r, fs') \<and> quiet fs fs' \<and>
    (r = None \<or> r = Some (k, v)) \<and> (fs_faults fs = [] \<longrightarrow> r = Some (k, v))"
proof -
  let ?good = "\<lambda>x. \<exists>r fs'. x = Inr (r, fs') \<and> quiet fs fs' \<and>
    (r = None \<or> r = Some (k, v)) \<and> (fs_faults fs = [] \<longrightarrow> r = Some (k, v))"
  obtain sid off ino where idx: "idx = ToSegmentIndex sid off (ucast (crc (k @ v)))"
    and f: "map_of (fs_files fs) (ToSegmentPath sid s) = Some ino"
    and kl: "length k = unat (sg_key_len s)" and b: "unat off + (8 + length k + length v) < 2 ^ 63"
    and rg: "take (8 + length k + length v) (drop (unat off) (fs_data fs ino)) = rec_bytes k v"
    using st unfolding stored_def prod.case by blast
  note rf = record_fields [OF rg]
  have so: "sint off = uint off" using b by (subst sint_small) simp_all
  have "length (rec_bytes k v) \<le> length (fs_data fs ino) - unat off"
    using rg by (metis length_drop length_take min.cobounded1)
  then have ld: "unat off + (8 + length k + length v) \<le> length (fs_data fs ino)" by simp
  obtain o1 fd fs1 where 1: "OpenSegment sid False (s, fs) = (o1, fd, fs1)" by (metis prod_cases3)
  note op = open_stored [OF 1 f seg_invD(5) [OF i]]
  show ?thesis
  proof (cases o1)
    case False
    with op(1) show ?thesis by (simp add: Segment_Read_def idx 1)
  next
    case True
    then have q1: "quiet_but fd fs fs1" and n: "fd_at fd fs = None" and f1: "fd_at fd fs1 = Some (ino, 0)"
      using op(2) by simp_all
    have closed: "?good (Inr (r, sys_close fd fs'))"
      if "quiet fs1 fs'" "r = None \<or> r = Some (k, v)" "fs_faults fs1 = [] \<longrightarrow> r = Some (k, v)" for r fs'
      using quiet_close [OF quiet_but_quiet [OF q1 that(1)] n] q1 that by (auto simp: quiet_but_def)
    have d1: "fs_data fs1 = fs_data fs" using q1 by (simp add: quiet_but_def)
    obtain p fs2 where 2: "sys_lseek_set fd (uint off) fs1 = (p, fs2)" by force
    note sk = sys_lseek_full [OF 2 f1 unsigned_greater_eq]
    show ?thesis
    proof (cases "p = uint off")
      case False
      with closed [of fs2 None] sk show ?thesis by (auto simp: Segment_Read_def idx 1 True so 2)
    next
      case p: True
      have f2: "fd_at fd fs2 = Some (ino, unat off)" using sk(2) p by simp
      have d2: "fs_data fs2 = fs_data fs" using sk(1) d1 by (simp add: quiet_def)
      obtain bs fs3 where 3: "sys_read fd 8 fs2 = (bs, fs3)" by force
      note r3 = sys_read_full [OF 3 f2, unfolded d2]
      have q3: "quiet fs1 fs3" using quiet_trans [OF sk(1) r3(1)] .
      show ?thesis
      proof (cases "map_option length bs = Some 8")
        case False
        have "fs_faults fs1 \<noteq> []" using r3(4) False ld sk(1) by (auto simp: quiet_def)
        with False closed [OF q3, of None] show ?thesis
          by (auto simp: Segment_Read_def idx 1 True so 2 p 3)
      next
        case l8: True
        have bs: "bs = Some (word_bytes 8 (of_nat (length k + length v) :: u64))"
          and f3: "fd_at fd fs3 = Some (ino, unat off + 8)" using r3(3) [OF l8] rf(1) by simp_all
        have ukv: "unat (of_nat (length k + length v) :: u64) = length k + length v"
          using b by (intro unat_of_nat_u64) simp
        have d3: "fs_data fs3 = fs_data fs" using q3 d1 by (simp add: quiet_def)
        obtain kb fs4 where 4: "sys_read fd (length k) fs3 = (kb, fs4)" by force
        note r4 = sys_read_full [OF 4 f3, unfolded d3]
        have q4: "quiet fs1 fs4" using quiet_trans [OF q3 r4(1)] .
        have short: "\<not> (case kb of None \<Rightarrow> False | Some x \<Rightarrow>
            unat (of_nat (length k + length v) :: u64) < length x)"
        proof (cases kb)
          case (Some x)
          with r4(2) [of x] kl show ?thesis unfolding ukv by simp
        qed simp
        have small: "\<not> length k + length v > string_max_size" using b by (simp add: string_max_size_def)
        have vl: "unat (of_nat (length k + length v) - sg_key_len s) = length v"
        proof -
          have "sg_key_len s = of_nat (length k)" using kl by simp
          then have "of_nat (length k + length v) - sg_key_len s = (of_nat (length v) :: u64)" by simp
          then show ?thesis using b by (simp add: unat_of_nat_u64)
        qed
        note eqs = kl [symmetric] 1 True so 2 p 3 bs ukv 4 short small vl
        show ?thesis
        proof (cases "map_option length kb = Some (length k)")
          case False
          have "fs_faults fs1 \<noteq> []" using r4(4) False ld q3 by (auto simp: quiet_def)
          with False closed [OF q4, of None] show ?thesis
            unfolding Segment_Read_def idx by (simp add: Let_def eqs del: of_nat_add)
        next
          case lk: True
          have kb: "kb = Some k" and f4: "fd_at fd fs4 = Some (ino, unat off + 8 + length k)"
            using r4(3) [OF lk] rf(2) by simp_all
          have d4: "fs_data fs4 = fs_data fs" using q4 d1 by (simp add: quiet_def)
          obtain vb fs5 where 5: "sys_read fd (length v) fs4 = (vb, fs5)" by force
          note r5 = sys_read_full [OF 5 f4, unfolded d4]
          have q5: "quiet fs1 fs5" using quiet_trans [OF q4 r5(1)] .
          show ?thesis
          proof (cases "map_option length vb = Some (length v)")
            case False
            have "fs_faults fs1 \<noteq> []" using r5(4) False ld q4 by (auto simp: quiet_def)
            with False lk closed [OF q5, of None] show ?thesis
              unfolding Segment_Read_def idx by (simp add: Let_def eqs 5 kb del: of_nat_add)
          next
            case lv: True
            have vb: "vb = Some v" using r5(3) [OF lv] rf(3) by simp
            with closed [OF q5, of "Some (k, v)"] lk show ?thesis
              unfolding Segment_Read_def idx by (simp add: Let_def eqs 5 kb vb del: of_nat_add)
          qed
        qed
      qed
    qed
  qed
qed

subsection \<open>Without faults\<close>

lemma sys_write_quick:
  assumes "fs_faults fs = []" and "fd_at fd fs = Some (ino, pos)"
  shows "\<exists>fs' q. sys_write fd bs fs = (int (length bs), fs') \<and> fs_faults fs' = [] \<and>
    fd_at fd fs' = Some (ino, q)"
proof -
  obtain fs' where w: "sys_write fd bs fs = (int (length bs), fs')" using sys_write_ok [OF assms] by blast
  have t: "touches ino 0 fs fs'" using touches_write [OF w assms(2)] by simp
  show ?thesis using w t touches_fd(2) [OF t assms(2)] assms(1) by (simp add: touches_def)
qed

lemma sys_lseek_quick:
  assumes "fs_faults fs = []" and "fd_at fd fs = Some (ino, pos)" and "0 \<le> off"
  shows "\<exists>fs' q. sys_lseek_set fd off fs = (off, fs') \<and> fs_faults fs' = [] \<and> fd_at fd fs' = Some (ino, q)"
  using sys_lseek_set_ok [OF assms] assms(1) by (auto simp: quiet_def)

lemma UpdateMetadata_succeeds:
  assumes e: "fs_faults fs = []" and m: "fd_at (sg_meta_fd s) fs = Some (mino, mp)"
    and o: "sint (sg_cur_id s) \<noteq> 2 ^ 31 - 1"
  shows "\<exists>fs'. UpdateMetadata crc (s, fs) = Inr (True, fs') \<and> fs_faults fs' = []"
proof -
  let ?fd = "sg_meta_fd s"
  obtain fs1 q1 where 1: "sys_lseek_set ?fd 0 fs = (0, fs1)" "fs_faults fs1 = []" "fd_at ?fd fs1 = Some (mino, q1)"
    using sys_lseek_quick [OF e m, of 0] by auto
  obtain fs2 q where 2: "sys_write ?fd (word_bytes 4 (sg_cur_id s + 1)) fs1 = (4, fs2)"
      "fs_faults fs2 = []" "fd_at ?fd fs2 = Some (mino, q)"
    using sys_write_quick [OF 1(2,3), of "word_bytes 4 (sg_cur_id s + 1)"] by auto
  let ?c = "word_bytes 8 (ucast (crc (word_bytes 4 (sg_cur_id s + 1))) :: u64)"
  obtain fs3 q3 where 3: "sys_write ?fd ?c fs2 = (8, fs3)" "fs_faults fs3 = []" "fd_at ?fd fs3 = Some (mino, q3)"
    using sys_write_quick [OF 2(2,3), of ?c] by auto
  have 4: "sys_fsync ?fd fs3 = (0, fs3)" using 3 by (simp add: sys_fsync_def)
  show ?thesis using 1 2 3 4 o by (simp add: UpdateMetadata_def Let_def)
qed

lemma PaddingIfNewSegment_succeeds:
  assumes e: "fs_faults fs = []" and c: "fd_at (sg_cur_fd s) fs = Some (ino, p)"
    and d: "fs_data fs ino = []" and z: "0 < unat (sg_max_size s)" "unat (sg_max_size s) < 2 ^ 62"
  shows "\<exists>s' fs'. PaddingIfNewSegment (s, fs) = (1, s', fs')"
proof -
  let ?fd = "sg_cur_fd s"
  have mo: "unat (sg_max_size s - 1) = unat (sg_max_size s) - 1"
    using z(1) by (intro unat_minus_one_nonzero) auto
  have so: "sint (sg_max_size s - 1) = int (unat (sg_max_size s - 1))"
    using z mo by (intro sint_small) simp
  have w: "word_of_int (int (unat (sg_max_size s - 1))) = sg_max_size s - 1" by simp
  obtain fs1 where 1: "sys_lseek_end ?fd fs = (0, fs1)" "fs_faults fs1 = []" "fd_at ?fd fs1 = Some (ino, 0)"
    using e c d by (simp add: sys_lseek_end_def)
  obtain fs2 q2 where 2: "sys_lseek_set ?fd (sint (sg_max_size s - 1)) fs1 = (sint (sg_max_size s - 1), fs2)"
      "fs_faults fs2 = []" "fd_at ?fd fs2 = Some (ino, q2)"
    using sys_lseek_quick [OF 1(2,3), of "sint (sg_max_size s - 1)"] so by auto
  obtain fs3 q3 where 3: "sys_write ?fd [NUL] fs2 = (1, fs3)" "fs_faults fs3 = []" "fd_at ?fd fs3 = Some (ino, q3)"
    using sys_write_quick [OF 2(2,3), of "[NUL]"] by auto
  obtain fs4 where 4: "sys_lseek_set ?fd 0 fs3 = (0, fs4)"
    using sys_lseek_quick [OF 3(2,3), of 0] by auto
  show ?thesis using 1 2 3 4 by (simp add: PaddingIfNewSegment_def Let_def)
qed

lemma NewSegment_succeeds:
  assumes i: "seg_inv (s, fs)" and n: "fd_at (sg_cur_fd s) fs = None" and e: "fs_faults fs = []"
    and o: "sint (sg_cur_id s) \<noteq> 2 ^ 31 - 1" and z: "0 < unat (sg_max_size s)"
  shows "\<exists>s' fs'. NewSegment crc (s, fs) = Inr (True, s', fs')"
proof -
  obtain mino mp where m: "fd_at (sg_meta_fd s) fs = Some (mino, mp)"
      "\<forall>id. map_of (fs_files fs) (ToSegmentPath id s) \<noteq> Some mino"
    using seg_invD(10) [OF i] by blast
  obtain fs1 where u: "UpdateMetadata crc (s, fs) = Inr (True, fs1)" and e1: "fs_faults fs1 = []"
    using UpdateMetadata_succeeds [OF e m(1) o] by blast
  note t1 = UpdateMetadata_touches [OF u m(1)]
  have k1: "keeps crc (s, fs) (s, fs1)" using touches_keeps [OF i t1] m(2) by blast
  have i1: "seg_inv (s, fs1)" using k1 by (simp add: keeps_def)
  have n1: "fd_at (sg_cur_fd s) fs1 = None" using n touches_fd(1) [OF t1] by simp
  let ?s = "s\<lparr> sg_cur_id := sg_cur_id s + 1 \<rparr>"
  have i2: "seg_inv (?s, fs1)" using next_id_keeps(1) [OF i1 n1 o] by (simp add: keeps_def)
  have f1: "map_of (fs_files fs1) (ToSegmentPath (sg_cur_id ?s) ?s) = None"
    using next_id_keeps(2) [OF i1 n1 o] by (simp add: ToSegmentPath_def)
  have ex: "SegmentExists (sg_cur_id ?s) (?s, fs1) = (False, fs1)"
    using e1 f1 seg_invD(5) [OF i2] by (simp add: SegmentExists_def sys_access_def)
  obtain st fd fs2 where op: "OpenSegment (sg_cur_id ?s) True (?s, fs1) = (st, fd, fs2)"
    by (metis prod_cases3)
  have "fd_at (sg_cur_fd ?s) fs1 = None" using n1 by simp
  note ok = open_keeps [OF i2 op f1 this, of crc]
  then have st: "st" and k2: "fs_faults fs1 = [] \<longrightarrow> fs_faults fs2 = []"
    and fd: "fd_at fd fs2 = Some (fs_next fs1, 0)" and em: "fs_data fs2 (fs_next fs1) = []"
    using e1 by (simp_all add: keeps_def)
  let ?u = "?s\<lparr> sg_cur_fd := fd \<rparr>"
  have fdu: "fd_at (sg_cur_fd ?u) fs2 = Some (fs_next fs1, 0)" using fd by simp
  have "\<exists>s' fs'. PaddingIfNewSegment (?u, fs2) = (1, s', fs')"
    using z seg_invD(8) [OF i] k2 e1 by (intro PaddingIfNewSegment_succeeds [OF _ fdu em]) simp_all
  then obtain s3 fs3 where "PaddingIfNewSegment (?u, fs2) = (1, s3, fs3)" by blast
  then show ?thesis using u o ex op st by (simp add: NewSegment_def Let_def)
qed

text \<open>A store that can append: the current segment is open, the file system does not fail.\<close>

definition seg_ready :: "SegmentStore \<times> FS \<Rightarrow> bool" where
  "seg_ready sf \<longleftrightarrow> seg_inv sf \<and> fs_faults (snd sf) = [] \<and> fd_at (sg_cur_fd (fst sf)) (snd sf) \<noteq> None"

lemma append_room_succeeds:
  assumes r: "seg_ready (s, fs)" and o: "sint (sg_cur_id s) \<noteq> 2 ^ 31 - 1" and z: "0 < unat (sg_max_size s)"
  shows "\<exists>s' fs'. append_room crc len (s, fs) = Inr (True, s', fs') \<and> fd_at (sg_cur_fd s') fs' \<noteq> None"
proof (cases "sg_cur_offset s + len > sg_file_size s")
  case False
  with r show ?thesis by (simp add: append_room_def seg_ready_def)
next
  case full: True
  have i: "seg_inv (s, fs)" and e: "fs_faults fs = []" using r by (simp_all add: seg_ready_def)
  obtain ino p where f: "fd_at (sg_cur_fd s) fs = Some (ino, p)" using r by (auto simp: seg_ready_def)
  have off: "unat (sg_cur_offset s) < 2 ^ 62" using seg_invD(6,7) [OF i] by (simp add: word_le_nat_alt)
  have so: "0 \<le> sint (sg_cur_offset s)" using off by (subst sint_small) simp_all
  obtain fs1 where t: "sys_ftruncate (sg_cur_fd s) (sint (sg_cur_offset s)) fs = (0, fs1)"
    using e f so by (simp add: sys_ftruncate_def)
  have "touches ino (unat (sg_cur_offset s)) fs fs1"
    using touches_ftruncate [OF t f] off by (simp add: sint_small)
  then have k1: "keeps crc (s, fs) (s, fs1)" using f by (intro touches_keeps [OF i]) auto
  then have i1: "seg_inv (s, fs1)" and e1: "fs_faults fs1 = []" using e by (simp_all add: keeps_def)
  let ?fs = "sys_close (sg_cur_fd s) fs1"
  have i2: "seg_inv (s, ?fs)" using close_keeps(1) [OF i1] by (simp add: keeps_def)
  have e2: "fs_faults ?fs = []" using e1 by simp
  obtain s3 fs3 where n: "NewSegment crc (s, ?fs) = Inr (True, s3, fs3)"
    using NewSegment_succeeds [OF i2 close_keeps(2) [OF i1] e2 o z] by blast
  from NewSegment_keeps [OF i2 close_keeps(2) [OF i1] n] full t n show ?thesis
    by (simp add: append_room_def Let_def)
qed

lemma Append_succeeds:
  assumes r: "seg_ready (s, fs)" and o: "sint (sg_cur_id s) \<noteq> 2 ^ 31 - 1"
    and key: "length key = unat (sg_key_len s)"
    and val: "8 + length key + length val \<le> unat (sg_max_size s)"
  shows "\<exists>idx s' fs'. Append crc key val (s, fs) = Inr (Some idx, s', fs') \<and> seg_ready (s', fs')"
proof -
  have i: "seg_inv (s, fs)" and e: "fs_faults fs = []" using r by (simp_all add: seg_ready_def)
  let ?len = "8 + (sg_key_len s + of_nat (length val))"
  have kv: "length key + length val < 2 ^ 62" using val seg_invD(8) [OF i] by simp
  have "?len = of_nat (8 + length key + length val)" using key by simp
  then have "unat ?len = 8 + length key + length val"
    using kv by (simp only:) (rule unat_of_nat_u64, simp)
  then have big: "\<not> ?len > sg_max_size s" using val by (simp add: word_less_nat_alt)
  have z: "0 < unat (sg_max_size s)" using val by simp
  obtain s1 fs1 where a: "append_room crc ?len (s, fs) = Inr (True, s1, fs1)"
      and f1: "fd_at (sg_cur_fd s1) fs1 \<noteq> None"
    using append_room_succeeds [OF r o z] by blast
  have k1: "keeps crc (s, fs) (s1, fs1)" and fits: "sg_cur_offset s1 + ?len \<le> sg_file_size s1"
    using append_room_keeps [OF i a] big by auto
  have kl: "sg_key_len s1 = sg_key_len s" and i1: "seg_inv (s1, fs1)" and e1: "fs_faults fs1 = []"
    using k1 e by (simp_all add: keeps_def)
  have ck: "copied_key (sg_key_len s1) key = Inr key" using key kl by (simp add: copied_key_def)
  obtain ino q where f: "fd_at (sg_cur_fd s1) fs1 = Some (ino, q)" using f1 by auto
  have off: "unat (sg_cur_offset s1) < 2 ^ 62" using seg_invD(6,7) [OF i1] by (simp add: word_le_nat_alt)
  have so: "0 \<le> sint (sg_cur_offset s1)" using off by (subst sint_small) simp_all
  obtain fs2 q2 where 2: "sys_lseek_set (sg_cur_fd s1) (sint (sg_cur_offset s1)) fs1
      = (sint (sg_cur_offset s1), fs2)" "fs_faults fs2 = []" "fd_at (sg_cur_fd s1) fs2 = Some (ino, q2)"
    using sys_lseek_quick [OF e1 f so] by blast
  let ?bs = "word_bytes 8 (sg_key_len s + of_nat (length val)) @ key @ val"
  obtain fs3 q3 where 3: "sys_write (sg_cur_fd s1) ?bs fs2 = (int (length ?bs), fs3)" "fs_faults fs3 = []"
      "fd_at (sg_cur_fd s1) fs3 = Some (ino, q3)"
    using sys_write_quick [OF 2(2,3), of ?bs] by blast
  have n: "word_of_int (int (length ?bs)) = ?len" using key by simp
  have "\<exists>idx. Append crc key val (s, fs) = Inr (Some idx, s1\<lparr> sg_cur_offset := sg_cur_offset s1 + ?len \<rparr>, fs3)"
    using big a ck 2(1) 3(1) n by (simp add: Append_def Let_def del: length_append)
  then obtain idx where r: "Append crc key val (s, fs)
      = Inr (Some idx, s1\<lparr> sg_cur_offset := sg_cur_offset s1 + ?len \<rparr>, fs3)" by blast
  with Append_keeps [OF i key kv r] 3 show ?thesis by (simp add: seg_ready_def keeps_def)
qed

end
