(* ===== verification/Segment_Start.thy ===== *)
theory Segment_Start
  imports Segment_Reads
begin

section \<open>Starting the segment store\<close>

text \<open>
  \<open>Init\<close> in a directory of its own gives a store that can append; after the first change of
  segment no start succeeds any more, because the stored checksum does not fit the object it
  is read into. Replaying a segment finds the end of its records, while that is below 2^31.
\<close>

subsection \<open>A first start\<close>

definition store_dir :: "string \<Rightarrow> string" where
  "store_dir dbPath = dbPath @ slash dbPath @ SEGMENT_STORE_DIR"

definition meta_path :: "string \<Rightarrow> string" where
  "meta_path dbPath = store_dir dbPath @ slash dbPath @ METADATA_FILE"

text \<open>Inodes belong to one name each, and no file lies in the directory of the store yet.\<close>

definition fresh_fs :: "string \<Rightarrow> FS \<Rightarrow> bool" where
  "fresh_fs dbPath fs \<longleftrightarrow>
     (\<forall>p q i. map_of (fs_files fs) p = Some i \<longrightarrow> map_of (fs_files fs) q = Some i \<longrightarrow> p = q) \<and>
     (\<forall>p i. map_of (fs_files fs) p = Some i \<longrightarrow> i < fs_next fs) \<and>
     (\<forall>p. map_of (fs_files fs) (store_dir dbPath @ p) = None) \<and>
     (\<forall>p. p \<noteq> [] \<longrightarrow> store_dir dbPath @ p \<notin> set (fs_dirs fs))"

lemma seg_path:
  "sg_db_path s = store_dir dbPath \<Longrightarrow>
     ToSegmentPath sid s = store_dir dbPath @ ''/'' @ int_string (sint sid)"
  by (simp add: ToSegmentPath_def store_dir_def SEGMENT_STORE_DIR_def)

lemma meta_path_no_segment:
  assumes "sg_db_path s = store_dir dbPath"
  shows "ToSegmentPath sid s \<noteq> meta_path dbPath"
proof
  assume "ToSegmentPath sid s = meta_path dbPath"
  then have "''/'' @ int_string (sint sid) = slash dbPath @ METADATA_FILE"
    by (simp add: seg_path [OF assms] meta_path_def)
  then have "int_string (sint sid) = METADATA_FILE"
    by (simp add: slash_def METADATA_FILE_def split: if_splits)
  moreover have "CHR ''.'' \<notin> set (nat_digits n)" for n
  proof (induction n rule: nat_digits.induct)
    case (1 n)
    have d: "char_of (48 + m) \<noteq> CHR ''.''" if "m < 10" for m :: nat
    proof
      assume "char_of (48 + m) = CHR ''.''"
      then have "of_char (char_of (48 + m) :: char) = (of_char (CHR ''.'') :: nat)" by simp
      then show False using that by simp
    qed
    show ?case
      using 1 d [of n] d [of "n mod 10"] by (subst nat_digits.simps) auto
  qed
  ultimately show False
    by (auto simp: int_string_def METADATA_FILE_def split: if_splits) (metis list.set_intros(1))
qed

lemma CreateIfNotExists_fresh:
  assumes e: "fs_faults fs = []" and f: "map_of (fs_files fs) path = None"
  shows "\<exists>fs1. CreateIfNotExists path fs = (True, fs1) \<and> fs_files fs1 = fs_files fs \<and>
    fs_data fs1 = fs_data fs \<and> fs_next fs1 = fs_next fs \<and> fs_faults fs1 = [] \<and>
    set (fs_dirs fs1) = insert path (set (fs_dirs fs))"
proof (cases "path \<in> set (fs_dirs fs)")
  case True
  with e show ?thesis by (auto simp: CreateIfNotExists_def sys_stat_def)
next
  case False
  with e f show ?thesis by (simp add: CreateIfNotExists_def sys_stat_def sys_mkdir_def)
qed

text \<open>The part of \<open>Init\<close> that opens the metadata file, on a file system without one.\<close>

lemma metadata_fresh:
  assumes e: "fs_faults fs = []" and fr: "fresh_fs dbPath fs" and s: "sg_db_path s = store_dir dbPath"
    and c: "CreateIfNotExists (store_dir dbPath) fs = (True, fs1)"
    and z: "unat (sg_key_len s) < 2 ^ 62" "unat (sg_max_size s) < 2 ^ 62"
  shows "\<exists>fd fs2 fs3 fs4 fs5. sys_open True (meta_path dbPath) fs1 = (fd, fs2) \<and> fd \<noteq> - 1 \<and>
    sys_lseek_set fd 0 fs2 = (0, fs3) \<and> sys_read fd 4 fs3 = (Some [], fs4) \<and>
    sys_read fd 8 fs4 = (Some [], fs5) \<and> fs_faults fs5 = [] \<and>
    seg_inv (s\<lparr> sg_meta_fd := fd, sg_cur_id := 0, sg_cur_fd := - 1, sg_cur_offset := 0,
      sg_file_size := sg_max_size s \<rparr>, fs5) \<and>
    (\<forall>sid. map_of (fs_files fs5) (ToSegmentPath sid s) = None) \<and>
    (\<exists>mino. fd_at fd fs5 = Some (mino, 0) \<and> map_of (fs_files fs5) (meta_path dbPath) = Some mino \<and>
       fs_data fs5 mino = []) \<and>
    store_dir dbPath \<in> set (fs_dirs fs5) \<and> meta_path dbPath \<notin> set (fs_dirs fs5)"
proof -
  have n0: "map_of (fs_files fs) (store_dir dbPath) = None"
    using fr append_Nil2 unfolding fresh_fs_def by metis
  have fs1: "fs_files fs1 = fs_files fs" "fs_data fs1 = fs_data fs" "fs_next fs1 = fs_next fs"
      "fs_faults fs1 = []" "set (fs_dirs fs1) = insert (store_dir dbPath) (set (fs_dirs fs))"
    using CreateIfNotExists_fresh [OF e n0] c by auto
  have nd: "store_dir dbPath @ p \<notin> set (fs_dirs fs1)" if "p \<noteq> []" for p
    using fr fs1(5) that by (auto simp: fresh_fs_def)
  have m: "map_of (fs_files fs1) (meta_path dbPath) = None" "meta_path dbPath \<notin> set (fs_dirs fs1)"
    using fr fs1(1) nd by (simp_all add: fresh_fs_def meta_path_def METADATA_FILE_def)
  obtain fd fs2 where 2: "sys_open True (meta_path dbPath) fs1 = (fd, fs2)" by force
  from sys_open_fresh [OF 2 m] fs1(4)
  have f2: "fd_at fd fs2 = Some (fs_next fs, 0)" "0 \<le> fd"
      "fs_files fs2 = (meta_path dbPath, fs_next fs) # fs_files fs" "fs_dirs fs2 = fs_dirs fs1"
      "fs_data fs2 (fs_next fs) = []" "fs_next fs2 = fs_next fs + 1" "fs_faults fs2 = []"
    by (auto simp: fs1)
  obtain fs3 where 3: "sys_lseek_set fd 0 fs2 = (0, fs3)" "quiet fs2 fs3" "fd_at fd fs3 = Some (fs_next fs, 0)"
    using sys_lseek_set_ok [OF f2(7,1), of 0] by auto
  have d3: "fs_faults fs3 = []" "fs_data fs3 (fs_next fs) = []" using 3 f2 by (simp_all add: quiet_def)
  obtain fs4 where 4: "sys_read fd 4 fs3 = (Some [], fs4)" "quiet fs3 fs4" "fd_at fd fs4 = Some (fs_next fs, 0)"
    using sys_read_ok [OF d3(1) 3(3), of 4] d3(2) by auto
  have d4: "fs_faults fs4 = []" "fs_data fs4 (fs_next fs) = []" using 4 d3 by (simp_all add: quiet_def)
  obtain fs5 where 5: "sys_read fd 8 fs4 = (Some [], fs5)" "quiet fs4 fs5" "fd_at fd fs5 = Some (fs_next fs, 0)"
    using sys_read_ok [OF d4(1) 4(3), of 8] d4(2) by auto
  have q: "quiet fs2 fs5" using quiet_trans [OF quiet_trans [OF 3(2) 4(2)] 5(2)] .
  have fl: "fs_files fs5 = (meta_path dbPath, fs_next fs) # fs_files fs" "fs_dirs fs5 = fs_dirs fs1"
      "fs_next fs5 = fs_next fs + 1" "fs_faults fs5 = []"
    using q f2 by (simp_all add: quiet_def)
  let ?s = "s\<lparr> sg_meta_fd := fd, sg_cur_id := 0, sg_cur_fd := - 1, sg_cur_offset := 0,
      sg_file_size := sg_max_size s \<rparr>"
  have path: "ToSegmentPath a ?s = ToSegmentPath a s" for a by (simp add: ToSegmentPath_def)
  have none: "map_of (fs_files fs5) (ToSegmentPath sid s) = None" for sid
    using fl(1) meta_path_no_segment [OF s, of sid] fr by (simp add: seg_path [OF s] fresh_fs_def)
  have inj: "\<forall>p q i. map_of (fs_files fs5) p = Some i \<longrightarrow> map_of (fs_files fs5) q = Some i \<longrightarrow> p = q"
    and lt: "\<forall>p i. map_of (fs_files fs5) p = Some i \<longrightarrow> i < fs_next fs5"
    using fr fl(1,3) less_irrefl unfolding fresh_fs_def by (auto split: if_splits intro: less_SucI)
  have dirs: "ToSegmentPath sid s \<notin> set (fs_dirs fs5)" for sid
    using nd fl(2) by (simp add: seg_path [OF s])
  have no: "fd_at (- 1) fs5 = None" by (simp add: fd_at_def)
  have "seg_inv (?s, fs5)"
    using inj lt dirs no none 5(3) fl(3) z by (simp add: seg_inv_def path)
  moreover have "fs_data fs5 (fs_next fs) = []" using q f2(5) by (simp add: quiet_def)
  then have "\<exists>mino. fd_at fd fs5 = Some (mino, 0) \<and> map_of (fs_files fs5) (meta_path dbPath) = Some mino \<and>
      fs_data fs5 mino = []"
    by (simp add: fl(1) 5(3))
  moreover have "store_dir dbPath \<in> set (fs_dirs fs5)" "meta_path dbPath \<notin> set (fs_dirs fs5)"
    using fl(2) fs1(5) m(2) by simp_all
  moreover have "fd \<noteq> - 1" using f2(2) by simp
  ultimately show ?thesis using 2 3(1) 4(1) 5(1) fl(4) none by blast
qed

text \<open>The records of a segment, and a store in its first segment whose process may be replaced.\<close>

definition seg_bytes :: "(string \<times> string) list \<Rightarrow> string" where
  "seg_bytes rs = concat (map (\<lambda>(k, v). rec_bytes k v) rs)"

lemma seg_bytes_simps [simp]:
  "seg_bytes [] = []" "seg_bytes ((k, v) # rs) = rec_bytes k v @ seg_bytes rs"
  "seg_bytes (rs @ rs') = seg_bytes rs @ seg_bytes rs'"
  by (simp_all add: seg_bytes_def)

text \<open>A segment that holds records of the right key length, then zeros.\<close>

definition seg_holds :: "nat \<Rightarrow> (string \<times> string) list \<Rightarrow> SegmentStore \<times> FS \<Rightarrow> bool" where
  "seg_holds ino rs sf \<longleftrightarrow> (\<exists>m. fs_data (snd sf) ino = seg_bytes rs @ replicate m NUL) \<and>
     (\<forall>r\<in>set rs. length (fst r) = unat (sg_key_len (fst sf)))"

definition restartable :: "LogStorageOptions \<Rightarrow> (string \<times> string) list \<Rightarrow> SegmentStore \<times> FS \<Rightarrow> bool" where
  "restartable options rs sf \<longleftrightarrow> (case sf of (s, fs) \<Rightarrow>
     seg_ready (s, fs) \<and> sg_cur_id s = 0 \<and> lo_dbPath options \<noteq> [] \<and>
     lo_indexKeyLength options \<noteq> 0 \<and>
     sg_db_path s = store_dir (lo_dbPath options) \<and> sg_key_len s = lo_indexKeyLength options \<and>
     sg_max_size s = lo_segmentMaxSize options \<and> store_dir (lo_dbPath options) \<in> set (fs_dirs fs) \<and>
     meta_path (lo_dbPath options) \<notin> set (fs_dirs fs) \<and>
     (\<exists>mino mp. fd_at (sg_meta_fd s) fs = Some (mino, mp) \<and>
        map_of (fs_files fs) (meta_path (lo_dbPath options)) = Some mino \<and> fs_data fs mino = []) \<and>
     (\<exists>ino. map_of (fs_files fs) (ToSegmentPath 0 s) = Some ino \<and> fs_data fs ino \<noteq> [] \<and>
        length (fs_data fs ino) < 2 ^ 62 \<and> seg_holds ino rs (s, fs)) \<and>
     sg_cur_offset s = of_nat (length (seg_bytes rs)) \<and> length (seg_bytes rs) < 2 ^ 31)"

lemma Padding_data:
  assumes e: "fs_faults fs = []" and c: "fd_at (sg_cur_fd s) fs = Some (ino, p)"
    and d: "fs_data fs ino = []" and z: "0 < unat (sg_max_size s)" "unat (sg_max_size s) < 2 ^ 62"
    and r: "PaddingIfNewSegment (s, fs) = (1, s', fs')"
  shows "fs_data fs' ino = replicate (unat (sg_max_size s)) NUL"
proof -
  have mo: "unat (sg_max_size s - 1) = unat (sg_max_size s) - 1"
    using z(1) by (rule unat_minus_one_nonzero)
  have so: "sint (sg_max_size s - 1) = int (unat (sg_max_size s) - 1)"
    using z mo by (subst sint_small) simp_all
  have w: "of_nat (unat (sg_max_size s) - Suc 0) = sg_max_size s - 1"
    using mo word_of_nat_unat [of "sg_max_size s - 1"] by simp
  have "write_at (unat (sg_max_size s) - 1) [NUL] [] = replicate (unat (sg_max_size s)) NUL"
    using z(1) by (cases "unat (sg_max_size s)") (simp_all add: write_at_def NUL_def replicate_append_same)
  moreover have "fs_data fs' ino = write_at (unat (sg_max_size s) - 1) [NUL] []"
    using r e c d unfolding PaddingIfNewSegment_def
    by (simp add: sys_lseek_end_def sys_lseek_set_def sys_write_def short_def so w Let_def)
      (auto simp: Let_def)
  ultimately show ?thesis by simp
qed

lemma OpenSegment_cong:
  "sg_db_path s' = sg_db_path s \<Longrightarrow> OpenSegment sid c (s', fs) = OpenSegment sid c (s, fs)"
  by (simp add: OpenSegment_def ToSegmentPath_def)

theorem Segment_Init_fresh:
  assumes new: "sg_db_path s = []" and n: "lo_indexKeyLength options \<noteq> 0"
      "unat (lo_indexKeyLength options) < 2 ^ 62"
    and db: "lo_dbPath options \<noteq> []" and e: "fs_faults fs = []" and fr: "fresh_fs (lo_dbPath options) fs"
    and z: "0 < unat (lo_segmentMaxSize options)" "unat (lo_segmentMaxSize options) < 2 ^ 62"
  shows "\<exists>s' fs'. Segment_Init crc options (s, fs) = Some (Inr (True, lo_removeAsync options, s', fs')) \<and>
    restartable options [] (s', fs') \<and> sg_file_size s' = lo_segmentMaxSize options \<and>
    sg_scheduler s' = sg_scheduler s \<and>
    (\<exists>ino. map_of (fs_files fs') (ToSegmentPath 0 s') = Some ino \<and>
       length (fs_data fs' ino) = unat (lo_segmentMaxSize options))"
proof -
  let ?db = "lo_dbPath options"
  let ?s1 = "s\<lparr> sg_db_path := store_dir ?db, sg_key_len := lo_indexKeyLength options \<rparr>"
  let ?m = "?s1\<lparr> sg_max_size := lo_segmentMaxSize options \<rparr>"
  have n0: "map_of (fs_files fs) (store_dir ?db) = None"
    using fr append_Nil2 unfolding fresh_fs_def by metis
  obtain fs1 where 1: "CreateIfNotExists (store_dir ?db) fs = (True, fs1)"
    using CreateIfNotExists_fresh [OF e n0] by blast
  obtain mfd fs2 fs3 fs4 fs5 where 2: "sys_open True (meta_path ?db) fs1 = (mfd, fs2)" "mfd \<noteq> - 1"
      "sys_lseek_set mfd 0 fs2 = (0, fs3)" "sys_read mfd 4 fs3 = (Some [], fs4)"
      "sys_read mfd 8 fs4 = (Some [], fs5)" "fs_faults fs5 = []"
    and i5: "seg_inv (?m\<lparr> sg_meta_fd := mfd, sg_cur_id := 0, sg_cur_fd := - 1, sg_cur_offset := 0,
        sg_file_size := sg_max_size ?m \<rparr>, fs5)"
    and none: "map_of (fs_files fs5) (ToSegmentPath 0 ?m) = None"
    and m5: "\<exists>mino. fd_at mfd fs5 = Some (mino, 0) \<and>
        map_of (fs_files fs5) (meta_path ?db) = Some mino \<and> fs_data fs5 mino = []"
      "store_dir ?db \<in> set (fs_dirs fs5)" "meta_path ?db \<notin> set (fs_dirs fs5)"
    using metadata_fresh [OF e fr _ 1, of ?m] n(2) z(2) by auto
  let ?s5 = "?m\<lparr> sg_meta_fd := mfd, sg_cur_id := 0, sg_cur_fd := - 1, sg_cur_offset := 0,
        sg_file_size := sg_max_size ?m \<rparr>"
  obtain st fd fs6 where op: "OpenSegment (sg_cur_id ?s5) True (?s5, fs5) = (st, fd, fs6)"
    by (metis prod_cases3)
  have f5: "map_of (fs_files fs5) (ToSegmentPath (sg_cur_id ?s5) ?s5) = None"
    using none by (simp add: ToSegmentPath_def)
  have no: "fd_at (sg_cur_fd ?s5) fs5 = None" by (simp add: fd_at_def)
  let ?s6 = "?s5\<lparr> sg_cur_fd := fd, sg_cur_offset := 0, sg_file_size := sg_max_size ?s5 \<rparr>"
  from open_keeps [OF i5 op f5 no, of crc] 2(6)
  have st: "st" and k6: "keeps crc (?s5, fs5) (?s6, fs6)" and fd: "fd_at fd fs6 = Some (fs_next fs5, 0)"
    and em: "fs_data fs6 (fs_next fs5) = []" by simp_all
  have e6: "fs_faults fs6 = []" and i6: "seg_inv (?s6, fs6)" using k6 2(6) by (simp_all add: keeps_def)
  let ?u = "?s1\<lparr> sg_meta_fd := mfd, sg_cur_id := 0, sg_cur_fd := fd, sg_max_size := lo_segmentMaxSize options \<rparr>"
  have fdu: "fd_at (sg_cur_fd ?u) fs6 = Some (fs_next fs5, 0)" using fd by simp
  have "\<exists>s' fs'. PaddingIfNewSegment (?u, fs6) = (1, s', fs')"
    using z by (intro PaddingIfNewSegment_succeeds [OF e6 fdu em]) simp_all
  then obtain s7 fs7 where pd: "PaddingIfNewSegment (?u, fs6) = (1, s7, fs7)" by blast
  note p1 = PaddingIfNewSegment_touches(1) [OF pd fdu]
  have s7: "s7 = ?u\<lparr> sg_file_size := lo_segmentMaxSize options \<rparr>"
    using PaddingIfNewSegment_touches(2) [OF pd fdu] by auto
  have k7: "keeps crc (?s6, fs6) (?s6, fs7)" by (rule touches_keeps [OF i6 p1]) (use fd in simp)
  have e7: "fs_faults fs7 = []" and i7: "seg_inv (?s6, fs7)" using k7 e6 by (simp_all add: keeps_def)
  obtain q where f7: "fd_at fd fs7 = Some (fs_next fs5, q)" using touches_fd(2) [OF p1 fd] by blast
  obtain fs8 where 8: "sys_lseek_set fd 0 fs7 = (0, fs8)" "quiet fs7 fs8" "fd_at fd fs8 = Some (fs_next fs5, 0)"
    using sys_lseek_set_ok [OF e7 f7, of 0] by auto
  have eq: "?s6 = s7\<lparr> sg_cur_offset := 0 \<rparr>" using s7 by (cases s) simp
  have rdy: "seg_ready (s7\<lparr> sg_cur_offset := 0 \<rparr>, fs8)"
    using quiet_keeps [OF i7 8(2)] e7 8(3) unfolding eq [symmetric] by (simp add: seg_ready_def keeps_def)
  have init: "Segment_Init crc options (s, fs)
      = Some (Inr (True, lo_removeAsync options, s7\<lparr> sg_cur_offset := 0 \<rparr>, fs8))"
  proof -
    have path: "dbPath @ slash dbPath @ SEGMENT_STORE_DIR = store_dir dbPath"
      "store_dir dbPath @ slash dbPath @ METADATA_FILE = meta_path dbPath" for dbPath
      by (simp_all add: store_dir_def meta_path_def)
    have op': "OpenSegment 0 True (?s1\<lparr> sg_meta_fd := mfd, sg_cur_id := 0 \<rparr>, fs5) = (True, fd, fs6)"
      using op st OpenSegment_cong [of "?s1\<lparr> sg_meta_fd := mfd, sg_cur_id := 0 \<rparr>" ?s5 0 True fs5] by simp
    have 8: "sys_lseek_set (sg_cur_fd s7) 0 fs7 = (0, fs8)" using 8(1) s7 by simp
    show ?thesis
      using new n(1) db 1 2 op' pd 8 by (simp add: Segment_Init_def Let_def path)
  qed
  have "sys_open True (ToSegmentPath 0 ?m) fs5 = (fd, fs6)"
    using op st ToSegmentPath_cong [of ?s5 ?m 0] by (auto simp: OpenSegment_def split: prod.splits)
  from sys_open_fresh [OF this none] seg_invD(5) [OF i5, of 0] fd 2(6)
  have f6: "fs_files fs6 = (ToSegmentPath 0 ?m, fs_next fs5) # fs_files fs5" "fs_dirs fs6 = fs_dirs fs5"
      "fs_data fs6 = (fs_data fs5)(fs_next fs5 := [])"
      "\<forall>fd'. fd' \<noteq> fd \<longrightarrow> map_option fst (fd_at fd' fs6) = map_option fst (fd_at fd' fs5)"
      "fd_at fd fs5 = None"
    by (auto simp: ToSegmentPath_def quiet_def)
  have p0: "ToSegmentPath 0 ?m \<noteq> meta_path ?db" by (rule meta_path_no_segment) simp
  obtain mino where mino: "map_of (fs_files fs5) (meta_path ?db) = Some mino" "fs_data fs5 mino = []"
      "fd_at mfd fs5 = Some (mino, 0)"
    using m5(1) by blast
  have "mfd \<noteq> fd" using mino(3) f6(5) by auto
  then have "map_option fst (fd_at mfd fs6) = Some mino" using f6(4) mino(3) by simp
  then obtain p6 where "fd_at mfd fs6 = Some (mino, p6)" by auto
  then obtain mp where m8: "fd_at mfd fs8 = Some (mino, mp)"
    using touches_fd(2) [OF touches_trans [OF p1 touches_quiet [OF 8(2)]]] by blast
  have mlt: "mino < fs_next fs5" using seg_invD(2) [OF i5 mino(1)] .
  have z6: "0 < unat (sg_max_size ?u)" "unat (sg_max_size ?u) < 2 ^ 62" using z by simp_all
  have d7: "fs_data fs7 (fs_next fs5) = replicate (unat (lo_segmentMaxSize options)) NUL"
    using Padding_data [OF e6 fdu em z6 pd] by simp
  have f8: "fs_files fs8 = fs_files fs6" "fs_dirs fs8 = fs_dirs fs5" "fs_data fs8 = fs_data fs7"
      "fs_data fs7 mino = []"
    using 8(2) p1 f6 mino(2) mlt by (simp_all add: quiet_def touches_def)
  have rs: "restartable options [] (s7\<lparr> sg_cur_offset := 0 \<rparr>, fs8)"
    unfolding restartable_def prod.case
    using rdy db n m5(2,3) mino f8 f6 d7 z p0 m8
    by (auto simp: s7 seg_holds_def ToSegmentPath_def intro: exI [of _ mino] exI [of _ "fs_next fs5"])
  have "map_of (fs_files fs8) (ToSegmentPath 0 (s7\<lparr> sg_cur_offset := 0 \<rparr>)) = Some (fs_next fs5)"
    using f8(1) f6(1) by (simp add: s7 ToSegmentPath_def)
  moreover have "length (fs_data fs8 (fs_next fs5)) = unat (lo_segmentMaxSize options)"
    using f8(3) d7 by simp
  ultimately have "\<exists>ino. map_of (fs_files fs8) (ToSegmentPath 0 (s7\<lparr> sg_cur_offset := 0 \<rparr>)) = Some ino \<and>
    length (fs_data fs8 ino) = unat (lo_segmentMaxSize options)" by blast
  moreover have "sg_file_size (s7\<lparr> sg_cur_offset := 0 \<rparr>) = lo_segmentMaxSize options"
    "sg_scheduler (s7\<lparr> sg_cur_offset := 0 \<rparr>) = sg_scheduler s" by (simp_all add: s7)
  ultimately show ?thesis using init rs by blast
qed

subsection \<open>A start after a change of segment\<close>

text \<open>
  Once nine bytes are in the metadata file, the read of the stored checksum leaves its object.
\<close>

lemma Segment_Init_overflow:
  assumes new: "sg_db_path s = []" and n: "lo_indexKeyLength options \<noteq> 0" and db: "lo_dbPath options \<noteq> []"
    and e: "fs_faults fs = []" and d: "store_dir (lo_dbPath options) \<in> set (fs_dirs fs)"
    and m: "map_of (fs_files fs) (meta_path (lo_dbPath options)) = Some mino"
      "meta_path (lo_dbPath options) \<notin> set (fs_dirs fs)" and l: "8 < length (fs_data fs mino)"
  shows "Segment_Init crc options (s, fs) = Some (Inl OutOfBounds)"
proof -
  let ?db = "lo_dbPath options"
  have path: "dbPath @ slash dbPath @ SEGMENT_STORE_DIR = store_dir dbPath"
    "store_dir dbPath @ slash dbPath @ METADATA_FILE = meta_path dbPath" for dbPath
    by (simp_all add: store_dir_def meta_path_def)
  have 1: "CreateIfNotExists (store_dir ?db) fs = (True, fs)"
    using e d by (simp add: CreateIfNotExists_def sys_stat_def)
  obtain mfd fs2 where 2: "sys_open True (meta_path ?db) fs = (mfd, fs2)" "mfd \<noteq> - 1"
    using sys_open_ok [OF e m] by blast
  have q2: "quiet_but mfd fs fs2" "fd_at mfd fs2 = Some (mino, 0)"
    using sys_open_existing [OF 2 m(1)] by simp_all
  have e2: "fs_faults fs2 = []" "fs_data fs2 = fs_data fs" using q2(1) e by (simp_all add: quiet_but_def)
  obtain fs3 where 3: "sys_lseek_set mfd 0 fs2 = (0, fs3)" "quiet fs2 fs3" "fd_at mfd fs3 = Some (mino, 0)"
    using sys_lseek_set_ok [OF e2(1) q2(2), of 0] by auto
  have e3: "fs_faults fs3 = []" "fs_data fs3 = fs_data fs" using 3(2) e2 by (simp_all add: quiet_def)
  have l4: "length (take 4 (fs_data fs mino)) = 4" using l by simp
  obtain fs4 where 4: "sys_read mfd 4 fs3 = (Some (take 4 (fs_data fs mino)), fs4)" "quiet fs3 fs4"
      "fd_at mfd fs4 = Some (mino, 4)"
    using sys_read_ok [OF e3(1) 3(3), of 4] l4 e3(2) by auto
  have e4: "fs_faults fs4 = []" "fs_data fs4 = fs_data fs" using 4(2) e3 by (simp_all add: quiet_def)
  obtain fs5 where 5: "sys_read mfd 8 fs4 = (Some (take 8 (drop 4 (fs_data fs mino))), fs5)"
    using sys_read_ok [OF e4(1) 4(3), of 8] e4(2) by auto
  have "4 < length (take 8 (drop 4 (fs_data fs mino)))" and "take 4 (fs_data fs mino) \<noteq> []"
    using l by (simp_all, auto)
  then show ?thesis
    using new n db 1 2 3(1) 4(1) 5 l4 by (simp add: Segment_Init_def Let_def path)
qed

subsection \<open>Replaying a segment\<close>

lemma to_int_small:
  assumes "unat (w :: u64) < 2 ^ 31"
  shows "to_int w = int (unat w)"
proof -
  have ui: "uint w = int (unat w)" by simp
  then have "uint w < 2 ^ 31" using assms by (metis of_nat_less_iff of_nat_numeral of_nat_power)
  then have "signed_take_bit 31 (uint w) = uint w"
    by (intro signed_take_bit_int_eq_self order_trans [OF _ unsigned_greater_eq [of w]]) simp_all
  then have "to_int w = uint w"
    by (simp add: to_int_def sint_uint unsigned_ucast_eq signed_take_bit_take_bit)
  with ui show ?thesis by (simp only:)
qed

text \<open>A segment that is replayed: it exists, and the file system does not fail.\<close>

definition replayable :: "SEGMENT_ID \<Rightarrow> nat \<Rightarrow> SegmentStore \<times> FS \<Rightarrow> bool" where
  "replayable sid ino sf \<longleftrightarrow> fs_faults (snd sf) = [] \<and>
     map_of (fs_files (snd sf)) (ToSegmentPath sid (fst sf)) = Some ino \<and>
     ToSegmentPath sid (fst sf) \<notin> set (fs_dirs (snd sf))"

lemma replay_open:
  assumes r: "replayable sid ino (s, fs)" and o: "unat (off :: u64) < 2 ^ 63"
  shows "\<exists>fd fs1 fs2. SegmentExists sid (s, fs) = (True, fs) \<and> OpenSegment sid True (s, fs) = (True, fd, fs1) \<and>
    0 \<le> fd \<and> fd_at fd fs = None \<and> sys_lseek_set fd (sint off) fs1 = (sint off, fs2) \<and> sint off \<noteq> - 1 \<and>
    quiet_but fd fs fs2 \<and> fd_at fd fs2 = Some (ino, unat off) \<and> fs_faults fs2 = []"
proof -
  have e: "fs_faults fs = []" and f: "map_of (fs_files fs) (ToSegmentPath sid s) = Some ino"
    and d: "ToSegmentPath sid s \<notin> set (fs_dirs fs)" using r by (simp_all add: replayable_def)
  obtain fd fs1 where 1: "sys_open True (ToSegmentPath sid s) fs = (fd, fs1)" "fd \<noteq> - 1"
    using sys_open_ok [OF e f d] by blast
  have 2: "quiet_but fd fs fs1" "fd_at fd fs = None" "fd_at fd fs1 = Some (ino, 0)" "0 \<le> fd"
    using sys_open_existing [OF 1 f] by simp_all
  have so: "sint off = int (unat off)" by (rule sint_small [OF o])
  have e1: "fs_faults fs1 = []" using 2(1) e by (simp add: quiet_but_def)
  obtain fs2 where 3: "sys_lseek_set fd (sint off) fs1 = (sint off, fs2)" "quiet fs1 fs2"
      "fd_at fd fs2 = Some (ino, unat off)"
    using sys_lseek_set_ok [OF e1 2(3), of "sint off"] so by auto
  have "SegmentExists sid (s, fs) = (True, fs)" using e f by (simp add: SegmentExists_def sys_access_def)
  moreover have "OpenSegment sid True (s, fs) = (True, fd, fs1)" using 1 by (simp add: OpenSegment_def)
  moreover have "0 \<le> sint off" unfolding so by simp
  then have "sint off \<noteq> - 1" by linarith
  ultimately show ?thesis using 2 3 quiet_but_quiet [OF 2(1) 3(2)] e1 by (auto simp: quiet_def)
qed

lemma ReplayLog_record:
  assumes r: "replayable sid ino (s, fs)" and k: "length k = unat (sg_key_len s)" "0 < length k + length v"
    and b: "unat off + (8 + length k + length v) < 2 ^ 63"
    and rg: "take (8 + length k + length v) (drop (unat off) (fs_data fs ino)) = rec_bytes k v"
  shows "\<exists>fs'. quiet fs fs' \<and> ReplayLog crc sid off (s, fs) =
    Inr (to_int (off + 8 + of_nat (length k + length v)),
         Some (k, ToSegmentIndex sid off (ucast (crc (k @ v)))), fs')"
proof -
  have "unat off < 2 ^ 63" using b by simp
  from replay_open [OF r this] obtain fd fs1 fs2 where
    o: "SegmentExists sid (s, fs) = (True, fs)" "OpenSegment sid True (s, fs) = (True, fd, fs1)"
      "0 \<le> fd" "sys_lseek_set fd (sint off) fs1 = (sint off, fs2)" "sint off \<noteq> - 1"
    and n: "fd_at fd fs = None" and q2: "quiet_but fd fs fs2" and f2: "fd_at fd fs2 = Some (ino, unat off)"
    and e2: "fs_faults fs2 = []" by blast
  note rf = record_fields [OF rg]
  have d2: "fs_data fs2 = fs_data fs" using q2 by (simp add: quiet_but_def)
  let ?kv = "of_nat (length k + length v) :: u64"
  have ukv: "unat ?kv = length k + length v" using b by (intro unat_of_nat_u64) simp
  have kv0: "?kv \<noteq> 0" using ukv k(2) by (metis less_irrefl_nat unsigned_0)
  obtain fs3 where 3: "sys_read fd 8 fs2 = (Some (word_bytes 8 ?kv), fs3)" "quiet fs2 fs3"
      "fd_at fd fs3 = Some (ino, unat off + 8)"
    using sys_read_ok [OF e2 f2, of 8] rf(1) d2 by auto
  have d3: "fs_data fs3 = fs_data fs" "fs_faults fs3 = []" using 3(2) d2 e2 by (simp_all add: quiet_def)
  have reg: "take (length k + length v) (drop (unat off + 8) (fs_data fs ino)) = k @ v"
    using rf(2,3) by (simp add: take_add add.commute)
  obtain fs4 where 4: "sys_read fd (length k + length v) fs3 = (Some (k @ v), fs4)" "quiet fs3 fs4"
    using sys_read_ok [OF d3(2) 3(3), of "length k + length v"] reg d3(1) by auto
  have q: "quiet fs (sys_close fd fs4)"
    using quiet_close [OF quiet_but_quiet [OF quiet_but_quiet [OF q2 3(2)] 4(2)] n] .
  have "ReplayLog crc sid off (s, fs) = Inr (to_int (off + 8 + ?kv),
         Some (k, ToSegmentIndex sid off (ucast (crc (k @ v)))), sys_close fd fs4)"
    unfolding ReplayLog_def using o 3(1) 4(1) kv0
    by (simp add: Let_def ukv k(1) [symmetric] del: of_nat_add)
  with q show ?thesis by blast
qed

lemma word_of_NULs: "word_of_bytes (replicate n NUL) = (0 :: 'a::len word)"
proof -
  have "le_val (replicate n NUL) = 0" by (induction n) (simp_all add: NUL_def)
  then show ?thesis by (simp add: word_of_bytes_def)
qed

lemma ReplayLog_end:
  assumes r: "replayable sid ino (s, fs)" and b: "unat off < 2 ^ 63"
    and z: "drop (unat off) (fs_data fs ino) = replicate m NUL"
  shows "\<exists>fs'. quiet fs fs' \<and> ReplayLog crc sid off (s, fs) = Inr (0, None, fs')"
proof -
  from replay_open [OF r b] obtain fd fs1 fs2 where
    o: "SegmentExists sid (s, fs) = (True, fs)" "OpenSegment sid True (s, fs) = (True, fd, fs1)"
      "0 \<le> fd" "sys_lseek_set fd (sint off) fs1 = (sint off, fs2)" "sint off \<noteq> - 1"
    and n: "fd_at fd fs = None" and q2: "quiet_but fd fs fs2" and f2: "fd_at fd fs2 = Some (ino, unat off)"
    and e2: "fs_faults fs2 = []" by blast
  have d2: "fs_data fs2 = fs_data fs" using q2 by (simp add: quiet_but_def)
  obtain fs3 where 3: "sys_read fd 8 fs2 = (Some (replicate (min 8 m) NUL), fs3)" "quiet fs2 fs3"
    using sys_read_ok [OF e2 f2, of 8] z d2 by (auto simp: take_replicate)
  have q: "quiet fs (sys_close fd fs3)" using quiet_close [OF quiet_but_quiet [OF q2 3(2)] n] .
  have "ReplayLog crc sid off (s, fs) = Inr (0, None, sys_close fd fs3)"
    unfolding ReplayLog_def using o 3(1) by (simp add: Let_def word_of_NULs)
  with q show ?thesis by blast
qed

lemma replay_loop_log:
  assumes "replayable sid ino (s, fs)" and "0 < unat (sg_key_len s)"
    and "fs_data fs ino = seg_bytes pre @ seg_bytes rs @ replicate m NUL"
    and "\<forall>r\<in>set rs. length (fst r) = unat (sg_key_len s)"
    and "length (seg_bytes (pre @ rs)) < 2 ^ 31"
  shows "\<exists>fs'. quiet fs fs' \<and> replay_loop crc sid (of_nat (length (seg_bytes pre))) (s, fs) =
    Some (Inr (True, int (length (seg_bytes (pre @ rs))), fs'))"
  using assms
proof (induction rs arbitrary: pre fs)
  case Nil
  let ?off = "of_nat (length (seg_bytes pre)) :: u64"
  have u: "unat ?off = length (seg_bytes pre)" using Nil.prems(5) by (intro unat_of_nat_u64) simp
  have b: "unat ?off < 2 ^ 63" using u Nil.prems(5) by simp
  have z: "drop (unat ?off) (fs_data fs ino) = replicate m NUL" using Nil.prems(3) u by simp
  obtain fs' where r: "ReplayLog crc sid ?off (s, fs) = Inr (0, None, fs')" and q: "quiet fs fs'"
    using ReplayLog_end [OF Nil.prems(1) b z] by blast
  have "sint ?off = int (length (seg_bytes pre))" using sint_small [OF b] u by (simp only:)
  then show ?case using r q by (subst replay_loop.simps) simp
next
  case (Cons kv rs)
  obtain k v where kv: "kv = (k, v)" by force
  let ?off = "of_nat (length (seg_bytes pre)) :: u64"
  let ?next = "of_nat (length (seg_bytes (pre @ [kv]))) :: u64"
  have u: "unat ?off = length (seg_bytes pre)" using Cons.prems(5) by (intro unat_of_nat_u64) simp
  have b: "unat ?off + (8 + length k + length v) < 2 ^ 63" using u Cons.prems(5) kv by simp
  have rg: "take (8 + length k + length v) (drop (unat ?off) (fs_data fs ino)) = rec_bytes k v"
    using Cons.prems(3) kv by (simp add: u)
  have k: "length k = unat (sg_key_len s)" "0 < length k + length v" using Cons.prems(2,4) kv by auto
  obtain fs1 where r: "ReplayLog crc sid ?off (s, fs) = Inr (to_int (?off + 8 + of_nat (length k + length v)),
         Some (k, ToSegmentIndex sid ?off (ucast (crc (k @ v)))), fs1)" and q: "quiet fs fs1"
    using ReplayLog_record [OF Cons.prems(1) k b rg] by blast
  have nx: "?off + 8 + of_nat (length k + length v) = ?next" by (simp add: kv)
  have un: "unat ?next = length (seg_bytes (pre @ [kv]))"
    using Cons.prems(5) kv by (intro unat_of_nat_u64) simp
  have small: "length (seg_bytes (pre @ [kv])) < 2 ^ 31" using Cons.prems(5) kv by simp
  then have ti: "to_int ?next = int (length (seg_bytes (pre @ [kv])))"
    using to_int_small [of ?next] un by (simp only:)
  have pos: "0 < to_int ?next" unfolding ti by (simp add: kv)
  have "replayable sid ino (s, fs1)" using Cons.prems(1) q by (simp add: replayable_def quiet_def)
  moreover have "fs_data fs1 ino = seg_bytes (pre @ [kv]) @ seg_bytes rs @ replicate m NUL"
    using Cons.prems(3) q by (simp add: quiet_def kv)
  ultimately obtain fs' where ih: "quiet fs1 fs'" "replay_loop crc sid ?next (s, fs1) =
      Some (Inr (True, int (length (seg_bytes ((pre @ [kv]) @ rs))), fs'))"
    using Cons.IH [of fs1 "pre @ [kv]"] Cons.prems(2,4,5) by auto
  have w: "word_of_int (to_int ?next) = ?next" unfolding ti by simp
  have "replay_loop crc sid ?off (s, fs) = replay_loop crc sid ?next (s, fs1)"
    using pos w by (subst replay_loop.simps) (simp add: r nx del: of_nat_add length_append)
  with ih quiet_trans [OF q ih(1)] show ?case by auto
qed

theorem replay_finds_end:
  assumes "replayable sid ino (s, fs)" and "0 < unat (sg_key_len s)" and "seg_holds ino rs (s, fs)"
    and "length (seg_bytes rs) < 2 ^ 31"
  shows "\<exists>fs'. quiet fs fs' \<and> ReplaySegment crc sid 0 (s, fs) = Some (Inr (True, int (length (seg_bytes rs)), fs'))"
proof -
  obtain m where "fs_data fs ino = seg_bytes [] @ seg_bytes rs @ replicate m NUL"
    using assms(3) by (auto simp: seg_holds_def)
  from replay_loop_log [OF assms(1,2) this] assms(3,4) show ?thesis
    by (simp add: seg_holds_def ReplaySegment_def)
qed

subsection \<open>A restart in the first segment\<close>

text \<open>The metadata file is opened and empty; what the file system holds is unchanged.\<close>

lemma metadata_empty:
  assumes e: "fs_faults fs = []" and m: "map_of (fs_files fs) path = Some mino" "path \<notin> set (fs_dirs fs)"
    and d: "fs_data fs mino = []"
  shows "\<exists>fd fs2 fs3 fs4 fs5. sys_open True path fs = (fd, fs2) \<and> fd \<noteq> - 1 \<and>
    sys_lseek_set fd 0 fs2 = (0, fs3) \<and> sys_read fd 4 fs3 = (Some [], fs4) \<and>
    sys_read fd 8 fs4 = (Some [], fs5) \<and> quiet_but fd fs fs5 \<and> fd_at fd fs5 = Some (mino, 0)"
proof -
  obtain fd fs2 where 2: "sys_open True path fs = (fd, fs2)" "fd \<noteq> - 1"
    using sys_open_ok [OF e m] by blast
  have q2: "quiet_but fd fs fs2" "fd_at fd fs2 = Some (mino, 0)"
    using sys_open_existing [OF 2 m(1)] by simp_all
  have e2: "fs_faults fs2 = []" "fs_data fs2 = fs_data fs" using q2(1) e by (simp_all add: quiet_but_def)
  obtain fs3 where 3: "sys_lseek_set fd 0 fs2 = (0, fs3)" "quiet fs2 fs3" "fd_at fd fs3 = Some (mino, 0)"
    using sys_lseek_set_ok [OF e2(1) q2(2), of 0] by auto
  have e3: "fs_faults fs3 = []" "fs_data fs3 mino = []" using 3(2) e2 d by (simp_all add: quiet_def)
  obtain fs4 where 4: "sys_read fd 4 fs3 = (Some [], fs4)" "quiet fs3 fs4" "fd_at fd fs4 = Some (mino, 0)"
    using sys_read_ok [OF e3(1) 3(3), of 4] e3(2) by auto
  have e4: "fs_faults fs4 = []" "fs_data fs4 mino = []" using 4(2) e3 by (simp_all add: quiet_def)
  obtain fs5 where 5: "sys_read fd 8 fs4 = (Some [], fs5)" "quiet fs4 fs5" "fd_at fd fs5 = Some (mino, 0)"
    using sys_read_ok [OF e4(1) 4(3), of 8] e4(2) by auto
  show ?thesis
    using 2 3(1) 4(1) 5(1,3) quiet_but_quiet [OF quiet_but_quiet [OF quiet_but_quiet [OF q2(1) 3(2)] 4(2)] 5(2)]
    by blast
qed

text \<open>The same files and contents; descriptors may differ, as after a close.\<close>

definition same_disk :: "FS \<Rightarrow> FS \<Rightarrow> bool" where
  "same_disk a b \<longleftrightarrow> fs_files b = fs_files a \<and> fs_dirs b = fs_dirs a \<and> fs_data b = fs_data a \<and>
     fs_next b = fs_next a \<and> fs_faults b = fs_faults a"

lemma same_disk_refl [simp]: "same_disk fs fs"
  by (simp add: same_disk_def)

lemma same_disk_close [simp]: "same_disk fs (sys_close fd fs)"
  by (simp add: same_disk_def)

lemma restart_state:
  assumes r: "restartable options rs (s, fs)" and new: "sg_db_path s0 = []" and sd: "same_disk fs fs0"
  shows "\<exists>mfd fd fs'. let s' = s0\<lparr> sg_db_path := sg_db_path s, sg_key_len := sg_key_len s,
      sg_meta_fd := mfd, sg_cur_id := 0, sg_cur_fd := fd, sg_max_size := sg_max_size s,
      sg_file_size := of_nat (length (fs_data fs (the (map_of (fs_files fs) (ToSegmentPath 0 s))))),
      sg_cur_offset := sg_cur_offset s \<rparr> in
    Segment_Init crc options (s0, fs0) = Some (Inr (True, lo_removeAsync options, s', fs')) \<and>
    fs_files fs' = fs_files fs \<and> fs_data fs' = fs_data fs \<and> fs_dirs fs' = fs_dirs fs \<and>
    fs_next fs' = fs_next fs \<and> fs_faults fs' = [] \<and>
    (\<exists>p. fd_at mfd fs' = Some (the (map_of (fs_files fs) (meta_path (lo_dbPath options))), p)) \<and>
    (\<exists>p. fd_at fd fs' = Some (the (map_of (fs_files fs) (ToSegmentPath 0 s)), p))"
proof -
  let ?db = "lo_dbPath options"
  have same: "fs_files fs0 = fs_files fs" "fs_dirs fs0 = fs_dirs fs" "fs_data fs0 = fs_data fs"
      "fs_next fs0 = fs_next fs" "fs_faults fs0 = fs_faults fs"
    using sd by (simp_all add: same_disk_def)
  obtain mino ino where rdy: "seg_ready (s, fs)" and c: "?db \<noteq> []" "lo_indexKeyLength options \<noteq> 0"
      "sg_db_path s = store_dir ?db" "sg_key_len s = lo_indexKeyLength options"
      "sg_max_size s = lo_segmentMaxSize options"
    and dir: "store_dir ?db \<in> set (fs_dirs fs)" and md: "meta_path ?db \<notin> set (fs_dirs fs)"
    and m: "map_of (fs_files fs) (meta_path ?db) = Some mino" "fs_data fs mino = []"
    and f: "map_of (fs_files fs) (ToSegmentPath 0 s) = Some ino" "fs_data fs ino \<noteq> []"
      "seg_holds ino rs (s, fs)"
    and o: "sg_cur_offset s = of_nat (length (seg_bytes rs))" "length (seg_bytes rs) < 2 ^ 31"
    using r unfolding restartable_def prod.case by blast
  have e: "fs_faults fs0 = []" and i: "seg_inv (s, fs)" using rdy same by (simp_all add: seg_ready_def)
  have m0: "map_of (fs_files fs0) (meta_path ?db) = Some mino" "meta_path ?db \<notin> set (fs_dirs fs0)"
    "fs_data fs0 mino = []" using m md same by simp_all
  have path: "dbPath @ slash dbPath @ SEGMENT_STORE_DIR = store_dir dbPath"
    "store_dir dbPath @ slash dbPath @ METADATA_FILE = meta_path dbPath" for dbPath
    by (simp_all add: store_dir_def meta_path_def)
  have 1: "CreateIfNotExists (store_dir ?db) fs0 = (True, fs0)"
    using e dir same by (simp add: CreateIfNotExists_def sys_stat_def)
  obtain mfd fs2 fs3 fs4 fs5 where 2: "sys_open True (meta_path ?db) fs0 = (mfd, fs2)" "mfd \<noteq> - 1"
    "sys_lseek_set mfd 0 fs2 = (0, fs3)" "sys_read mfd 4 fs3 = (Some [], fs4)"
    "sys_read mfd 8 fs4 = (Some [], fs5)" and q5: "quiet_but mfd fs0 fs5" "fd_at mfd fs5 = Some (mino, 0)"
    using metadata_empty [OF e m0] by blast
  have e5: "fs_faults fs5 = []" and d5: "fs_data fs5 = fs_data fs" "fs_files fs5 = fs_files fs"
      "fs_dirs fs5 = fs_dirs fs" "fs_next fs5 = fs_next fs"
    using q5(1) e same by (simp_all add: quiet_but_def)
  let ?s1 = "s0\<lparr> sg_db_path := store_dir ?db, sg_key_len := lo_indexKeyLength options,
      sg_meta_fd := mfd, sg_cur_id := 0 \<rparr>"
  have sp: "ToSegmentPath 0 ?s1 = ToSegmentPath 0 s" using c(3) by (simp add: ToSegmentPath_def)
  have f5: "map_of (fs_files fs5) (ToSegmentPath 0 s) = Some ino" "ToSegmentPath 0 s \<notin> set (fs_dirs fs5)"
    using f(1) d5 seg_invD(5) [OF i] by simp_all
  obtain fd fs6 where 6: "sys_open True (ToSegmentPath 0 s) fs5 = (fd, fs6)" "fd \<noteq> - 1"
    using sys_open_ok [OF e5 f5] by blast
  have q6: "quiet_but fd fs5 fs6" "fd_at fd fs5 = None" "fd_at fd fs6 = Some (ino, 0)"
    using sys_open_existing [OF 6 f5(1)] by simp_all
  have ne: "mfd \<noteq> fd" using q5(2) q6(2) by auto
  have e6: "fs_faults fs6 = []" and d6: "fs_data fs6 = fs_data fs" "fs_files fs6 = fs_files fs"
      "fs_dirs fs6 = fs_dirs fs" "fs_next fs6 = fs_next fs"
    using q6(1) e5 d5 by (simp_all add: quiet_but_def)
  have m6: "map_option fst (fd_at mfd fs6) = Some mino" using q6(1) q5(2) ne by (simp add: quiet_but_def)
  have op: "OpenSegment 0 True (?s1, fs5) = (True, fd, fs6)" using 6 sp by (simp add: OpenSegment_def)
  let ?u = "?s1\<lparr> sg_cur_fd := fd, sg_max_size := lo_segmentMaxSize options \<rparr>"
  let ?n = "of_nat (length (fs_data fs ino)) :: u64"
  obtain fs7 where 7: "sys_lseek_end fd fs6 = (int (length (fs_data fs ino)), fs7)"
    using e6 q6(3) d6(1) by (simp add: sys_lseek_end_def)
  have q7: "quiet fs6 fs7" by (rule sys_lseek_end_quiet [OF 7])
  have pd: "PaddingIfNewSegment (?u, fs6) = (0, ?u\<lparr> sg_file_size := ?n \<rparr>, fs7)"
    using 7 f(2) by (simp add: PaddingIfNewSegment_def)
  let ?v = "?u\<lparr> sg_file_size := ?n \<rparr>"
  have sv: "ToSegmentPath 0 ?v = ToSegmentPath 0 s" using c(3) by (simp add: ToSegmentPath_def)
  have "replayable 0 ino (?v, fs7)"
    using q7 e6 d6 f5 d5 unfolding replayable_def fst_conv snd_conv sv by (simp add: quiet_def)
  moreover have "seg_holds ino rs (?v, fs7)"
    using f(3) q7 d6 c(4) by (simp add: seg_holds_def quiet_def)
  moreover have "0 < unat (sg_key_len ?v)" using c(2) by (simp add: unat_gt_0)
  ultimately obtain fs8 where q8: "quiet fs7 fs8"
    and 8: "ReplaySegment crc 0 0 (?v, fs7) = Some (Inr (True, int (length (seg_bytes rs)), fs8))"
    using replay_finds_end [OF _ _ _ o(2)] by blast
  have q: "quiet fs6 fs8" using quiet_trans [OF q7 q8] .
  have init: "Segment_Init crc options (s0, fs0) = Some (Inr (True, lo_removeAsync options,
      ?v\<lparr> sg_cur_offset := sg_cur_offset s \<rparr>, fs8))"
    using new c 1 2 op pd 8 o(1) by (simp add: Segment_Init_def Let_def path)
  have fm: "\<exists>p. fd_at mfd fs8 = Some (mino, p)" and fc: "\<exists>p. fd_at fd fs8 = Some (ino, p)"
    using touches_fd(2) [OF touches_quiet [OF q]] m6 q6(3) by auto
  show ?thesis
    using init fm fc q d6 e6 c m(1) f(1)
    by (intro exI [of _ mfd] exI [of _ fd] exI [of _ fs8]) (simp add: Let_def quiet_def)
qed

lemma restart_disk_keeps:
  assumes r: "restartable options rs (s, fs)" and new: "sg_db_path s0 = []" and sd: "same_disk fs fs0"
  shows "\<exists>s' fs'. Segment_Init crc options (s0, fs0) = Some (Inr (True, lo_removeAsync options, s', fs')) \<and>
    restartable options rs (s', fs') \<and> sg_cur_offset s' = sg_cur_offset s \<and>
    (\<forall>idx k v. stored crc (s, fs) idx k v \<longrightarrow> stored crc (s', fs') idx k v)"
proof -
  let ?db = "lo_dbPath options"
  obtain mino ino where rdy: "seg_ready (s, fs)" and c: "sg_cur_id s = 0" "sg_db_path s = store_dir ?db"
    and m: "map_of (fs_files fs) (meta_path ?db) = Some mino"
    and f: "map_of (fs_files fs) (ToSegmentPath 0 s) = Some ino" "length (fs_data fs ino) < 2 ^ 62"
    using r unfolding restartable_def prod.case by blast
  have i: "seg_inv (s, fs)" using rdy by (simp add: seg_ready_def)
  obtain ino' p where cur: "fd_at (sg_cur_fd s) fs = Some (ino', p)" using rdy by (auto simp: seg_ready_def)
  with seg_invD(3) [OF i cur] f(1) c(1) have cur: "fd_at (sg_cur_fd s) fs = Some (ino, p)" by simp
  have ol: "unat (sg_cur_offset s) \<le> length (fs_data fs ino)" using seg_invD(3) [OF i cur] by simp
  obtain mfd fd fs' where init: "Segment_Init crc options (s0, fs0) = Some (Inr (True, lo_removeAsync options,
      s0\<lparr> sg_db_path := sg_db_path s, sg_key_len := sg_key_len s, sg_meta_fd := mfd, sg_cur_id := 0,
        sg_cur_fd := fd, sg_max_size := sg_max_size s, sg_file_size := of_nat (length (fs_data fs ino)),
        sg_cur_offset := sg_cur_offset s \<rparr>, fs'))"
    and same: "fs_files fs' = fs_files fs" "fs_data fs' = fs_data fs" "fs_dirs fs' = fs_dirs fs"
      "fs_next fs' = fs_next fs" "fs_faults fs' = []"
    and fds: "\<exists>p. fd_at mfd fs' = Some (mino, p)" "\<exists>p. fd_at fd fs' = Some (ino, p)"
    using restart_state [OF r new sd, of crc] unfolding Let_def m f(1) option.sel by blast
  let ?s = "s0\<lparr> sg_db_path := sg_db_path s, sg_key_len := sg_key_len s, sg_meta_fd := mfd, sg_cur_id := 0,
        sg_cur_fd := fd, sg_max_size := sg_max_size s, sg_file_size := of_nat (length (fs_data fs ino)),
        sg_cur_offset := sg_cur_offset s \<rparr>"
  have path: "ToSegmentPath sid ?s = ToSegmentPath sid s" for sid by (simp add: ToSegmentPath_def)
  have un: "unat (of_nat (length (fs_data fs ino)) :: u64) = length (fs_data fs ino)"
    using f(2) by (intro unat_of_nat_u64) simp
  have mno: "\<forall>id. map_of (fs_files fs) (ToSegmentPath id s) \<noteq> Some mino"
    using seg_invD(1) [OF i m] meta_path_no_segment [OF c(2)] by metis
  have "seg_inv (?s, fs')"
    unfolding seg_inv_def prod.case path same
  proof (intro conjI)
    show "\<exists>mino p. fd_at (sg_meta_fd ?s) fs' = Some (mino, p) \<and> mino < fs_next fs \<and>
        (\<forall>id. map_of (fs_files fs) (ToSegmentPath id s) \<noteq> Some mino)"
      using fds(1) mno seg_invD(2) [OF i m] by auto
    show "\<forall>j p. fd_at (sg_cur_fd ?s) fs' = Some (j, p) \<longrightarrow>
        map_of (fs_files fs) (ToSegmentPath (sg_cur_id ?s) s) = Some j \<and>
        unat (sg_cur_offset ?s) \<le> length (fs_data fs j)"
      using fds(2) f(1) ol by auto
    show "\<forall>id. sint (sg_cur_id ?s) < sint id \<longrightarrow> map_of (fs_files fs) (ToSegmentPath id s) = None"
      using seg_invD(4) [OF i] c(1) by simp
    show "sg_cur_offset ?s \<le> sg_file_size ?s" using ol un by (simp add: word_le_nat_alt)
    show "unat (sg_file_size ?s) < 2 ^ 62" using un f(2) by simp
  qed (use seg_invD(1,2,5,8,9) [OF i] in \<open>blast | simp\<close>)+
  moreover have "stored crc (?s, fs') idx k v" if "stored crc (s, fs) idx k v" for idx k v
  proof -
    obtain id off j where o1: "idx = ToSegmentIndex id off (ucast (crc (k @ v)))"
      "map_of (fs_files fs) (ToSegmentPath id s) = Some j" "length k = unat (sg_key_len s)"
      "unat off + (8 + length k + length v) < 2 ^ 63"
      "take (8 + length k + length v) (drop (unat off) (fs_data fs j)) = rec_bytes k v"
      "\<forall>p. fd_at (sg_cur_fd s) fs = Some (j, p) \<longrightarrow>
         unat off + (8 + length k + length v) \<le> unat (sg_cur_offset s)"
      using \<open>stored crc (s, fs) idx k v\<close> unfolding stored_def prod.case by blast
    have "\<forall>p. fd_at fd fs' = Some (j, p) \<longrightarrow>
         unat off + (8 + length k + length v) \<le> unat (sg_cur_offset s)"
      using o1(6) cur fds(2) by auto
    then show ?thesis unfolding stored_def prod.case path same using o1(1-5)
      by (intro exI [of _ id] exI [of _ off] exI [of _ j]) simp
  qed
  moreover have "seg_ready (?s, fs')" using calculation(1) same(5) fds(2) by (auto simp: seg_ready_def)
  moreover have "restartable options rs (?s, fs')"
    using r calculation(3) fds(1) m unfolding restartable_def prod.case path same
    by (auto simp: seg_holds_def same)
  ultimately show ?thesis using init by (intro exI [of _ ?s] exI [of _ fs']) simp
qed

lemmas restart_keeps = restart_disk_keeps [OF _ _ same_disk_refl]

subsection \<open>A whole session: start, append, restart, read\<close>

lemma append_extends:
  assumes r: "restartable options rs (s, fs)" and key: "length key = unat (sg_key_len s)"
    and fits: "length (seg_bytes (rs @ [(key, val)])) \<le> unat (sg_file_size s)"
    and small: "length (seg_bytes (rs @ [(key, val)])) < 2 ^ 31"
    and val: "8 + length key + length val \<le> unat (sg_max_size s)"
  shows "\<exists>idx s' fs'. Append crc key val (s, fs) = Inr (Some idx, s', fs') \<and>
    restartable options (rs @ [(key, val)]) (s', fs') \<and> sg_file_size s' = sg_file_size s \<and>
    sg_key_len s' = sg_key_len s \<and> sg_max_size s' = sg_max_size s"
proof -
  let ?db = "lo_dbPath options"
  obtain mino ino where rdy: "seg_ready (s, fs)" and c: "sg_cur_id s = 0" "sg_db_path s = store_dir ?db"
    and m: "map_of (fs_files fs) (meta_path ?db) = Some mino" "fs_data fs mino = []"
      "\<exists>mp. fd_at (sg_meta_fd s) fs = Some (mino, mp)"
    and f: "map_of (fs_files fs) (ToSegmentPath 0 s) = Some ino" "length (fs_data fs ino) < 2 ^ 62"
      "seg_holds ino rs (s, fs)"
    and o: "sg_cur_offset s = of_nat (length (seg_bytes rs))" "length (seg_bytes rs) < 2 ^ 31"
    using r unfolding restartable_def prod.case by blast
  have i: "seg_inv (s, fs)" and e: "fs_faults fs = []" using rdy by (simp_all add: seg_ready_def)
  obtain j p where cur: "fd_at (sg_cur_fd s) fs = Some (j, p)" using rdy by (auto simp: seg_ready_def)
  with seg_invD(3) [OF i cur] f(1) c(1) have cur: "fd_at (sg_cur_fd s) fs = Some (ino, p)" by simp
  have mi: "mino \<noteq> ino" using seg_invD(1) [OF i m(1)] f(1) meta_path_no_segment [OF c(2)] by metis
  let ?len = "8 + (sg_key_len s + of_nat (length val))"
  let ?off = "length (seg_bytes rs)"
  let ?bs = "word_bytes 8 (sg_key_len s + of_nat (length val)) @ key @ val"
  have uo: "unat (sg_cur_offset s) = ?off" unfolding o(1) using o(2) by (intro unat_of_nat_u64) simp
  have so: "sint (sg_cur_offset s) = int ?off" using o(2) uo by (subst sint_small) simp_all
  have "?len = of_nat (8 + length key + length val)" using key by simp
  then have ul: "unat ?len = 8 + length key + length val"
    using val seg_invD(8) [OF i] by (simp only:) (rule unat_of_nat_u64, simp)
  have "sg_cur_offset s + ?len = of_nat (?off + (8 + length key + length val))"
    using key by (simp add: o(1))
  then have us: "unat (sg_cur_offset s + ?len) = ?off + (8 + length key + length val)"
    using small by (simp only:) (rule unat_of_nat_u64, simp)
  have room: "append_room crc ?len (s, fs) = Inr (True, s, fs)"
    using fits us by (simp add: append_room_def word_less_nat_alt)
  have big: "\<not> ?len > sg_max_size s" using val ul by (simp add: word_less_nat_alt)
  have ck: "copied_key (sg_key_len s) key = Inr key" using key by (simp add: copied_key_def)
  let ?fs1 = "set_fd (sg_cur_fd s) (Some (ino, ?off)) fs"
  have 1: "sys_lseek_set (sg_cur_fd s) (int ?off) fs = (int ?off, ?fs1)"
    using e cur by (simp add: sys_lseek_set_def)
  obtain fs2 where 2: "sys_write (sg_cur_fd s) ?bs ?fs1 = (int (length ?bs), fs2)"
    and d2: "fs_data fs2 = (fs_data fs)(ino := write_at ?off ?bs (fs_data fs ino))"
    and s2: "fs_files fs2 = fs_files fs" "fs_dirs fs2 = fs_dirs fs"
    using e cur by (simp add: sys_write_def short_def Let_def)
  have rb: "?bs = rec_bytes key val" using key by (simp add: rec_bytes_def)
  let ?s = "s\<lparr> sg_cur_offset := sg_cur_offset s + ?len \<rparr>"
  have n: "word_of_int (int (length ?bs)) = ?len" using key by simp
  have wo: "word_of_int (int ?off) = sg_cur_offset s" by (simp add: o(1))
  have "\<exists>idx. Append crc key val (s, fs) = Inr (Some idx, ?s, fs2)"
    using big room ck 1 2 n wo so by (simp add: Append_def Let_def del: length_append)
  then obtain idx where a: "Append crc key val (s, fs) = Inr (Some idx, ?s, fs2)" by blast
  have kv: "length key + length val < 2 ^ 62" using val seg_invD(8) [OF i] by simp
  have k: "keeps crc (s, fs) (?s, fs2)" using Append_keeps [OF i key kv a] by simp
  have "fd_at (sg_cur_fd s) fs2 = Some (ino, ?off + length ?bs)"
    using 2 e cur by (auto simp: sys_write_def short_def Let_def)
  with k e have rdy2: "seg_ready (?s, fs2)" by (simp add: seg_ready_def keeps_def)
  obtain z where z: "fs_data fs ino = seg_bytes rs @ replicate z NUL" using f(3) by (auto simp: seg_holds_def)
  have dd: "fs_data fs2 ino = seg_bytes (rs @ [(key, val)]) @ replicate (z - length ?bs) NUL"
    by (simp add: d2 z write_at_def rb)
  have holds: "seg_holds ino (rs @ [(key, val)]) (?s, fs2)"
    using f(3) key dd unfolding seg_holds_def by auto
  have path: "ToSegmentPath 0 ?s = ToSegmentPath 0 s" by (simp add: ToSegmentPath_def)
  have m2: "\<exists>mp. fd_at (sg_meta_fd s) fs2 = Some (mino, mp)"
    using m(3) cur 2 e by (auto simp: sys_write_def short_def Let_def)
  have l2: "length (fs_data fs2 ino) < 2 ^ 62"
    using f(2) small z unfolding dd by simp
  have "0 < length (fs_data fs2 ino)" unfolding dd by simp
  then have ne: "fs_data fs2 ino \<noteq> []" by auto
  have "restartable options (rs @ [(key, val)]) (?s, fs2)"
    unfolding restartable_def prod.case path
    using r rdy2 s2 m f(1) d2 mi holds l2 ne small m2
    unfolding restartable_def prod.case by (auto simp: o(1) key)
  with a show ?thesis by force
qed



end
