(* ===== verification/Segment_Sessions.thy ===== *)
theory Segment_Sessions
  imports Segment_Start
begin

section \<open>Runs of the segment store\<close>

text \<open>
  The properties of whole runs: records appended one after the other under any schedule of
  faults are read back; a start, a series of appends in the first segment, a restart and the
  reads give every record back; after the first change of segment no restart succeeds.
\<close>

fun append_all :: "(string \<Rightarrow> u32) \<Rightarrow> (string \<times> string) list \<Rightarrow> SegmentStore \<times> FS
     \<Rightarrow> (SegmentIndex option list \<times> SegmentStore \<times> FS) res" where
  "append_all crc [] sf = Inr ([], sf)"
| "append_all crc ((k, v) # rs) sf =
     bind_res (Append crc k v sf) (\<lambda>(i, sf).
       bind_res (append_all crc rs sf) (\<lambda>(is, sf). Inr (i # is, sf)))"

text \<open>Neither the invariant nor the records depend on what fails next.\<close>

lemma seg_inv_faults [simp]: "seg_inv (s, fs\<lparr> fs_faults := f \<rparr>) = seg_inv (s, fs)"
  by (simp add: seg_inv_def)

lemma stored_faults [simp]: "stored crc (s, fs\<lparr> fs_faults := f \<rparr>) idx k v = stored crc (s, fs) idx k v"
  by (simp add: stored_def)

definition fits_store :: "SegmentStore \<Rightarrow> string \<times> string \<Rightarrow> bool" where
  "fits_store s r \<longleftrightarrow> length (fst r) = unat (sg_key_len s) \<and> length (fst r) + length (snd r) < 2 ^ 62"

lemma fits_store_cong: "sg_key_len s' = sg_key_len s \<Longrightarrow> fits_store s' = fits_store s"
  by (simp add: fits_store_def fun_eq_iff)

lemma seg_bytes_member: "r \<in> set rs \<Longrightarrow> length (rec_bytes (fst r) (snd r)) \<le> length (seg_bytes rs)"
  by (induction rs) (auto simp: seg_bytes_def)

lemma append_all_keeps:
  "seg_inv (s, fs) \<Longrightarrow> list_all (fits_store s) rs \<Longrightarrow> append_all crc rs (s, fs) = Inr (is, s', fs') \<Longrightarrow>
     keeps crc (s, fs) (s', fs') \<and> length is = length rs \<and>
     (\<forall>i idx. i < length rs \<longrightarrow> is ! i = Some idx \<longrightarrow> stored crc (s', fs') idx (fst (rs ! i)) (snd (rs ! i)))"
proof (induction rs arbitrary: s fs "is")
  case Nil
  then show ?case using keeps_refl by simp
next
  case (Cons r rs)
  obtain k v where r: "r = (k, v)" by force
  obtain i s1 fs1 is' where a: "Append crc k v (s, fs) = Inr (i, s1, fs1)"
    and b: "append_all crc rs (s1, fs1) = Inr (is', s', fs')" and is': "is = i # is'"
    using Cons.prems(3) r by (auto simp: bind_res_eq_Inr)
  have fit: "length k = unat (sg_key_len s)" "length k + length v < 2 ^ 62"
    using Cons.prems(2) r by (simp_all add: fits_store_def)
  note ak = Append_keeps [OF Cons.prems(1) fit a]
  then have i1: "seg_inv (s1, fs1)" and kl: "sg_key_len s1 = sg_key_len s" by (simp_all add: keeps_def)
  have "list_all (fits_store s1) rs" using Cons.prems(2) fits_store_cong [OF kl] by simp
  note ih = Cons.IH [OF i1 this b]
  show ?case
  proof (intro conjI allI impI)
    show "keeps crc (s, fs) (s', fs')" using ak ih keeps_trans by blast
    show "length is = length (r # rs)" using ih is' by simp
    fix j idx assume "j < length (r # rs)" and "is ! j = Some idx"
    then show "stored crc (s', fs') idx (fst ((r # rs) ! j)) (snd ((r # rs) ! j))"
      using ak ih is' r by (cases j) (auto simp: keeps_def)
  qed
qed

text \<open>
  C5. Whatever calls of the file system fail or come up short during a series of \<open>Append\<close>s, an
  index that one of them returned is read back, later and under any further faults, as exactly
  its key and value or as a refusal, and with no more faults as its key and value.
\<close>

theorem appended_records_survive_faults:
  assumes "seg_inv (s, fs)" and "list_all (fits_store s) rs"
    and "append_all crc rs (s, fs) = Inr (is, s', fs')" and "i < length rs" and "is ! i = Some idx"
  shows "\<exists>r fs''. Segment_Read crc idx (s', fs'\<lparr> fs_faults := f \<rparr>) = Inr (r, fs'') \<and>
    (r = None \<or> r = Some (rs ! i)) \<and> (f = [] \<longrightarrow> r = Some (rs ! i))"
proof -
  note k = append_all_keeps [OF assms(1-3)]
  have "seg_inv (s', fs'\<lparr> fs_faults := f \<rparr>)" using k by (simp add: keeps_def)
  moreover have "stored crc (s', fs'\<lparr> fs_faults := f \<rparr>) idx (fst (rs ! i)) (snd (rs ! i))"
    using k assms(4,5) by simp
  ultimately obtain r fs'' where "Segment_Read crc idx (s', fs'\<lparr> fs_faults := f \<rparr>) = Inr (r, fs'')"
    "r = None \<or> r = Some (fst (rs ! i), snd (rs ! i))"
    "fs_faults (fs'\<lparr> fs_faults := f \<rparr>) = [] \<longrightarrow> r = Some (fst (rs ! i), snd (rs ! i))"
    using Read_stored by blast
  then show ?thesis by simp
qed

text \<open>
  C17. Without faults \<open>Append\<close> takes every record that fits into an empty segment, leaving the
  current segment for the next one where it has no room, and the store can go on appending;
  only the last segment number is an exception.
\<close>

theorem Append_always_succeeds:
  assumes "seg_ready (s, fs)" and "sint (sg_cur_id s) \<noteq> 2 ^ 31 - 1"
    and "length key = unat (sg_key_len s)" and "8 + length key + length val \<le> unat (sg_max_size s)"
  shows "\<exists>idx s' fs'. Append crc key val (s, fs) = Inr (Some idx, s', fs') \<and> seg_ready (s', fs')"
  by (rule Append_succeeds [OF assms])

subsection \<open>A session in the first segment\<close>

lemma append_all_extends:
  "restartable options pre (s, fs) \<Longrightarrow> list_all (fits_store s) rs \<Longrightarrow>
     length (seg_bytes (pre @ rs)) \<le> unat (sg_file_size s) \<Longrightarrow> sg_file_size s = sg_max_size s \<Longrightarrow>
     length (seg_bytes (pre @ rs)) < 2 ^ 31 \<Longrightarrow>
     \<exists>is s' fs'. append_all crc rs (s, fs) = Inr (map Some is, s', fs') \<and> restartable options (pre @ rs) (s', fs')"
proof (induction rs arbitrary: pre s fs)
  case Nil
  then show ?case by (intro exI [of _ "[]"] exI [of _ s] exI [of _ fs]) simp
next
  case (Cons r rs)
  obtain k v where r: "r = (k, v)" by force
  have k: "length k = unat (sg_key_len s)" using Cons.prems(2) r by (simp add: fits_store_def)
  have "\<exists>idx s1 fs1. Append crc k v (s, fs) = Inr (Some idx, s1, fs1) \<and>
    restartable options (pre @ [(k, v)]) (s1, fs1) \<and> sg_file_size s1 = sg_file_size s \<and>
    sg_key_len s1 = sg_key_len s \<and> sg_max_size s1 = sg_max_size s"
    using Cons.prems(3-5) r by (intro append_extends [OF Cons.prems(1) k]) simp_all
  then obtain idx s1 fs1 where a: "Append crc k v (s, fs) = Inr (Some idx, s1, fs1)"
    and r1: "restartable options (pre @ [(k, v)]) (s1, fs1)"
    and same: "sg_file_size s1 = sg_file_size s" "sg_key_len s1 = sg_key_len s" "sg_max_size s1 = sg_max_size s"
    by blast
  have "list_all (fits_store s1) rs" using Cons.prems(2) fits_store_cong [OF same(2)] by simp
  from Cons.IH [OF r1 this] Cons.prems(3-5) same r obtain "is" s' fs' where
    "append_all crc rs (s1, fs1) = Inr (map Some is, s', fs')" "restartable options (pre @ r # rs) (s', fs')"
    by auto
  then show ?case using a r
    by (intro exI [of _ "idx # is"] exI [of _ s'] exI [of _ fs']) simp
qed

text \<open>
  C6. A session on a file system that does not fail: a store is started in a directory of its own,
  records of the configured key length that fit into one segment are appended, the process ends
  and a new one starts: it goes on at the same offset, and every index that was handed out is
  read back as its record.
\<close>

theorem session_survives_restart:
  assumes "sg_db_path s = []" and "sg_db_path s0 = []" and "lo_indexKeyLength options \<noteq> 0"
    and "lo_dbPath options \<noteq> []" and "fs_faults fs = []" and "fresh_fs (lo_dbPath options) fs"
    and "unat (lo_segmentMaxSize options) < 2 ^ 31" and "rs \<noteq> []"
    and "list_all (\<lambda>r. length (fst r) = unat (lo_indexKeyLength options)) rs"
    and "length (seg_bytes rs) \<le> unat (lo_segmentMaxSize options)"
  shows "\<exists>b s1 fs1 is s2 fs2 s3 fs3. Segment_Init crc options (s, fs) = Some (Inr (True, b, s1, fs1)) \<and>
    append_all crc rs (s1, fs1) = Inr (map Some is, s2, fs2) \<and> length is = length rs \<and>
    Segment_Init crc options (s0, fs2) = Some (Inr (True, b, s3, fs3)) \<and>
    GetCurrentOffset s3 = GetCurrentOffset s2 \<and>
    (\<forall>i < length rs. \<exists>fs4. Segment_Read crc (is ! i) (s3, fs3) = Inr (Some (rs ! i), fs4))"
proof -
  obtain k v rs' where rs: "rs = (k, v) # rs'" using assms(8) by (cases rs) auto
  have len: "length k + 8 \<le> unat (lo_segmentMaxSize options)" "length k = unat (lo_indexKeyLength options)"
    using assms(9,10) rs by simp_all
  obtain s1 fs1 where 1: "Segment_Init crc options (s, fs) = Some (Inr (True, lo_removeAsync options, s1, fs1))"
    and r1: "restartable options [] (s1, fs1)" "sg_file_size s1 = lo_segmentMaxSize options"
    using Segment_Init_fresh [of s options fs crc] assms(1,3-7) len by auto
  have c: "sg_key_len s1 = lo_indexKeyLength options" "sg_max_size s1 = lo_segmentMaxSize options"
    and i1: "seg_inv (s1, fs1)" using r1(1) by (simp_all add: restartable_def seg_ready_def)
  have fit: "list_all (fits_store s1) rs"
    using assms(7,9,10) seg_bytes_member [of _ rs] c(1) unfolding list_all_iff fits_store_def by fastforce
  obtain "is" s2 fs2 where 2: "append_all crc rs (s1, fs1) = Inr (map Some is, s2, fs2)"
    and r2: "restartable options rs (s2, fs2)"
    using append_all_extends [OF r1(1) fit, of crc] assms(7,10) r1(2) c by auto
  note k2 = append_all_keeps [OF i1 fit 2]
  obtain s3 fs3 where 3: "Segment_Init crc options (s0, fs2) = Some (Inr (True, lo_removeAsync options, s3, fs3))"
    and r3: "restartable options rs (s3, fs3)" "sg_cur_offset s3 = sg_cur_offset s2"
      "\<forall>idx k v. stored crc (s2, fs2) idx k v \<longrightarrow> stored crc (s3, fs3) idx k v"
    using restart_keeps [OF r2 assms(2)] by blast
  have "\<exists>fs4. Segment_Read crc (is ! i) (s3, fs3) = Inr (Some (rs ! i), fs4)" if i: "i < length rs" for i
  proof -
    have "stored crc (s3, fs3) (is ! i) (fst (rs ! i)) (snd (rs ! i))" using k2 r3(3) i by simp
    from Read_stored [OF _ this] r3(1) show ?thesis by (auto simp: seg_ready_def restartable_def)
  qed
  then show ?thesis using 1 2 3 r3(2) k2 by (auto simp: GetCurrentOffset_def)
qed

subsection \<open>A change of segment and a restart\<close>

lemma UpdateMetadata_length:
  assumes e: "fs_faults fs = []" and m: "fd_at (sg_meta_fd s) fs = Some (mino, mp)"
    and r: "UpdateMetadata crc (s, fs) = Inr (True, fs')"
  shows "12 \<le> length (fs_data fs' mino)"
  using r e m unfolding UpdateMetadata_def
  by (auto simp: sys_lseek_set_def sys_write_def sys_fsync_def short_def Let_def length_write_at
      split: if_splits)

text \<open>What later calls on segments leave of the metadata file.\<close>

lemma NewSegment_metadata:
  assumes i: "seg_inv (s, fs)" and n: "fd_at (sg_cur_fd s) fs = None" and e: "fs_faults fs = []"
    and m: "fd_at (sg_meta_fd s) fs = Some (mino, mp)"
    and r: "NewSegment crc (s, fs) = Inr (True, s', fs')"
  shows "12 \<le> length (fs_data fs' mino) \<and> fs_dirs fs' = fs_dirs fs \<and>
    (\<exists>mp. fd_at (sg_meta_fd s) fs' = Some (mino, mp)) \<and>
    (\<exists>sid ino. fs_files fs' = (ToSegmentPath sid s, ino) # fs_files fs \<and>
       map_of (fs_files fs) (ToSegmentPath sid s) = None) \<and>
    (\<forall>i. i \<noteq> mino \<longrightarrow> i < fs_next fs \<longrightarrow> fs_data fs' i = fs_data fs i)"
proof -
  have mlt: "mino < fs_next fs" and mno: "\<forall>id. map_of (fs_files fs) (ToSegmentPath id s) \<noteq> Some mino"
    using seg_invD(10) [OF i] m by auto
  let ?s = "s\<lparr> sg_cur_id := sg_cur_id s + 1 \<rparr>"
  obtain fs1 where u: "UpdateMetadata crc (s, fs) = Inr (True, fs1)" and o: "sint (sg_cur_id s) \<noteq> 2 ^ 31 - 1"
    using r by (auto simp: NewSegment_def bind_res_eq_Inr split: if_splits)
  note t1 = UpdateMetadata_touches [OF u m] and l1 = UpdateMetadata_length [OF e m u]
  have i1: "seg_inv (s, fs1)" using touches_keeps [OF i t1] mno by (auto simp: keeps_def)
  have n1: "fd_at (sg_cur_fd s) fs1 = None" using n touches_fd(1) [OF t1] by simp
  have i2: "seg_inv (?s, fs1)" using next_id_keeps(1) [OF i1 n1 o] by (simp add: keeps_def)
  have f1: "map_of (fs_files fs1) (ToSegmentPath (sg_cur_id ?s) ?s) = None"
    using next_id_keeps(2) [OF i1 n1 o] by (simp add: ToSegmentPath_def)
  have e1: "fs_faults fs1 = []" and s1: "fs_files fs1 = fs_files fs" "fs_dirs fs1 = fs_dirs fs" "fs_next fs1 = fs_next fs"
    using t1 e by (simp_all add: touches_def)
  have ex: "SegmentExists (sg_cur_id ?s) (?s, fs1) = (False, fs1)"
    using e1 f1 seg_invD(5) [OF i2] by (simp add: SegmentExists_def sys_access_def)
  obtain st fd fs2 where op: "OpenSegment (sg_cur_id ?s) True (?s, fs1) = (st, fd, fs2)"
    by (metis prod_cases3)
  have so: "sys_open True (ToSegmentPath (sg_cur_id ?s) ?s) fs1 = (fd, fs2)" and "st"
    using op open_keeps [OF i2 op f1 _ , of crc] n1 e1 by (auto simp: OpenSegment_def split: prod.splits)
  then have f2: "fd_at fd fs2 = Some (fs_next fs, 0)" "fs_files fs2 = (ToSegmentPath (sg_cur_id ?s) ?s, fs_next fs) # fs_files fs"
      "fs_dirs fs2 = fs_dirs fs" "fs_data fs2 = (fs_data fs1)(fs_next fs := [])"
    using sys_open_fresh [OF so f1 seg_invD(5) [OF i2]] e1 s1 by auto
  obtain mp1 where m1: "fd_at (sg_meta_fd s) fs1 = Some (mino, mp1)" using touches_fd(2) [OF t1 m] by blast
  have "fd_at fd fs1 = None" and "\<forall>f. f \<noteq> fd \<longrightarrow> map_option fst (fd_at f fs2) = map_option fst (fd_at f fs1)"
    using sys_open_fresh [OF so f1 seg_invD(5) [OF i2]] e1 f2(1) by auto
  with m1 have "map_option fst (fd_at (sg_meta_fd s) fs2) = Some mino"
    by (metis option.distinct(1) option.map(2) fst_conv)
  then obtain mp2 where m2: "fd_at (sg_meta_fd s) fs2 = Some (mino, mp2)" by auto
  obtain pr s3 fs3 where pd: "PaddingIfNewSegment (?s\<lparr> sg_cur_fd := fd \<rparr>, fs2) = (pr, s3, fs3)"
    by (metis prod_cases3)
  have t3: "touches (fs_next fs) 0 fs2 fs3" using PaddingIfNewSegment_touches(1) [OF pd] f2(1) by simp
  have "fs' = fs3" using r u o ex op \<open>st\<close> pd by (auto simp: NewSegment_def Let_def split: if_splits)
  with t1 t3 f1 s1 f2 l1 mlt touches_fd(2) [OF t3 m2] show ?thesis by (auto simp: touches_def ToSegmentPath_def)
qed

lemma append_room_metadata:
  assumes i: "seg_inv (s, fs)" and e: "fs_faults fs = []" and m: "fd_at (sg_meta_fd s) fs = Some (mino, mp)"
    and cur: "fd_at (sg_cur_fd s) fs = Some (ino, p)"
    and full: "sg_cur_offset s + len > sg_file_size s"
    and r: "append_room crc len (s, fs) = Inr (True, s1, fs1)"
  shows "12 \<le> length (fs_data fs1 mino) \<and> fs_dirs fs1 = fs_dirs fs \<and>
    (\<exists>mp. fd_at (sg_meta_fd s) fs1 = Some (mino, mp)) \<and>
    (\<exists>sid ino. fs_files fs1 = (ToSegmentPath sid s, ino) # fs_files fs \<and>
       map_of (fs_files fs) (ToSegmentPath sid s) = None) \<and>
    length (fs_data fs1 ino) = unat (sg_cur_offset s)"
proof -
  have off: "unat (sg_cur_offset s) < 2 ^ 62" using seg_invD(6,7) [OF i] by (simp add: word_le_nat_alt)
  obtain q fs0 where t: "sys_ftruncate (sg_cur_fd s) (sint (sg_cur_offset s)) fs = (q, fs0)" by force
  have tc: "touches ino (unat (sg_cur_offset s)) fs fs0"
    using touches_ftruncate [OF t cur] off by (simp add: sint_small)
  have k0: "keeps crc (s, fs) (s, fs0)" by (rule touches_keeps [OF i tc]) (use cur in blast)
  have d0: "fs_files fs0 = fs_files fs" "fs_dirs fs0 = fs_dirs fs" using tc by (simp_all add: touches_def)
  obtain mp0 where m0: "fd_at (sg_meta_fd s) fs0 = Some (mino, mp0)" using touches_fd(2) [OF tc m] by blast
  have i0: "seg_inv (s, fs0)" and e0: "fs_faults fs0 = []" using k0 e by (simp_all add: keeps_def)
  let ?fs = "sys_close (sg_cur_fd s) fs0"
  have i1: "seg_inv (s, ?fs)" using close_keeps(1) [OF i0] by (simp add: keeps_def)
  have ne: "sg_meta_fd s \<noteq> sg_cur_fd s" using seg_invD(3) [OF i cur] seg_invD(10) [OF i] cur by auto
  have m1: "fd_at (sg_meta_fd s) ?fs = Some (mino, mp0)" using m0 ne by (simp add: fd_at_close)
  obtain s2 where nw: "NewSegment crc (s, ?fs) = Inr (True, s2, fs1)"
    using r full t by (auto simp: append_room_def Let_def bind_res_eq_Inr split: if_splits)
  have e1: "fs_faults ?fs = []" using e0 by simp
  have ino: "ino \<noteq> mino" "ino < fs_next fs0"
    using seg_invD(3) [OF i cur] seg_invD(2) [OF i0] seg_invD(10) [OF i] m d0 by auto
  have "unat (sg_cur_offset s) \<le> length (fs_data fs ino)" using seg_invD(3) [OF i cur] by simp
  then have l0: "length (fs_data fs0 ino) = unat (sg_cur_offset s)"
    using t e cur off by (auto simp: sys_ftruncate_def outcome_def sint_small)
  show ?thesis using NewSegment_metadata [OF i1 close_keeps(2) [OF i0] e1 m1 nw] d0 ino l0 by simp
qed

lemma append_write_touches:
  assumes i: "seg_inv (s, fs)" and m: "map_of (fs_files fs) (ToSegmentPath (sg_cur_id s) s) \<noteq> Some mino"
    and l: "sys_lseek_set (sg_cur_fd s) off fs = (q, fs1)" and w: "sys_write (sg_cur_fd s) bs fs1 = (n, fs2)"
  shows "fs_files fs2 = fs_files fs \<and> fs_dirs fs2 = fs_dirs fs \<and> fs_data fs2 mino = fs_data fs mino \<and>
    (fs_faults fs = [] \<longrightarrow> fs_faults fs2 = []) \<and>
    (\<forall>fd. map_option fst (fd_at fd fs2) = map_option fst (fd_at fd fs))"
proof -
  have q: "quiet fs fs1" by (rule sys_lseek_set_quiet [OF l])
  show ?thesis
  proof (cases "fd_at (sg_cur_fd s) fs1")
    case None
    with write_without_fd [OF None w] q show ?thesis by (simp add: quiet_def)
  next
    case (Some a)
    then obtain j pos where f1: "fd_at (sg_cur_fd s) fs1 = Some (j, pos)" by (cases a) auto
    then obtain pos' where "fd_at (sg_cur_fd s) fs = Some (j, pos')"
      using touches_fd [OF touches_quiet [OF q], of "sg_cur_fd s"] by (cases "fd_at (sg_cur_fd s) fs") force+
    then have "j \<noteq> mino" using seg_invD(3) [OF i] m by auto
    with touches_write [OF w f1, of 0] q show ?thesis by (simp add: touches_def quiet_def)
  qed
qed

text \<open>
  After the first \<open>Append\<close> that changes the segment, a restart ends in a memory fault: the
  eight bytes of the stored checksum are read into an object of four.
\<close>

theorem restart_after_new_segment_faults:
  assumes r: "restartable options rs (s, fs)" and new: "sg_db_path s0 = []"
    and full: "sg_cur_offset s + (8 + (sg_key_len s + of_nat (length val))) > sg_file_size s"
    and a: "Append crc key val (s, fs) = Inr (Some idx, s', fs')"
  shows "Segment_Init crc options (s0, fs') = Some (Inl OutOfBounds)"
proof -
  let ?len = "8 + (sg_key_len s + of_nat (length val))"
  have rdy: "seg_ready (s, fs)" and c: "lo_dbPath options \<noteq> []" "lo_indexKeyLength options \<noteq> 0"
      "sg_db_path s = store_dir (lo_dbPath options)" "store_dir (lo_dbPath options) \<in> set (fs_dirs fs)"
      "meta_path (lo_dbPath options) \<notin> set (fs_dirs fs)"
    using r by (auto simp: restartable_def)
  obtain mino mp where m: "fd_at (sg_meta_fd s) fs = Some (mino, mp)"
      "map_of (fs_files fs) (meta_path (lo_dbPath options)) = Some mino"
    using r by (auto simp: restartable_def)
  have i: "seg_inv (s, fs)" and e: "fs_faults fs = []" using rdy by (simp_all add: seg_ready_def)
  obtain ino p where cur: "fd_at (sg_cur_fd s) fs = Some (ino, p)" using rdy by (auto simp: seg_ready_def)
  have big: "\<not> ?len > sg_max_size s" using a by (auto simp: Append_def Let_def)
  obtain s1 fs1 where room: "append_room crc ?len (s, fs) = Inr (True, s1, fs1)"
    using a big by (auto simp: Append_def Let_def bind_res_eq_Inr split: if_splits)
  note rm = append_room_metadata [OF i e m(1) cur full room]
  obtain sid j where f1: "fs_files fs1 = (ToSegmentPath sid s, j) # fs_files fs" using rm by blast
  have m1: "map_of (fs_files fs1) (meta_path (lo_dbPath options)) = Some mino" and d1: "fs_dirs fs1 = fs_dirs fs"
    using rm m(2) f1 meta_path_no_segment [OF c(3), of sid] by simp_all
  have k1: "keeps crc (s, fs) (s1, fs1)" using append_room_keeps [OF i room] big by simp
  then have i1: "seg_inv (s1, fs1)" and e1: "fs_faults fs1 = []"
    and c1: "sg_db_path s1 = store_dir (lo_dbPath options)"
    using e c(3) by (simp_all add: keeps_def)
  have mno: "\<forall>sid. map_of (fs_files fs1) (ToSegmentPath sid s1) \<noteq> Some mino"
    using seg_invD(1) [OF i1 m1] meta_path_no_segment [OF c1] by metis
  obtain k where ck: "copied_key (sg_key_len s1) key = Inr k"
    using a big room by (auto simp: Append_def Let_def bind_res_eq_Inr)
  obtain q fs2 where l: "sys_lseek_set (sg_cur_fd s1) (sint (sg_cur_offset s1)) fs1 = (q, fs2)" by force
  obtain n fs3 where w: "sys_write (sg_cur_fd s1) (word_bytes 8 (sg_key_len s + of_nat (length val)) @ k @ val) fs2
      = (n, fs3)" by force
  have "fs' = fs3"
    using a big room ck l w by (auto simp: Append_def Let_def split: if_splits)
  with append_write_touches [OF i1 mno [rule_format] l w] e1 rm
  have "fs_files fs' = fs_files fs1 \<and> fs_dirs fs' = fs_dirs fs1 \<and> fs_faults fs' = [] \<and>
      12 \<le> length (fs_data fs' mino)" by simp
  with m1 d1 c show ?thesis by (intro Segment_Init_overflow [OF new]) auto
qed

subsection \<open>Witnesses\<close>

definition sample_crc :: "string \<Rightarrow> u32" where
  "sample_crc bs = of_nat (length bs)"

definition sample_lo :: LogStorageOptions where
  "sample_lo = \<lparr> lo_dbPath = ''db'', lo_segmentMaxSize = 20, lo_indexKeyLength = 1, lo_removeAsync = False \<rparr>"

definition empty_fs :: FS where
  "empty_fs = \<lparr> fs_files = [], fs_dirs = [], fs_data = (\<lambda>_. []), fs_next = 0, fs_fds = [], fs_faults = [] \<rparr>"

definition sample_store :: SegmentStore where
  "sample_store = new_SegmentStore 0 0 0 0"

lemma sample_start:
  "\<exists>s fs. Segment_Init sample_crc sample_lo (sample_store, empty_fs) = Some (Inr (True, False, s, fs)) \<and>
     restartable sample_lo [] (s, fs) \<and> sg_file_size s = 20 \<and> sg_key_len s = 1 \<and> sg_max_size s = 20 \<and>
     sg_cur_id s = 0 \<and> sg_cur_offset s = 0"
proof -
  have "fresh_fs ''db'' empty_fs" by (simp add: fresh_fs_def empty_fs_def)
  then obtain s fs where "Segment_Init sample_crc sample_lo (sample_store, empty_fs) = Some (Inr (True, False, s, fs))"
    "restartable sample_lo [] (s, fs)" "sg_file_size s = 20"
    using Segment_Init_fresh [of sample_store sample_lo empty_fs sample_crc]
    by (auto simp: sample_lo_def sample_store_def new_SegmentStore_def empty_fs_def)
  moreover from this(2) have "sg_key_len s = 1 \<and> sg_max_size s = 20 \<and> sg_cur_id s = 0 \<and> sg_cur_offset s = 0"
    by (simp add: restartable_def sample_lo_def)
  ultimately show ?thesis by blast
qed

lemma appended_records_survive_faults_witness:
  "\<exists>s fs is s' fs' idx fs''. seg_inv (s, fs) \<and>
     append_all sample_crc [(''a'', ''x'')] (s, fs) = Inr (is, s', fs') \<and> is ! 0 = Some idx \<and>
     Segment_Read sample_crc idx (s', fs'\<lparr> fs_faults := [] \<rparr>) = Inr (Some (''a'', ''x''), fs'')"
proof -
  obtain s fs where r: "restartable sample_lo [] (s, fs)" and c: "sg_key_len s = 1" "sg_max_size s = 20"
      "sg_cur_id s = 0" using sample_start by blast
  have rdy: "seg_ready (s, fs)" using r by (simp add: restartable_def)
  obtain idx s' fs' where a: "Append sample_crc ''a'' ''x'' (s, fs) = Inr (Some idx, s', fs')"
    using Append_succeeds [OF rdy, of "''a''" "''x''" sample_crc] c by auto
  then have all: "append_all sample_crc [(''a'', ''x'')] (s, fs) = Inr ([Some idx], s', fs')" by simp
  have i: "seg_inv (s, fs)" using rdy by (simp add: seg_ready_def)
  have "\<exists>r fs''. Segment_Read sample_crc idx (s', fs'\<lparr> fs_faults := [] \<rparr>) = Inr (r, fs'') \<and>
    (r = None \<or> r = Some ([(''a'', ''x'')] ! 0)) \<and> ([] = ([] :: sys_outcome list) \<longrightarrow> r = Some ([(''a'', ''x'')] ! 0))"
    by (rule appended_records_survive_faults [OF i _ all]) (use c in \<open>simp_all add: fits_store_def\<close>)
  then obtain fs'' where rd: "Segment_Read sample_crc idx (s', fs'\<lparr> fs_faults := [] \<rparr>) = Inr (Some (''a'', ''x''), fs'')"
    by auto
  show ?thesis by (intro exI conjI, rule i, rule all, simp, rule rd)
qed

lemma Append_always_succeeds_witness:
  "\<exists>s fs idx s' fs'. seg_ready (s, fs) \<and>
     Append sample_crc ''a'' ''x'' (s, fs) = Inr (Some idx, s', fs') \<and> seg_ready (s', fs')"
proof -
  obtain s fs where r: "restartable sample_lo [] (s, fs)" and c: "sg_key_len s = 1" "sg_max_size s = 20"
      "sg_cur_id s = 0" using sample_start by blast
  have rdy: "seg_ready (s, fs)" using r by (simp add: restartable_def)
  obtain idx s' fs' where "Append sample_crc ''a'' ''x'' (s, fs) = Inr (Some idx, s', fs')" "seg_ready (s', fs')"
    using Append_always_succeeds [OF rdy, of "''a''" "''x''" sample_crc] c by auto
  with rdy show ?thesis by blast
qed

lemma session_survives_restart_witness:
  "\<exists>s1 fs1 i s2 fs2 s3 fs3 fs4.
     Segment_Init sample_crc sample_lo (sample_store, empty_fs) = Some (Inr (True, False, s1, fs1)) \<and>
     append_all sample_crc [(''a'', ''x'')] (s1, fs1) = Inr ([Some i], s2, fs2) \<and>
     Segment_Init sample_crc sample_lo (sample_store, fs2) = Some (Inr (True, False, s3, fs3)) \<and>
     Segment_Read sample_crc i (s3, fs3) = Inr (Some (''a'', ''x''), fs4)"
proof -
  have f: "fresh_fs (lo_dbPath sample_lo) empty_fs" by (simp add: fresh_fs_def empty_fs_def)
  obtain b s1 fs1 "is" s2 fs2 s3 fs3 where
    1: "Segment_Init sample_crc sample_lo (sample_store, empty_fs) = Some (Inr (True, b, s1, fs1))"
    and 2: "append_all sample_crc [(''a'', ''x'')] (s1, fs1) = Inr (map Some is, s2, fs2)"
    and l: "length is = length [(''a'', ''x'')]"
    and 3: "Segment_Init sample_crc sample_lo (sample_store, fs2) = Some (Inr (True, b, s3, fs3))"
    and 4: "\<forall>i < length [(''a'', ''x'')]. \<exists>fs4. Segment_Read sample_crc (is ! i) (s3, fs3)
        = Inr (Some ([(''a'', ''x'')] ! i), fs4)"
    using session_survives_restart [OF _ _ _ _ _ f, of sample_store sample_store "[(''a'', ''x'')]" sample_crc]
    by (auto simp: sample_store_def new_SegmentStore_def sample_lo_def empty_fs_def)
  obtain i where i: "is = [i]" using l by (cases "is") auto
  have "b = False" using 1 sample_start by auto
  with 1 2 3 4 i show ?thesis by auto
qed

lemma restart_after_new_segment_faults_witness:
  "\<exists>s1 fs1 i j s2 fs2 s3 fs3.
     Segment_Init sample_crc sample_lo (sample_store, empty_fs) = Some (Inr (True, False, s1, fs1)) \<and>
     Append sample_crc ''a'' ''12345678'' (s1, fs1) = Inr (Some i, s2, fs2) \<and>
     Append sample_crc ''b'' ''y'' (s2, fs2) = Inr (Some j, s3, fs3) \<and>
     Segment_Init sample_crc sample_lo (sample_store, fs3) = Some (Inl OutOfBounds)"
proof -
  obtain s1 fs1 where 1: "Segment_Init sample_crc sample_lo (sample_store, empty_fs) = Some (Inr (True, False, s1, fs1))"
    and r1: "restartable sample_lo [] (s1, fs1)" and c: "sg_file_size s1 = 20" "sg_key_len s1 = 1" "sg_max_size s1 = 20"
    using sample_start by blast
  obtain i s2 fs2 where 2: "Append sample_crc ''a'' ''12345678'' (s1, fs1) = Inr (Some i, s2, fs2)"
    and r2: "restartable sample_lo ([] @ [(''a'', ''12345678'')]) (s2, fs2)"
    and c2: "sg_file_size s2 = sg_file_size s1" "sg_key_len s2 = sg_key_len s1" "sg_max_size s2 = sg_max_size s1"
    using append_extends [OF r1, of "''a''" "''12345678''" sample_crc] c by auto
  have o2: "sg_cur_offset s2 = 17" "sg_cur_id s2 = 0" "seg_ready (s2, fs2)"
    using r2 by (simp_all add: restartable_def)
  obtain j s3 fs3 where 3: "Append sample_crc ''b'' ''y'' (s2, fs2) = Inr (Some j, s3, fs3)"
    using Append_succeeds [OF o2(3), of "''b''" "''y''" sample_crc] o2 c c2 by auto
  have "Segment_Init sample_crc sample_lo (sample_store, fs3) = Some (Inl OutOfBounds)"
    by (rule restart_after_new_segment_faults [OF r2 _ _ 3])
      (use o2 c c2 in \<open>simp_all add: sample_store_def new_SegmentStore_def\<close>)
  with 1 2 3 show ?thesis by blast
qed

end
