(* ===== verification/Db_Storage.thy ===== *)
theory Db_Storage
  imports Segment_Sessions Pax_Player
begin

section \<open>The index database and the log storage on disk\<close>

text \<open>
  \<open>LogIndexDB\<close> (storage/index_db.cpp) keeps the index of every key in LevelDB, which is a
  parameter: a record of the calls the program makes over a database state of any type.
  \<open>DataBaseLogStorage\<close> (storage/log_stroage.cpp) appends a value to the segment store and puts
  its index; it interprets the contract \<open>log_storage\<close> of the Paxos log, for keys of the
  configured length. \<open>leveldb_ok\<close> is what LevelDB documents of a put and a delete.
\<close>

record 'db LevelDB =
  lvl_Open :: "string \<Rightarrow> 'db option"            \<comment> \<open>\<open>None\<close>: a null pointer and a bad status\<close>
  lvl_Get :: "'db \<Rightarrow> string \<Rightarrow> string option"    \<comment> \<open>\<open>None\<close>: a status that is not ok\<close>
  lvl_Put :: "string \<Rightarrow> string \<Rightarrow> 'db \<Rightarrow> bool \<times> 'db"
  lvl_Delete :: "string \<Rightarrow> 'db \<Rightarrow> bool \<times> 'db"
  lvl_Last :: "'db \<Rightarrow> string option"             \<comment> \<open>the key at \<open>SeekToLast\<close>, if valid\<close>

definition leveldb_ok :: "'db LevelDB \<Rightarrow> bool" where
  "leveldb_ok L \<longleftrightarrow>
     (\<forall>k v b db db'. lvl_Put L k v db = (b, db') \<longrightarrow>
        lvl_Get L db' = (if b then (lvl_Get L db)(k \<mapsto> v) else lvl_Get L db)) \<and>
     (\<forall>k b db db'. lvl_Delete L k db = (b, db') \<longrightarrow>
        lvl_Get L db' = (if b then (lvl_Get L db)(k := None) else lvl_Get L db))"

subsection \<open>LogIndexDB\<close>

record 'db LogIndexDB =
  ix_dbpath :: string
  ix_leveldb :: "'db option"

definition Index_Init :: "'db LevelDB \<Rightarrow> LogStorageOptions \<Rightarrow> 'db LogIndexDB \<Rightarrow> bool \<times> 'db LogIndexDB" where
  "Index_Init L options ix =
     (let ix = ix\<lparr> ix_dbpath := lo_dbPath options, ix_leveldb := lvl_Open L (lo_dbPath options) \<rparr>
      in (ix_leveldb ix \<noteq> None, ix))"

definition GetIndex :: "'db LevelDB \<Rightarrow> string \<Rightarrow> 'db LogIndexDB \<Rightarrow> string option res" where
  "GetIndex L idx_key ix =
     (case ix_leveldb ix of None \<Rightarrow> Inl NullPointer | Some db \<Rightarrow> Inr (lvl_Get L db idx_key))"

definition PutIndex ::
  "'db LevelDB \<Rightarrow> string \<Rightarrow> string \<Rightarrow> 'db LogIndexDB \<Rightarrow> (bool \<times> 'db LogIndexDB) res" where
  "PutIndex L idx_key idx_val ix =
     (case ix_leveldb ix of
        None \<Rightarrow> Inl NullPointer
      | Some db \<Rightarrow> (case lvl_Put L idx_key idx_val db of
          (ok, db') \<Rightarrow> Inr (ok, ix\<lparr> ix_leveldb := Some db' \<rparr>)))"

definition DelIndex :: "'db LevelDB \<Rightarrow> string \<Rightarrow> 'db LogIndexDB \<Rightarrow> (bool \<times> 'db LogIndexDB) res" where
  "DelIndex L idx_key ix =
     (case ix_leveldb ix of
        None \<Rightarrow> Inl NullPointer
      | Some db \<Rightarrow> (case lvl_Delete L idx_key db of
          (ok, db') \<Rightarrow> Inr (ok, ix\<lparr> ix_leveldb := Some db' \<rparr>)))"

definition GetLastIndex :: "'db LevelDB \<Rightarrow> 'db LogIndexDB \<Rightarrow> (string \<times> string) option res" where
  "GetLastIndex L ix =
     (case ix_leveldb ix of
        None \<Rightarrow> Inl NullPointer
      | Some db \<Rightarrow> (case lvl_Last L db of
          None \<Rightarrow> Inr None
        | Some idx_key \<Rightarrow> bind_res (GetIndex L idx_key ix) (\<lambda>idx_val.
            Inr (map_option (\<lambda>v. (idx_key, v)) idx_val))))"

subsection \<open>DataBaseLogStorage\<close>

text \<open>The two shared pointers, which may be null, and the file system below the segment store.\<close>

type_synonym 'db DiskState = "'db LogIndexDB option \<times> SegmentStore option \<times> FS"

definition deref :: "'a option \<Rightarrow> 'a res" where
  "deref p = (case p of None \<Rightarrow> Inl NullPointer | Some x \<Rightarrow> Inr x)"

lemma deref_Some [simp]: "deref (Some x) = Inr x"
  by (simp add: deref_def)

definition ToIndexKey :: "LogEntryKey \<Rightarrow> SegmentIndex" where
  "ToIndexKey log_entry_key = log_entry_key"

definition Db_Put ::
  "'db LevelDB \<Rightarrow> (string \<Rightarrow> u32) \<Rightarrow> LogEntryKey \<Rightarrow> LogEntryValue \<Rightarrow> 'db DiskState
     \<Rightarrow> (bool \<times> 'db DiskState) res" where
  "Db_Put L crc key val st =
     (case st of (ixp, sgp, fs) \<Rightarrow>
      bind_res (deref sgp) (\<lambda>sg.
      bind_res (Append crc key val (sg, fs)) (\<lambda>(log_index, sg, fs).
        case log_index of
          None \<Rightarrow> Inr (False, ixp, Some sg, fs)
        | Some log_index \<Rightarrow>
            bind_res (deref ixp) (\<lambda>ix.
            bind_res (PutIndex L (ToIndexKey key) log_index ix) (\<lambda>(ok, ix).
              Inr (ok, Some ix, Some sg, fs))))))"

text \<open>
  The log line of \<open>Get\<close> reads an \<open>instance_id_t\<close>, eight bytes, at the characters of the key.
\<close>

definition Db_Get ::
  "'db LevelDB \<Rightarrow> (string \<Rightarrow> u32) \<Rightarrow> LogEntryKey \<Rightarrow> 'db DiskState
     \<Rightarrow> (LogEntryValue option \<times> 'db DiskState) res" where
  "Db_Get L crc key st =
     (case st of (ixp, sgp, fs) \<Rightarrow>
      bind_res (deref ixp) (\<lambda>ix.
      bind_res (GetIndex L (ToIndexKey key) ix) (\<lambda>segment_index.
        case segment_index of
          None \<Rightarrow> Inr (None, ixp, sgp, fs)
        | Some segment_index \<Rightarrow>
            if length key + 1 < 8 then Inl OutOfBounds
            else bind_res (deref sgp) (\<lambda>sg.
              bind_res (Segment_Read crc segment_index (sg, fs)) (\<lambda>(kv, fs).
                case kv of
                  None \<Rightarrow> Inr (None, ixp, sgp, fs)
                | Some (key_in_segment, v) \<Rightarrow>
                    Inr (if key_in_segment \<noteq> ToIndexKey key then None else Some v, ixp, sgp, fs))))))"

definition Db_Delete ::
  "'db LevelDB \<Rightarrow> LogEntryKey \<Rightarrow> SteadyTime \<Rightarrow> 'db DiskState \<Rightarrow> (bool \<times> 'db DiskState) res" where
  "Db_Delete L key now st =
     (case st of (ixp, sgp, fs) \<Rightarrow>
      bind_res (deref ixp) (\<lambda>ix.
      bind_res (GetIndex L (ToIndexKey key) ix) (\<lambda>segment_index.
        case segment_index of
          None \<Rightarrow> Inr (False, ixp, sgp, fs)
        | Some segment_index \<Rightarrow>
            bind_res (deref sgp) (\<lambda>sg.
            bind_res (RemoveAsync segment_index now (sg, fs)) (\<lambda>(ok, sg, fs).
              if \<not> ok then Inr (False, ixp, Some sg, fs)
              else bind_res (DelIndex L (ToIndexKey key) ix) (\<lambda>(ok, ix).
                Inr (ok, Some ix, Some sg, fs)))))))"

text \<open>
  Replaying the segments from the index of the greatest key on, until a segment does not exist:
  \<open>None\<close> is a loop that does not end. The result of \<open>PutIndex\<close> is not looked at.
\<close>

partial_function (option) align_loop ::
  "'db LevelDB \<Rightarrow> (string \<Rightarrow> u32) \<Rightarrow> SEGMENT_ID \<Rightarrow> u64 \<Rightarrow> SegmentStore \<Rightarrow> 'db LogIndexDB \<Rightarrow> FS
     \<Rightarrow> ('db LogIndexDB \<times> FS) res option" where
  "align_loop L crc segment_id segment_offset sg ix fs =
     (case ReplayLog crc segment_id segment_offset (sg, fs) of
        Inl e \<Rightarrow> Some (Inl e)
      | Inr (off, kv, fs) \<Rightarrow>
          (if off = 0 then
             (if sint segment_id = 2 ^ 31 - 1 then Some (Inl SignedOverflow)
              else align_loop L crc (segment_id + 1) 0 sg ix fs)
           else if off < 0 then Some (Inr (ix, fs))
           else (case PutIndex L (fst (the kv)) (snd (the kv)) ix of
                   Inl e \<Rightarrow> Some (Inl e)
                 | Inr (_, ix) \<Rightarrow> align_loop L crc segment_id (word_of_int off) sg ix fs)))"

definition AlignIndexWithSegmentStore ::
  "'db LevelDB \<Rightarrow> (string \<Rightarrow> u32) \<Rightarrow> SegmentStore \<Rightarrow> 'db LogIndexDB \<Rightarrow> FS
     \<Rightarrow> (bool \<times> 'db LogIndexDB \<times> FS) res option" where
  "AlignIndexWithSegmentStore L crc sg ix fs =
     (case GetLastIndex L ix of
        Inl e \<Rightarrow> Some (Inl e)
      | Inr None \<Rightarrow> Some (Inr (True, ix, fs))
      | Inr (Some (idx_key, exist_log_index)) \<Rightarrow>
          (case ParseSegmentIndex exist_log_index of
             Inl e \<Rightarrow> Some (Inl e)
           | Inr (db_segment_id, segment_offset, checksum) \<Rightarrow>
               if sint (GetLastSegmentId sg) < sint db_segment_id then Some (Inr (False, ix, fs))
               else map_option (map_sum id (\<lambda>(ix, fs). (True, ix, fs)))
                      (align_loop L crc db_segment_id segment_offset sg ix fs)))"

definition Db_Init ::
  "'db LevelDB \<Rightarrow> (string \<Rightarrow> u32) \<Rightarrow> LogStorageOptions \<Rightarrow> 'db DiskState \<Rightarrow> (bool \<times> 'db DiskState) res option" where
  "Db_Init L crc options st =
     (case st of
        (None, sgp, fs) \<Rightarrow> Some (Inr (False, None, sgp, fs))
      | (Some ix, sgp, fs) \<Rightarrow>
          (case Index_Init L options ix of
             (False, ix) \<Rightarrow> Some (Inr (False, Some ix, sgp, fs))
           | (True, ix) \<Rightarrow>
               (case sgp of
                  None \<Rightarrow> Some (Inr (False, Some ix, None, fs))
                | Some sg \<Rightarrow>
                    (case Segment_Init crc options (sg, fs) of
                       None \<Rightarrow> None
                     | Some (Inl e) \<Rightarrow> Some (Inl e)
                     | Some (Inr (False, _, sg, fs)) \<Rightarrow> Some (Inr (False, Some ix, Some sg, fs))
                     | Some (Inr (True, _, sg, fs)) \<Rightarrow>
                         map_option (map_sum id (\<lambda>(ok, ix, fs). (ok, Some ix, Some sg, fs)))
                           (AlignIndexWithSegmentStore L crc sg ix fs)))))"

subsection \<open>The storage contract\<close>

text \<open>
  As a \<open>LogStorage\<close>: a call that ends in a fault never returns, which the record of operations
  cannot say; it is shown as a refusal that changes nothing. There is no \<open>std::string\<close> longer
  than \<open>string_max_size\<close>.
\<close>

definition disk_put where
  "disk_put L crc k v st =
     (if string_max_size < length v then (False, st)
      else case Db_Put L crc k v st of Inl _ \<Rightarrow> (False, st) | Inr r \<Rightarrow> r)"

definition disk_get where
  "disk_get L crc k st = (case Db_Get L crc k st of Inl _ \<Rightarrow> (None, st) | Inr r \<Rightarrow> r)"

definition disk_delete where
  "disk_delete L now k st = (case Db_Delete L k now st of Inl _ \<Rightarrow> (False, st) | Inr r \<Rightarrow> r)"

definition DiskStorage ::
  "'db LevelDB \<Rightarrow> (string \<Rightarrow> u32) \<Rightarrow> SteadyTime \<Rightarrow> 'db DiskState LogStorage" where
  "DiskStorage L crc now = \<lparr> ls_Put = disk_put L crc, ls_Get = disk_get L crc,
     ls_Delete = disk_delete L now \<rparr>"

text \<open>
  A storage that is in order: both parts there, the invariant of the segment store, no faults of
  the file system, and every index in the database that of a stored record.
\<close>

definition disk_good :: "'db LevelDB \<Rightarrow> (string \<Rightarrow> u32) \<Rightarrow> nat \<Rightarrow> 'db DiskState \<Rightarrow> bool" where
  "disk_good L crc n st \<longleftrightarrow> leveldb_ok L \<and>
     (\<exists>ix db sg fs. st = (Some ix, Some sg, fs) \<and> ix_leveldb ix = Some db \<and> seg_inv (sg, fs) \<and>
        fs_faults fs = [] \<and> unat (sg_key_len sg) = n \<and>
        (\<forall>k idx. lvl_Get L db k = Some idx \<longrightarrow> (\<exists>k' v. stored crc (sg, fs) idx k' v)))"

text \<open>The abstract map: what the database and the segments hold for a key.\<close>

definition disk_view :: "'db LevelDB \<Rightarrow> (string \<Rightarrow> u32) \<Rightarrow> 'db DiskState \<Rightarrow> LogEntryKey \<rightharpoonup> LogEntryValue" where
  "disk_view L crc st k =
     (case st of
        (Some ix, Some sg, fs) \<Rightarrow>
          (case ix_leveldb ix of
             None \<Rightarrow> None
           | Some db \<Rightarrow> (case lvl_Get L db k of
               None \<Rightarrow> None
             | Some idx \<Rightarrow> (case Segment_Read crc idx (sg, fs) of
                 Inr (Some (k', v), _) \<Rightarrow> if k' = k then Some v else None
               | _ \<Rightarrow> None)))
      | _ \<Rightarrow> None)"

definition disk_key :: "nat \<Rightarrow> LogEntryKey \<Rightarrow> bool" where
  "disk_key n k \<longleftrightarrow> length k = n \<and> 7 \<le> n"

lemma disk_view_index:
  assumes "seg_inv (sg, fs)" and "fs_faults fs = []" and "ix_leveldb ix = Some db"
    and "lvl_Get L db k = Some idx" and "stored crc (sg, fs) idx k' v"
  shows "disk_view L crc (Some ix, Some sg, fs) k = (if k' = k then Some v else None)"
  using Read_stored [OF assms(1,5)] assms by (auto simp: disk_view_def)

text \<open>A change that keeps the segments and every index.\<close>

lemma disk_same:
  assumes g: "disk_good L crc n (Some ix, Some sg, fs)" and db: "ix_leveldb ix = Some db"
    and k: "keeps crc (sg, fs) (sg', fs')" and db': "ix_leveldb ix' = Some db'"
    and same: "lvl_Get L db' = lvl_Get L db"
  shows "disk_good L crc n (Some ix', Some sg', fs')"
    and "disk_view L crc (Some ix', Some sg', fs') = disk_view L crc (Some ix, Some sg, fs)"
proof -
  have i: "seg_inv (sg, fs)" "fs_faults fs = []" "unat (sg_key_len sg) = n" "leveldb_ok L"
    and st: "\<And>k idx. lvl_Get L db k = Some idx \<Longrightarrow> \<exists>k' v. stored crc (sg, fs) idx k' v"
    using g db by (auto simp: disk_good_def)
  have i': "seg_inv (sg', fs')" "fs_faults fs' = []" "unat (sg_key_len sg') = n"
    and st': "\<And>idx k v. stored crc (sg, fs) idx k v \<Longrightarrow> stored crc (sg', fs') idx k v"
    using k i by (auto simp: keeps_def)
  show "disk_good L crc n (Some ix', Some sg', fs')"
    using i(4) i' db' same st st' unfolding disk_good_def by fastforce
  show "disk_view L crc (Some ix', Some sg', fs') = disk_view L crc (Some ix, Some sg, fs)"
  proof
    fix key
    show "disk_view L crc (Some ix', Some sg', fs') key = disk_view L crc (Some ix, Some sg, fs) key"
    proof (cases "lvl_Get L db key")
      case None
      then show ?thesis using db db' same by (simp add: disk_view_def)
    next
      case (Some idx)
      then obtain k v where s: "stored crc (sg, fs) idx k v" using st by blast
      from disk_view_index [OF i(1,2) db Some s] disk_view_index [OF i'(1,2) db' _ st' [OF s], of L key]
      show ?thesis using Some same by simp
    qed
  qed
qed

text \<open>What \<open>Put\<close> does on a storage in order.\<close>

lemma Append_size:
  assumes a: "Append crc k v (s, fs) = Inr (Some idx, s', fs')" and l: "length v \<le> string_max_size"
    and k: "length k = unat (sg_key_len s)" and z: "unat (sg_max_size s) < 2 ^ 62" "unat (sg_key_len s) < 2 ^ 62"
  shows "length k + length v < 2 ^ 62"
proof -
  let ?len = "8 + (sg_key_len s + of_nat (length v))"
  have "\<not> ?len > sg_max_size s" using a by (auto simp: Append_def Let_def)
  then have le: "unat ?len \<le> unat (sg_max_size s)" by (simp add: word_less_nat_alt)
  have "?len = of_nat (8 + length k + length v)" using k by simp
  then have "unat ?len = 8 + length k + length v"
    using k l z(2) by (simp only:) (rule unat_of_nat_u64, simp add: string_max_size_def)
  with le z(1) show ?thesis by simp
qed

lemma Db_Put_cases:
  assumes g: "disk_good L crc n (Some ix, Some sg, fs)" and k: "length k = n"
    and l: "length v \<le> string_max_size" and db: "ix_leveldb ix = Some db"
    and r: "Db_Put L crc k v (Some ix, Some sg, fs) = Inr (b, st')"
  shows "\<exists>ix' sg' fs' db'. st' = (Some ix', Some sg', fs') \<and> ix_leveldb ix' = Some db' \<and>
    keeps crc (sg, fs) (sg', fs') \<and>
    (if b then \<exists>idx. lvl_Get L db' = (lvl_Get L db)(k \<mapsto> idx) \<and> stored crc (sg', fs') idx k v
     else lvl_Get L db' = lvl_Get L db)"
proof -
  have i: "seg_inv (sg, fs)" and kl: "unat (sg_key_len sg) = n" and lk: "leveldb_ok L"
    using g by (auto simp: disk_good_def)
  obtain res sg' fs' where a: "Append crc k v (sg, fs) = Inr (res, sg', fs')"
    using r by (auto simp: Db_Put_def bind_res_eq_Inr)
  show ?thesis
  proof (cases res)
    case (Some idx)
    have kv: "length k + length v < 2 ^ 62"
      using Append_size [OF a [unfolded Some] l] k kl seg_invD(8,9) [OF i] by simp
    have ak: "keeps crc (sg, fs) (sg', fs') \<and> stored crc (sg', fs') idx k v"
      using Append_keeps [OF i _ kv a] k kl Some by simp
    obtain ok db' where p: "lvl_Put L k idx db = (ok, db')" by force
    have "b = ok \<and> st' = (Some (ix\<lparr> ix_leveldb := Some db' \<rparr>), Some sg', fs')"
      using r a Some db p by (simp add: Db_Put_def PutIndex_def ToIndexKey_def)
    moreover have "lvl_Get L db' = (if ok then (lvl_Get L db)(k \<mapsto> idx) else lvl_Get L db)"
      using lk p unfolding leveldb_ok_def by blast
    ultimately show ?thesis using ak by auto
  next
    case None
    have "keeps crc (sg, fs) (sg', fs')"
    proof (cases "length k + length v < 2 ^ 62")
      case True
      with Append_keeps [OF i _ True a] k kl show ?thesis by simp
    next
      case False
      let ?len = "8 + (sg_key_len sg + of_nat (length v))"
      have "sg_key_len sg = of_nat (length k)" using k kl by (metis word_of_nat_unat)
      then have "?len = of_nat (8 + length k + length v)" by simp
      then have "unat ?len = 8 + length k + length v"
        using k kl l seg_invD(9) [OF i] by (simp only:) (rule unat_of_nat_u64, simp add: string_max_size_def)
      then have "?len > sg_max_size sg" using False seg_invD(8) [OF i] by (simp add: word_less_nat_alt)
      then have "sg' = sg \<and> fs' = fs" using a by (auto simp: Append_def Let_def)
      with keeps_refl [OF i] show ?thesis by simp
    qed
    with r a None db show ?thesis by (auto simp: Db_Put_def)
  qed
qed

lemma disk_put_done:
  assumes g: "disk_good L crc n st" and k: "disk_key n k" and p: "disk_put L crc k v st = (b, st')"
  shows "disk_good L crc n st' \<and> disk_view L crc st' = (if b then (disk_view L crc st)(k \<mapsto> v) else disk_view L crc st)"
proof -
  obtain ix db sg fs where st: "st = (Some ix, Some sg, fs)" and db: "ix_leveldb ix = Some db"
    and i: "seg_inv (sg, fs)" "fs_faults fs = []" "unat (sg_key_len sg) = n" "leveldb_ok L"
    and all: "\<And>k idx. lvl_Get L db k = Some idx \<Longrightarrow> \<exists>k' v. stored crc (sg, fs) idx k' v"
    using g by (auto simp: disk_good_def)
  show ?thesis
  proof (cases "length v \<le> string_max_size \<and> Db_Put L crc k v st = Inr (b, st')")
    case False
    then have "b = False \<and> st' = st" using p by (auto simp: disk_put_def split: sum.splits if_splits)
    with g show ?thesis by simp
  next
    case True
    then obtain ix' sg' fs' db' where st': "st' = (Some ix', Some sg', fs')" and db': "ix_leveldb ix' = Some db'"
      and kp: "keeps crc (sg, fs) (sg', fs')"
      and res: "if b then \<exists>idx. lvl_Get L db' = (lvl_Get L db)(k \<mapsto> idx) \<and> stored crc (sg', fs') idx k v
        else lvl_Get L db' = lvl_Get L db"
      using Db_Put_cases [OF g [unfolded st], of k v db b st'] k db unfolding disk_key_def st by blast
    show ?thesis
    proof (cases b)
      case False
      with disk_same [OF g [unfolded st] db kp db'] res show ?thesis by (simp add: st st')
    next
      case b: True
      then obtain idx where u: "lvl_Get L db' = (lvl_Get L db)(k \<mapsto> idx)" and s: "stored crc (sg', fs') idx k v"
        using res by auto
      have i': "seg_inv (sg', fs')" "fs_faults fs' = []" "unat (sg_key_len sg') = n"
        and mono: "\<And>idx k v. stored crc (sg, fs) idx k v \<Longrightarrow> stored crc (sg', fs') idx k v"
        using kp i by (auto simp: keeps_def)
      have "\<exists>k' w. stored crc (sg', fs') j k' w" if "lvl_Get L db' key = Some j" for key j
        using that u s all mono by (cases "key = k") fastforce+
      then have good: "disk_good L crc n st'" using i' i(4) db' by (auto simp: disk_good_def st')
      have "disk_view L crc st' key = ((disk_view L crc st)(k \<mapsto> v)) key" for key
      proof (cases "key = k")
        case True
        then show ?thesis using disk_view_index [OF i'(1,2) db' _ s, of L key] u by (simp add: st')
      next
        case False
        show ?thesis
        proof (cases "lvl_Get L db key")
          case None
          with False u db db' show ?thesis by (simp add: disk_view_def st st')
        next
          case (Some j)
          then obtain k' w where w: "stored crc (sg, fs) j k' w" using all by blast
          from disk_view_index [OF i(1,2) db Some w] disk_view_index [OF i'(1,2) db' _ mono [OF w], of L key]
          show ?thesis using Some False u by (simp add: st st')
        qed
      qed
      with good b show ?thesis by (simp add: fun_eq_iff)
    qed
  qed
qed

lemma disk_get_view:
  assumes g: "disk_good L crc n st" and k: "disk_key n k" and r: "disk_get L crc k st = (r, st')"
  shows "r = disk_view L crc st k \<and> disk_good L crc n st' \<and> disk_view L crc st' = disk_view L crc st"
proof -
  obtain ix db sg fs where st: "st = (Some ix, Some sg, fs)" and db: "ix_leveldb ix = Some db"
    and i: "seg_inv (sg, fs)" "fs_faults fs = []" "unat (sg_key_len sg) = n" "leveldb_ok L"
    and all: "\<And>k idx. lvl_Get L db k = Some idx \<Longrightarrow> \<exists>k' v. stored crc (sg, fs) idx k' v"
    using g by (auto simp: disk_good_def)
  show ?thesis
  proof (cases "lvl_Get L db k")
    case None
    then have "r = None \<and> st' = st"
      using r db by (auto simp: disk_get_def Db_Get_def GetIndex_def ToIndexKey_def st)
    with None g db show ?thesis by (simp add: disk_view_def st)
  next
    case (Some idx)
    then obtain k' v where s: "stored crc (sg, fs) idx k' v" using all by blast
    obtain fs' where rd: "Segment_Read crc idx (sg, fs) = Inr (Some (k', v), fs')" and q: "quiet fs fs'"
      using Read_stored [OF i(1) s] i(2) by auto
    have "\<not> length k + 1 < 8" using k by (simp add: disk_key_def)
    then have "r = (if k' \<noteq> k then None else Some v) \<and> st' = (Some ix, Some sg, fs')"
      using r db Some rd by (auto simp: disk_get_def Db_Get_def GetIndex_def ToIndexKey_def st)
    with disk_view_index [OF i(1,2) db Some s] disk_same [OF g [unfolded st] db quiet_keeps [OF i(1) q] db refl]
    show ?thesis by (auto simp: st)
  qed
qed

interpretation disk: log_storage "disk_put L crc" "disk_get L crc" "disk_key n" "disk_good L crc n"
  "disk_view L crc" for L crc n
proof (unfold_locales, goal_cases)
  case (1 st k v st')
  then show ?case using disk_put_done [of L crc n st k v True st'] by simp
next
  case (2 st k v st')
  then show ?case using disk_put_done [of L crc n st k v False st'] by simp
next
  case (3 st k r st')
  then show ?case using disk_get_view by blast
qed

subsection \<open>A database to try the properties out on\<close>

text \<open>A list of entries, the newest first; its last key in the order of the bytes.\<close>

fun bytes_le :: "string \<Rightarrow> string \<Rightarrow> bool" where
  "bytes_le [] _ = True"
| "bytes_le (_ # _) [] = False"
| "bytes_le (c # cs) (d # ds) =
     ((of_char c :: nat) < of_char d \<or> c = d \<and> bytes_le cs ds)"

definition greatest_key :: "(string \<times> string) list \<Rightarrow> string option" where
  "greatest_key db = (case db of [] \<Rightarrow> None
     | (k, _) # db \<Rightarrow> Some (fold (\<lambda>(k, _) m. if bytes_le m k then k else m) db k))"

definition list_db :: "(string \<times> string) list LevelDB" where
  "list_db = \<lparr> lvl_Open = (\<lambda>_. Some []), lvl_Get = map_of,
     lvl_Put = (\<lambda>k v db. (True, (k, v) # db)),
     lvl_Delete = (\<lambda>k db. (True, filter (\<lambda>e. fst e \<noteq> k) db)), lvl_Last = greatest_key \<rparr>"

lemma list_db_simps [simp]:
  "lvl_Open list_db p = Some []" "lvl_Get list_db = map_of" "lvl_Put list_db k v db = (True, (k, v) # db)"
  "lvl_Last list_db = greatest_key"
  by (simp_all add: list_db_def)

lemma list_db_ok: "leveldb_ok list_db"
proof -
  have "map_of (filter (\<lambda>e. fst e \<noteq> k) db) = (map_of db)(k := None)" for k and db :: "(string \<times> string) list"
    by (induction db) (auto simp: fun_eq_iff)
  then show ?thesis by (simp add: leveldb_ok_def list_db_def)
qed

definition sample_disk_lo :: LogStorageOptions where
  "sample_disk_lo = \<lparr> lo_dbPath = ''db'', lo_segmentMaxSize = 1024, lo_indexKeyLength = 8, lo_removeAsync = False \<rparr>"

lemma sample_disk_start:
  "\<exists>sg fs. Segment_Init sample_crc sample_disk_lo (sample_store, empty_fs) = Some (Inr (True, False, sg, fs)) \<and>
     restartable sample_disk_lo [] (sg, fs) \<and> sg_file_size sg = 1024 \<and> sg_key_len sg = 8 \<and>
     sg_max_size sg = 1024 \<and> sg_cur_id sg = 0"
proof -
  have "fresh_fs ''db'' empty_fs" by (simp add: fresh_fs_def empty_fs_def)
  then obtain sg fs where 1: "Segment_Init sample_crc sample_disk_lo (sample_store, empty_fs) = Some (Inr (True, False, sg, fs))"
    "restartable sample_disk_lo [] (sg, fs)" "sg_file_size sg = 1024"
    using Segment_Init_fresh [of sample_store sample_disk_lo empty_fs sample_crc]
    by (auto simp: sample_disk_lo_def sample_store_def new_SegmentStore_def empty_fs_def)
  moreover from 1(2) have "sg_key_len sg = 8 \<and> sg_max_size sg = 1024 \<and> sg_cur_id sg = 0"
    by (simp add: restartable_def sample_disk_lo_def)
  ultimately show ?thesis by blast
qed

lemma sample_disk:
  "\<exists>st. Db_Init list_db sample_crc sample_disk_lo
       (Some \<lparr> ix_dbpath = [], ix_leveldb = None \<rparr>, Some sample_store, empty_fs) = Some (Inr (True, st)) \<and>
     disk_good list_db sample_crc 8 st \<and>
     (\<exists>st'. Db_Put list_db sample_crc ''12345678'' ''v'' st = Inr (True, st'))"
proof -
  obtain sg fs where 1: "Segment_Init sample_crc sample_disk_lo (sample_store, empty_fs) = Some (Inr (True, False, sg, fs))"
    and r: "restartable sample_disk_lo [] (sg, fs)" and c: "sg_key_len sg = 8" "sg_max_size sg = 1024" "sg_cur_id sg = 0"
    using sample_disk_start by blast
  let ?ix = "\<lparr> ix_dbpath = ''db'', ix_leveldb = Some [] \<rparr> :: (string \<times> string) list LogIndexDB"
  let ?st = "(Some ?ix, Some sg, fs)"
  have rdy: "seg_ready (sg, fs)" using r by (simp add: restartable_def)
  have "Db_Init list_db sample_crc sample_disk_lo
       (Some \<lparr> ix_dbpath = [], ix_leveldb = None \<rparr>, Some sample_store, empty_fs) = Some (Inr (True, ?st))"
    using 1 by (simp add: Db_Init_def Index_Init_def AlignIndexWithSegmentStore_def GetLastIndex_def
        greatest_key_def sample_disk_lo_def)
  moreover have "disk_good list_db sample_crc 8 ?st"
    using rdy c by (simp add: disk_good_def list_db_ok seg_ready_def)
  moreover obtain idx sg' fs' where "Append sample_crc ''12345678'' ''v'' (sg, fs) = Inr (Some idx, sg', fs')"
    using Append_succeeds [OF rdy, of "''12345678''" "''v''" sample_crc] c by auto
  then have "\<exists>st'. Db_Put list_db sample_crc ''12345678'' ''v'' ?st = Inr (True, st')"
    by (simp add: Db_Put_def PutIndex_def)
  ultimately show ?thesis by blast
qed

subsection \<open>Aligning the index with the segments\<close>

text \<open>The indices of the records of a segment from an offset on, and the replay that puts them.\<close>

fun rec_indices :: "(string \<Rightarrow> u32) \<Rightarrow> SEGMENT_ID \<Rightarrow> nat \<Rightarrow> (string \<times> string) list \<Rightarrow> (string \<times> SegmentIndex) list" where
  "rec_indices crc sid off [] = []"
| "rec_indices crc sid off ((k, v) # rs) =
     (k, ToSegmentIndex sid (of_nat off) (ucast (crc (k @ v)))) # rec_indices crc sid (off + length (rec_bytes k v)) rs"

definition leveldb_puts :: "'db LevelDB \<Rightarrow> bool" where
  "leveldb_puts L \<longleftrightarrow> (\<forall>k v db. fst (lvl_Put L k v db))"

lemma ReplayLog_absent:
  assumes "fs_faults fs = []" and "map_of (fs_files fs) (ToSegmentPath sid s) = None"
    and "ToSegmentPath sid s \<notin> set (fs_dirs fs)"
  shows "ReplayLog crc sid off (s, fs) = Inr (- 1, None, fs)"
  using assms by (simp add: ReplayLog_def SegmentExists_def sys_access_def)

lemma align_loop_log:
  assumes "replayable sid ino (s, fs)" and "0 < unat (sg_key_len s)" and "sint sid \<noteq> 2 ^ 31 - 1"
    and "map_of (fs_files fs) (ToSegmentPath (sid + 1) s) = None"
    and "ToSegmentPath (sid + 1) s \<notin> set (fs_dirs fs)"
    and "fs_data fs ino = seg_bytes pre @ seg_bytes rs @ replicate m NUL"
    and "\<forall>r\<in>set rs. length (fst r) = unat (sg_key_len s)"
    and "length (seg_bytes (pre @ rs)) < 2 ^ 31"
    and "leveldb_ok L" and "leveldb_puts L" and "ix_leveldb ix = Some db"
  shows "\<exists>ix' db' fs'. align_loop L crc sid (of_nat (length (seg_bytes pre))) s ix fs = Some (Inr (ix', fs')) \<and>
    ix_leveldb ix' = Some db' \<and> quiet fs fs' \<and>
    lvl_Get L db' = lvl_Get L db ++ map_of (rev (rec_indices crc sid (length (seg_bytes pre)) rs))"
  using assms
proof (induction rs arbitrary: pre fs ix db)
  case Nil
  let ?off = "of_nat (length (seg_bytes pre)) :: u64"
  have u: "unat ?off = length (seg_bytes pre)" using Nil.prems(8) by (intro unat_of_nat_u64) simp
  have b: "unat ?off < 2 ^ 63" using u Nil.prems(8) by simp
  have z: "drop (unat ?off) (fs_data fs ino) = replicate m NUL" using Nil.prems(6) u by simp
  obtain fs1 where r: "ReplayLog crc sid ?off (s, fs) = Inr (0, None, fs1)" and q: "quiet fs fs1"
    using ReplayLog_end [OF Nil.prems(1) b z] by blast
  have "ReplayLog crc (sid + 1) 0 (s, fs1) = Inr (- 1, None, fs1)"
    using Nil.prems(1,4,5) q by (intro ReplayLog_absent) (simp_all add: quiet_def replayable_def)
  then have "align_loop L crc (sid + 1) 0 s ix fs1 = Some (Inr (ix, fs1))"
    by (subst align_loop.simps) simp
  then have "align_loop L crc sid ?off s ix fs = Some (Inr (ix, fs1))"
    using r Nil.prems(3) by (subst align_loop.simps) simp
  with q Nil.prems(11) show ?case by simp
next
  case (Cons kv rs)
  obtain k v where kv: "kv = (k, v)" by force
  let ?off = "of_nat (length (seg_bytes pre)) :: u64"
  let ?next = "of_nat (length (seg_bytes (pre @ [kv]))) :: u64"
  let ?idx = "ToSegmentIndex sid ?off (ucast (crc (k @ v)))"
  have u: "unat ?off = length (seg_bytes pre)" using Cons.prems(8) by (intro unat_of_nat_u64) simp
  have b: "unat ?off + (8 + length k + length v) < 2 ^ 63" using u Cons.prems(8) kv by simp
  have rg: "take (8 + length k + length v) (drop (unat ?off) (fs_data fs ino)) = rec_bytes k v"
    using Cons.prems(6) kv by (simp add: u)
  have k: "length k = unat (sg_key_len s)" "0 < length k + length v" using Cons.prems(2,7) kv by auto
  obtain fs1 where r: "ReplayLog crc sid ?off (s, fs) = Inr (to_int (?off + 8 + of_nat (length k + length v)),
         Some (k, ?idx), fs1)" and q: "quiet fs fs1"
    using ReplayLog_record [OF Cons.prems(1) k b rg] by blast
  have nx: "?off + 8 + of_nat (length k + length v) = ?next" by (simp add: kv)
  have un: "unat ?next = length (seg_bytes (pre @ [kv]))"
    using Cons.prems(8) kv by (intro unat_of_nat_u64) simp
  have small: "length (seg_bytes (pre @ [kv])) < 2 ^ 31" using Cons.prems(8) kv by simp
  then have ti: "to_int ?next = int (length (seg_bytes (pre @ [kv])))"
    using to_int_small [of ?next] un by (simp only:)
  have pos: "0 < to_int ?next" unfolding ti by (simp add: kv)
  have w: "word_of_int (to_int ?next) = ?next" unfolding ti by simp
  obtain db1 where p: "lvl_Put L k ?idx db = (True, db1)"
    using Cons.prems(10) by (metis leveldb_puts_def prod.collapse)
  have g1: "lvl_Get L db1 = (lvl_Get L db)(k \<mapsto> ?idx)"
    using Cons.prems(9) p unfolding leveldb_ok_def by metis
  let ?ix = "ix\<lparr> ix_leveldb := Some db1 \<rparr>"
  have "replayable sid ino (s, fs1)" using Cons.prems(1) q by (simp add: replayable_def quiet_def)
  moreover have "fs_data fs1 ino = seg_bytes (pre @ [kv]) @ seg_bytes rs @ replicate m NUL"
    using Cons.prems(6) q by (simp add: quiet_def kv)
  moreover have "map_of (fs_files fs1) (ToSegmentPath (sid + 1) s) = None"
    "ToSegmentPath (sid + 1) s \<notin> set (fs_dirs fs1)" using Cons.prems(4,5) q by (simp_all add: quiet_def)
  ultimately obtain ix' db' fs' where ih: "align_loop L crc sid ?next s ?ix fs1 = Some (Inr (ix', fs'))"
    "ix_leveldb ix' = Some db'" "quiet fs1 fs'"
    "lvl_Get L db' = lvl_Get L db1 ++ map_of (rev (rec_indices crc sid (length (seg_bytes (pre @ [kv]))) rs))"
    using Cons.IH [of fs1 "pre @ [kv]" ?ix db1] Cons.prems(2,3,7-10) by auto
  have "align_loop L crc sid ?off s ix fs = align_loop L crc sid ?next s ?ix fs1"
    using pos w p Cons.prems(11)
    by (subst align_loop.simps) (simp add: r nx PutIndex_def del: of_nat_add length_append)
  moreover have "lvl_Get L db' = lvl_Get L db ++ map_of (rev (rec_indices crc sid (length (seg_bytes pre)) (kv # rs)))"
    using ih(4) g1 by (auto simp: kv map_add_def fun_eq_iff split: option.split)
  ultimately show ?case using ih quiet_trans [OF q ih(3)] by auto
qed

subsection \<open>Properties\<close>

text \<open>
  On a storage in order, a value that was put under a key of the configured length is got back,
  after any further puts under other keys, and what is got under those keys is what it was before.
\<close>

theorem disk_get_after_put:
  assumes "disk_good L crc n st" and "disk_key n k" and "length v \<le> string_max_size"
    and "Db_Put L crc k v st = Inr (True, st')"
    and "disk_key n k'" and "k' \<noteq> k"
  shows "(\<exists>st''. Db_Get L crc k st' = Inr (Some v, st'')) \<and>
    fst (disk_get L crc k' st') = fst (disk_get L crc k' st) \<and>
    (\<forall>v' b st''. disk_put L crc k' v' st' = (b, st'') \<longrightarrow> fst (disk_get L crc k st'') = Some v)"
proof -
  have p: "disk_put L crc k v st = (True, st')" using assms(3,4) by (simp add: disk_put_def)
  note g = disk.get_after_put [OF assms(1,2) p]
  have good: "disk_good L crc n st'" using disk.put_done [OF assms(1,2) p] by simp
  have "\<exists>st''. Db_Get L crc k st' = Inr (Some v, st'')"
    using g by (cases "Db_Get L crc k st'") (auto simp: disk_get_def)
  moreover have "fst (disk_get L crc k' st') = fst (disk_get L crc k' st)"
    by (rule disk.get_after_put_other [OF assms(1,2,5,6) p])
  moreover have "fst (disk_get L crc k st'') = Some v" if "disk_put L crc k' v' st' = (b, st'')" for v' b st''
    using disk.get_after_put_other [OF good assms(5,2) assms(6) [symmetric] that] g by simp
  ultimately show ?thesis by blast
qed

lemma disk_get_after_put_witness:
  "\<exists>st st' st''. Db_Init list_db sample_crc sample_disk_lo
       (Some \<lparr> ix_dbpath = [], ix_leveldb = None \<rparr>, Some sample_store, empty_fs) = Some (Inr (True, st)) \<and>
     Db_Put list_db sample_crc ''12345678'' ''v'' st = Inr (True, st') \<and>
     Db_Get list_db sample_crc ''12345678'' st' = Inr (Some ''v'', st'')"
proof -
  obtain st st' where 1: "Db_Init list_db sample_crc sample_disk_lo
       (Some \<lparr> ix_dbpath = [], ix_leveldb = None \<rparr>, Some sample_store, empty_fs) = Some (Inr (True, st))"
    and g: "disk_good list_db sample_crc 8 st"
    and p: "Db_Put list_db sample_crc ''12345678'' ''v'' st = Inr (True, st')"
    using sample_disk by blast
  have "\<exists>st''. Db_Get list_db sample_crc ''12345678'' st' = Inr (Some ''v'', st'')"
    using disk_get_after_put [OF g _ _ p, of "''87654321''"] by (simp add: disk_key_def string_max_size_def)
  with 1 p show ?thesis by blast
qed

text \<open>A read gives a key of the configured length, and the log line needs seven characters.\<close>

lemma Segment_Read_key_length:
  assumes h: "Segment_Read crc idx (s, fs) = Inr (Some (k, v), fs')"
  shows "length k = unat (sg_key_len s)"
proof -
  obtain sid off c where 0: "ParseSegmentIndex idx = Inr (sid, off, c)"
    using h by (auto simp: Segment_Read_def bind_res_eq_Inr)
  obtain st fd fs1 where 1: "OpenSegment sid False (s, fs) = (st, fd, fs1)" by (metis prod_cases3)
  obtain p fs2 where 2: "sys_lseek_set fd (sint off) fs1 = (p, fs2)" by force
  obtain bs fs3 where 3: "sys_read fd 8 fs2 = (bs, fs3)" by force
  obtain kb fs4 where 4: "sys_read fd (unat (sg_key_len s)) fs3 = (kb, fs4)" by force
  obtain vb fs5 where 5: "sys_read fd (unat (word_of_bytes (the bs) - sg_key_len s)) fs4 = (vb, fs5)" by force
  have "kb = Some k \<and> map_option length kb = Some (unat (sg_key_len s))"
    using h 0 1 2 3 4 5 by (auto simp: Segment_Read_def Let_def split: if_splits)
  then show ?thesis by auto
qed

lemma Db_Get_key_length:
  assumes h: "Db_Get L crc key (ixp, Some sg, fs) = Inr (Some v, st')"
  shows "length key = unat (sg_key_len sg) \<and> 7 \<le> length key"
proof -
  obtain ix where ix: "ixp = Some ix" using h by (cases ixp) (auto simp: Db_Get_def deref_def)
  obtain si where si: "GetIndex L key ix = Inr si"
    using h ix by (auto simp: Db_Get_def ToIndexKey_def bind_res_eq_Inr)
  obtain idx where idx: "si = Some idx" using h ix si by (cases si) (auto simp: Db_Get_def ToIndexKey_def)
  have l: "7 \<le> length key" using h ix si idx by (auto simp: Db_Get_def ToIndexKey_def split: if_splits)
  obtain kv fs' where rd: "Segment_Read crc idx (sg, fs) = Inr (kv, fs')"
    using h ix si idx l by (auto simp: Db_Get_def ToIndexKey_def bind_res_eq_Inr)
  have "kv = Some (key, v)"
    using h ix si idx l rd by (cases kv) (auto simp: Db_Get_def ToIndexKey_def split: if_splits)
  with Segment_Read_key_length rd l show ?thesis by blast
qed


text \<open>
  C15. Aligning ends and puts the index of every record of the last segment from the one of the
  greatest key on: a value whose \<open>Append\<close> was done but whose index was lost is found again after
  a restart. The map of indices is overwritten in the order of the records, whatever was deleted.
\<close>

theorem align_recovers_indices:
  assumes "ix_leveldb ix = Some db" and "lvl_Last L db = Some key"
    and "lvl_Get L db key = Some (ToSegmentIndex (sg_cur_id s) (of_nat (length (seg_bytes pre))) c)"
    and "replayable (sg_cur_id s) ino (s, fs)" and "seg_inv (s, fs)" and "0 < unat (sg_key_len s)"
    and "sint (sg_cur_id s) \<noteq> 2 ^ 31 - 1" and "seg_holds ino (pre @ rs) (s, fs)"
    and "length (seg_bytes (pre @ rs)) < 2 ^ 31" and "leveldb_ok L" and "leveldb_puts L"
  shows "\<exists>ix' db' fs'. AlignIndexWithSegmentStore L crc s ix fs = Some (Inr (True, ix', fs')) \<and>
    quiet fs fs' \<and> ix_leveldb ix' = Some db' \<and>
    lvl_Get L db' = lvl_Get L db ++ map_of (rev (rec_indices crc (sg_cur_id s) (length (seg_bytes pre)) rs))"
proof -
  obtain m where d: "fs_data fs ino = seg_bytes pre @ seg_bytes rs @ replicate m NUL"
    and k: "\<forall>r\<in>set rs. length (fst r) = unat (sg_key_len s)"
    using assms(8) by (auto simp: seg_holds_def)
  have "sint (sg_cur_id s) < sint (sg_cur_id s + 1)" using sint_plus_one [OF assms(7)] by simp
  then have n: "map_of (fs_files fs) (ToSegmentPath (sg_cur_id s + 1) s) = None" by (rule seg_invD(4) [OF assms(5)])
  obtain ix' db' fs' where
    "align_loop L crc (sg_cur_id s) (of_nat (length (seg_bytes pre))) s ix fs = Some (Inr (ix', fs'))"
    "ix_leveldb ix' = Some db'" "quiet fs fs'"
    "lvl_Get L db' = lvl_Get L db ++ map_of (rev (rec_indices crc (sg_cur_id s) (length (seg_bytes pre)) rs))"
    using align_loop_log [OF assms(4,6,7) n seg_invD(5) [OF assms(5)] d k assms(9-11,1)] by blast
  then show ?thesis
    using assms(1-3) by (simp add: AlignIndexWithSegmentStore_def GetLastIndex_def GetIndex_def GetLastSegmentId_def)
qed

text \<open>The witness: two records are in the segment, the index of the first only in the database.\<close>

lemma align_recovers_indices_witness:
  "\<exists>sg fs i j ix' db' fs'. restartable sample_disk_lo [(''12345678'', ''v''), (''12345679'', ''w'')] (sg, fs) \<and>
     AlignIndexWithSegmentStore list_db sample_crc sg
       \<lparr> ix_dbpath = ''db'', ix_leveldb = Some [(''12345678'', i)] \<rparr> fs = Some (Inr (True, ix', fs')) \<and>
     ix_leveldb ix' = Some db' \<and> map_of db' ''12345679'' = Some j"
proof -
  obtain sg fs where r0: "restartable sample_disk_lo [] (sg, fs)"
    and c0: "sg_file_size sg = 1024" "sg_key_len sg = 8" "sg_max_size sg = 1024"
    using sample_disk_start by blast
  obtain sg1 fs1 where r1: "restartable sample_disk_lo ([] @ [(''12345678'', ''v'')]) (sg1, fs1)"
    and c1: "sg_file_size sg1 = 1024" "sg_key_len sg1 = 8" "sg_max_size sg1 = 1024"
    using append_extends [OF r0, of "''12345678''" "''v''" sample_crc] c0 by auto
  obtain sg2 fs2 where r2: "restartable sample_disk_lo (([] @ [(''12345678'', ''v'')]) @ [(''12345679'', ''w'')]) (sg2, fs2)"
    and c2: "sg_key_len sg2 = 8"
    using append_extends [OF r1, of "''12345679''" "''w''" sample_crc] c1 by auto
  let ?rs = "[(''12345678'', ''v''), (''12345679'', ''w'')]"
  have r: "restartable sample_disk_lo ?rs (sg2, fs2)" using r2 by simp
  then obtain ino where rdy: "seg_ready (sg2, fs2)" and id0: "sg_cur_id sg2 = 0"
    and f: "map_of (fs_files fs2) (ToSegmentPath 0 sg2) = Some ino" "seg_holds ino ([] @ ?rs) (sg2, fs2)"
    unfolding restartable_def prod.case by auto
  have i: "seg_inv (sg2, fs2)" using rdy by (simp add: seg_ready_def)
  have rp: "replayable (sg_cur_id sg2) ino (sg2, fs2)"
    using rdy f(1) id0 seg_invD(5) [OF i, of 0] by (simp add: replayable_def seg_ready_def)
  let ?i = "ToSegmentIndex (sg_cur_id sg2) (of_nat (length (seg_bytes []))) (ucast (sample_crc ''12345678v''))"
  let ?ix = "\<lparr> ix_dbpath = ''db'', ix_leveldb = Some [(''12345678'', ?i)] \<rparr>"
  have "\<exists>ix' db' fs'. AlignIndexWithSegmentStore list_db sample_crc sg2 ?ix fs2 = Some (Inr (True, ix', fs')) \<and>
    quiet fs2 fs' \<and> ix_leveldb ix' = Some db' \<and>
    lvl_Get list_db db' = lvl_Get list_db [(''12345678'', ?i)] ++
      map_of (rev (rec_indices sample_crc (sg_cur_id sg2) (length (seg_bytes [])) ?rs))"
    by (rule align_recovers_indices [OF _ _ _ rp i _ _ f(2), where c = "ucast (sample_crc ''12345678v'')"])
      (use c2 id0 in \<open>simp_all add: greatest_key_def list_db_ok leveldb_puts_def\<close>)
  then obtain ix' db' fs' where a: "AlignIndexWithSegmentStore list_db sample_crc sg2 ?ix fs2 = Some (Inr (True, ix', fs'))"
    "ix_leveldb ix' = Some db'"
    and g: "map_of db' = map_of [(''12345678'', ?i)] ++
      map_of (rev (rec_indices sample_crc (sg_cur_id sg2) (length (seg_bytes [])) ?rs))"
    by auto
  have "\<exists>j. map_of db' ''12345679'' = Some j" unfolding g by (simp add: map_add_def)
  with r a show ?thesis by blast
qed

text \<open>A log over this storage, where the entry of instance 12345678 is written and served.\<close>

definition disk_env :: "(string \<times> string) list DiskState Env" where
  "disk_env = \<lparr> env_options = sample_options, env_storage = DiskStorage list_db sample_crc 0,
     env_serialize = fixed_serialize, env_parse = fixed_parse \<rparr>"


end
