(* ===== verification/Kv_Statemachine.thy ===== *)
theory Kv_Statemachine
  imports Db_Storage
begin

section \<open>The key-value state machine (kvsm/kv.cpp, kvsm/kvsm.cpp)\<close>

text \<open>
  \<open>KV\<close> keeps versioned values in LevelDB, under the serialisation of \<open>ValuePB\<close>; the state machine
  decodes a chosen value as a \<open>PaxosKVPB\<close> and reads or writes. LevelDB and the code that protoc
  generates are parameters. A \<open>Put\<close> is a compare-and-swap on the version; \<open>Init\<close> never opens
  the database, and the state machine has no \<open>KV\<close>.
\<close>

type_synonym version_id = u64

record ValuePB =
  vpb_value :: string
  vpb_ver :: version_id

datatype KVMethod = KV_GET | KV_PUT | KV_UNKNOWN int

text \<open>A proto3 enumeration is open: other numbers are kept.\<close>

record PaxosKVPB =
  kvpb_key :: string
  kvpb_value :: string
  kvpb_ver :: version_id
  kvpb_method :: KVMethod

text \<open>\<open>None\<close> is a \<open>ParseFromArray\<close> or \<open>SerializeToString\<close> that returns false.\<close>

record KvCodec =
  kc_serialize :: "ValuePB \<Rightarrow> string option"
  kc_parse :: "string \<Rightarrow> ValuePB option"
  kc_parse_paxos :: "string \<Rightarrow> PaxosKVPB"   \<comment> \<open>what the parse leaves; its result is not looked at\<close>

definition kv_codec_roundtrip :: "KvCodec \<Rightarrow> bool" where
  "kv_codec_roundtrip C \<longleftrightarrow> (\<forall>pb s. kc_serialize C pb = Some s \<longrightarrow> kc_parse C s = Some pb)"

subsection \<open>KV\<close>

text \<open>The database pointer has no initialiser; \<open>None\<close> stands for a pointer to no database.\<close>

record 'db KV =
  kv_leveldb :: "'db option"
  kv_dbpath :: string

definition new_KV :: "'db option \<Rightarrow> 'db KV" where
  "new_KV p = \<lparr> kv_leveldb = p, kv_dbpath = [] \<rparr>"

definition KV_Init :: "'db LevelDB \<Rightarrow> string \<Rightarrow> 'db KV \<Rightarrow> bool \<times> 'db KV" where
  "KV_Init L dbpath kv =
     (if kv_dbpath kv = [] then (True, kv)
      else let kv = kv\<lparr> kv_dbpath := dbpath, kv_leveldb := lvl_Open L dbpath \<rparr>
           in (kv_leveldb kv \<noteq> None, kv))"

text \<open>The version if it returns true. The value is never assigned.\<close>

definition KV_Get :: "'db LevelDB \<Rightarrow> KvCodec \<Rightarrow> string \<Rightarrow> 'db KV \<Rightarrow> version_id option res" where
  "KV_Get L C key kv =
     (if kv_dbpath kv = [] then Inr None
      else (case kv_leveldb kv of
         None \<Rightarrow> Inl NullPointer
       | Some db \<Rightarrow> (case lvl_Get L db key of
           None \<Rightarrow> Inr None
         | Some sBuffer \<Rightarrow> (case kc_parse C sBuffer of
             None \<Rightarrow> Inr None
           | Some value_pb \<Rightarrow> Inr (Some (vpb_ver value_pb))))))"

text \<open>A \<open>Get\<close> that fails leaves the version it is compared with uninitialised.\<close>

definition KV_Put ::
  "'db LevelDB \<Rightarrow> KvCodec \<Rightarrow> string \<Rightarrow> string \<Rightarrow> version_id \<Rightarrow> 'db KV \<Rightarrow> (bool \<times> 'db KV) res" where
  "KV_Put L C key val ver kv =
     (if kv_dbpath kv = [] then Inr (False, kv)
      else bind_res (KV_Get L C key kv) (\<lambda>ver_db.
        case ver_db of
          None \<Rightarrow> Inl UninitRead
        | Some ver_db \<Rightarrow>
            if ver_db \<noteq> ver then Inr (False, kv)
            else (case kc_serialize C \<lparr> vpb_value = val, vpb_ver = ver + 1 \<rparr> of
              None \<Rightarrow> Inr (False, kv)
            | Some serialized \<Rightarrow> (case kv_leveldb kv of
                None \<Rightarrow> Inl NullPointer
              | Some db \<Rightarrow> (case lvl_Put L key serialized db of
                  (ok, db') \<Rightarrow> Inr (ok, kv\<lparr> kv_leveldb := Some db' \<rparr>))))))"

subsection \<open>KVStatemachine\<close>

text \<open>The owning pointer to the \<open>KV\<close>; nothing assigns it.\<close>

record 'db KVStatemachine =
  sm_kv :: "'db KV option"

definition Statemachine_New :: "'db KVStatemachine" where
  "Statemachine_New = \<lparr> sm_kv = None \<rparr>"

definition KVSM_SetSmInstanceId :: "instance_id_t \<Rightarrow> 'db KVStatemachine \<Rightarrow> bool \<times> 'db KVStatemachine" where
  "KVSM_SetSmInstanceId instance_id sm = (True, sm)"

definition KVSM_GetSMInstanceId :: "'db KVStatemachine \<Rightarrow> instance_id_t" where
  "KVSM_GetSMInstanceId sm = 0"

definition KVSM_Init :: "'db LevelDB \<Rightarrow> string \<Rightarrow> 'db KVStatemachine \<Rightarrow> 'db KVStatemachine res" where
  "KVSM_Init L dbpath sm =
     bind_res (deref (sm_kv sm)) (\<lambda>kv. Inr (sm\<lparr> sm_kv := Some (snd (KV_Init L dbpath kv)) \<rparr>))"

definition KVSM_Execute ::
  "'db LevelDB \<Rightarrow> KvCodec \<Rightarrow> instance_id_t \<Rightarrow> string \<Rightarrow> 'db KVStatemachine
     \<Rightarrow> (bool \<times> 'db KVStatemachine) res" where
  "KVSM_Execute L C instance_id paxos_value sm =
     (let pb = kc_parse_paxos C paxos_value in
      bind_res
        (case kvpb_method pb of
           KV_GET \<Rightarrow> bind_res (deref (sm_kv sm)) (\<lambda>kv.
             bind_res (KV_Get L C (kvpb_key pb) kv) (\<lambda>r. Inr (r \<noteq> None, sm)))
         | KV_PUT \<Rightarrow> bind_res (deref (sm_kv sm)) (\<lambda>kv.
             bind_res (KV_Put L C (kvpb_key pb) (kvpb_value pb) (kvpb_ver pb) kv) (\<lambda>(ok, kv).
               Inr (ok, sm\<lparr> sm_kv := Some kv \<rparr>)))
         | KV_UNKNOWN _ \<Rightarrow> Inr (False, sm))
        (\<lambda>(execution, sm).
          if \<not> execution then Inr (False, sm)
          else Inr (True, snd (KVSM_SetSmInstanceId instance_id sm))))"

subsection \<open>Runs\<close>

datatype kv_op = OpInit string | OpGet string | OpPut string string version_id

fun kv_step :: "'db LevelDB \<Rightarrow> KvCodec \<Rightarrow> kv_op \<Rightarrow> 'db KV \<Rightarrow> (bool \<times> 'db KV) res" where
  "kv_step L C (OpInit p) kv = Inr (KV_Init L p kv)"
| "kv_step L C (OpGet k) kv = bind_res (KV_Get L C k kv) (\<lambda>r. Inr (r \<noteq> None, kv))"
| "kv_step L C (OpPut k v ver) kv = KV_Put L C k v ver kv"

fun kv_run :: "'db LevelDB \<Rightarrow> KvCodec \<Rightarrow> kv_op list \<Rightarrow> 'db KV \<Rightarrow> (bool list \<times> 'db KV) res" where
  "kv_run L C [] kv = Inr ([], kv)"
| "kv_run L C (x # xs) kv =
     bind_res (kv_step L C x kv) (\<lambda>(r, kv). bind_res (kv_run L C xs kv) (\<lambda>(rs, kv). Inr (r # rs, kv)))"

definition is_init :: "kv_op \<Rightarrow> bool" where
  "is_init x = (case x of OpInit _ \<Rightarrow> True | _ \<Rightarrow> False)"

text \<open>
  C35. Whatever is done with a new key-value store, in any order, it is as new: every \<open>Init\<close> reports
  success without opening a database, every \<open>Get\<close> and every \<open>Put\<close> fails. The state machine over
  it cannot be used at all: executing any read or write dereferences a null pointer.
\<close>

theorem kv_stays_closed:
  "kv_run L C xs (new_KV p) = Inr (map is_init xs, new_KV p) \<and>
   (kvpb_method (kc_parse_paxos C val) \<in> {KV_GET, KV_PUT} \<longrightarrow>
      KVSM_Execute L C instance_id val Statemachine_New = Inl NullPointer)"
proof -
  have "kv_step L C x (new_KV p) = Inr (is_init x, new_KV p)" for x
    by (cases x) (simp_all add: KV_Init_def KV_Get_def KV_Put_def new_KV_def is_init_def)
  then have "kv_run L C xs (new_KV p) = Inr (map is_init xs, new_KV p)"
    by (induction xs) simp_all
  then show ?thesis
    by (auto simp: KVSM_Execute_def Statemachine_New_def deref_def)
qed

text \<open>A store whose database is open, as \<open>Init\<close> is meant to leave it.\<close>

definition kv_open :: "'db KV \<Rightarrow> 'db \<Rightarrow> bool" where
  "kv_open kv db \<longleftrightarrow> kv_dbpath kv \<noteq> [] \<and> kv_leveldb kv = Some db"

lemma KV_Put_open:
  assumes o: "kv_open kv db" and g: "KV_Get L C key kv = Inr (Some cur)"
    and s: "kc_serialize C \<lparr> vpb_value = val, vpb_ver = ver + 1 \<rparr> = Some bs"
    and p: "lvl_Put L key bs db = (True, db')"
  shows "KV_Put L C key val ver kv = Inr (cur = ver, if cur = ver then kv\<lparr> kv_leveldb := Some db' \<rparr> else kv)"
  using assms by (auto simp: KV_Put_def kv_open_def)


definition sample_codec :: KvCodec where
  "sample_codec = \<lparr> kc_serialize = (\<lambda>pb. Some (word_bytes 8 (vpb_ver pb) @ vpb_value pb)),
     kc_parse = (\<lambda>s. Some \<lparr> vpb_value = drop 8 s, vpb_ver = word_of_bytes (take 8 s) \<rparr>),
     kc_parse_paxos = (\<lambda>s. \<lparr> kvpb_key = s, kvpb_value = s, kvpb_ver = 0, kvpb_method = KV_PUT \<rparr>) \<rparr>"

lemma kv_stays_closed_witness:
  "kv_run list_db sample_codec [OpInit ''db'', OpPut ''k'' ''v'' 0, OpGet ''k''] (new_KV None)
     = Inr ([True, False, False], new_KV None) \<and>
   KVSM_Execute list_db sample_codec 7 ''k'' Statemachine_New = Inl NullPointer"
proof -
  have "kvpb_method (kc_parse_paxos sample_codec ''k'') \<in> {KV_GET, KV_PUT}" by (simp add: sample_codec_def)
  moreover note kv_stays_closed [of list_db sample_codec "[OpInit ''db'', OpPut ''k'' ''v'' 0, OpGet ''k'']" None
      "''k''" 7]
  moreover have "map is_init [OpInit ''db'', OpPut ''k'' ''v'' 0, OpGet ''k''] = [True, False, False]"
    by (simp add: is_init_def)
  ultimately show ?thesis by metis
qed


end
