(* ===== verification/Replay_Termination.thy ===== *)
theory Replay_Termination
  imports Db_Storage
begin

section \<open>The replay loops end\<close>

text \<open>
  \<open>ReplaySegment\<close> and \<open>AlignIndexWithSegmentStore\<close> loop on what they find in the files, whatever
  that is: left-overs, damaged records, files of other programs. They end for every content and
  every schedule of faults of the file system as long as no file has 2^31 bytes or more: a
  position that is returned is that of the end of bytes that were read, so it grows up to the end
  of the file, and it fits the \<open>int\<close> it is returned in.
\<close>

definition small_files :: "FS \<Rightarrow> bool" where
  "small_files fs \<longleftrightarrow> (\<forall>p ino. map_of (fs_files fs) p = Some ino \<longrightarrow> length (fs_data fs ino) < 2 ^ 31)"

lemma small_files_quiet: "quiet fs fs' \<Longrightarrow> small_files fs' = small_files fs"
  by (simp add: small_files_def quiet_def)

lemma sys_read_some:
  assumes "sys_read fd n fs = (Some bs, fs')" and "fd_at fd fs = Some (ino, pos)"
  shows "length bs \<le> n \<and> length bs \<le> length (fs_data fs ino) - pos \<and> fd_at fd fs' = Some (ino, pos + length bs)"
  using assms by (auto simp: sys_read_def outcome_eq Let_def short_def split: sys_outcome.splits)

lemma sys_open_found:
  assumes "sys_open True path fs = (fd, fs')"
    and "map_of (fs_files fs) path \<noteq> None \<or> path \<in> set (fs_dirs fs)"
  shows "fd = - 1 \<and> quiet fs fs' \<or> (\<exists>ino. map_of (fs_files fs) path = Some ino \<and> quiet_but fd fs fs' \<and>
    fd_at fd fs = None \<and> fd_at fd fs' = Some (ino, 0) \<and> 0 \<le> fd)"
proof (cases "fd = - 1")
  case True
  let ?fs = "fs\<lparr> fs_faults := tl (fs_faults fs) \<rparr>"
  have "alloc_fd ino ?fs \<noteq> (- 1, fs')" for ino
    using alloc_fd(1) [of ino ?fs "- 1" fs'] by auto
  then have "fs' = ?fs"
    using assms True by (auto simp: sys_open_def outcome_eq split: sys_outcome.splits if_splits option.splits)
  then show ?thesis using True by simp
next
  case False
  then have "path \<notin> set (fs_dirs fs)"
    using assms(1) by (auto simp: sys_open_def outcome_eq split: sys_outcome.splits if_splits)
  then obtain ino where "map_of (fs_files fs) path = Some ino" using assms(2) by auto
  then show ?thesis using sys_open_existing [OF assms(1) False] by blast
qed

lemma SegmentExists_found:
  assumes "SegmentExists sid (s, fs) = (True, fs')"
  shows "map_of (fs_files fs) (ToSegmentPath sid s) \<noteq> None \<or> ToSegmentPath sid s \<in> set (fs_dirs fs)"
    and "quiet fs fs'"
proof -
  obtain r where r: "sys_access (ToSegmentPath sid s) fs = (r, fs')" "r \<noteq> - 1"
    using assms by (auto simp: SegmentExists_def split: prod.splits)
  show "quiet fs fs'" by (rule sys_access_quiet [OF r(1)])
  show "map_of (fs_files fs) (ToSegmentPath sid s) \<noteq> None \<or> ToSegmentPath sid s \<in> set (fs_dirs fs)"
    using r by (auto simp: sys_access_def outcome_eq split: sys_outcome.splits if_splits)
qed

lemma nat_sint:
  assumes "0 \<le> sint (w :: u64)"
  shows "nat (sint w) = unat w"
proof -
  have l: "uint w < 2 ^ 64" using unsigned_less [of w] by simp
  then have "take_bit 64 (uint w) = uint w" by (simp add: take_bit_int_eq_self)
  then have "sint w = uint w - 2 ^ 64 * of_bool (bit (uint w) 63)"
    by (simp add: sint_uint signed_take_bit_eq_take_bit_minus)
  moreover note l
  ultimately have "sint w = uint w" using assms by (cases "bit (uint w) 63") auto
  then show ?thesis by simp
qed

text \<open>What one step leaves, and where a record that is found ends.\<close>

lemma ReplayLog_found:
  assumes R: "ReplayLog crc sid off (s, fs) = Inr (r, kv, fs')" and small: "small_files fs"
  shows "quiet fs fs' \<and> (0 < r \<longrightarrow> kv \<noteq> None \<and> (\<exists>ino. map_of (fs_files fs) (ToSegmentPath sid s) = Some ino \<and>
    int (unat off) < r \<and> r \<le> int (length (fs_data fs ino))))"
proof -
  obtain ex fs1 where e: "SegmentExists sid (s, fs) = (ex, fs1)" by force
  have q1: "quiet fs fs1" using e by (auto simp: SegmentExists_def split: prod.splits dest: sys_access_quiet)
  obtain st fd fs2 where o: "OpenSegment sid True (s, fs1) = (st, fd, fs2)" by (cases "OpenSegment sid True (s, fs1)")
  show ?thesis
  proof (cases "ex \<and> 0 \<le> fd")
    case False
    then have r: "r = - 1" "fs' = (if ex then fs2 else fs1)"
      using R e o by (cases ex; simp add: ReplayLog_def Let_def)+
    have "ex \<Longrightarrow> quiet fs1 fs2"
    proof -
      assume ex
      then have "sys_open True (ToSegmentPath sid s) fs1 = (fd, fs2)" and "\<not> 0 \<le> fd"
        using o False by (auto simp: OpenSegment_def split: prod.splits)
      moreover have "map_of (fs_files fs1) (ToSegmentPath sid s) \<noteq> None \<or> ToSegmentPath sid s \<in> set (fs_dirs fs1)"
        using SegmentExists_found(1) [of sid s fs fs1] e \<open>ex\<close> q1 by (simp add: quiet_def)
      ultimately show "quiet fs1 fs2" using sys_open_found by blast
    qed
    then show ?thesis using r q1 by (auto intro: quiet_trans)
  next
    case True
    then have ex: ex and fd: "0 \<le> fd" by simp_all
    then obtain ino where ino: "map_of (fs_files fs) (ToSegmentPath sid s) = Some ino"
      and b2: "quiet_but fd fs1 fs2" "fd_at fd fs1 = None" "fd_at fd fs2 = Some (ino, 0)"
      using sys_open_found [of "ToSegmentPath sid s" fs1 fd fs2] SegmentExists_found(1) [of sid s fs fs1] e o q1
      by (auto simp: OpenSegment_def quiet_def split: prod.splits)
    have close: "quiet fs (sys_close fd fs'')" if "quiet_but fd fs1 fs''" for fs''
      by (rule quiet_trans [OF q1 quiet_close [OF that b2(2)]])
    obtain pos fs3 where l: "sys_lseek_set fd (sint off) fs2 = (pos, fs3)" by force
    note q3 = quiet_but_quiet [OF b2(1) sys_lseek_set_quiet [OF l]]
    obtain bs fs4 where rd: "sys_read fd 8 fs3 = (bs, fs4)" by force
    note q4 = quiet_but_quiet [OF q3 sys_read_quiet [OF rd]]
    define w :: u64 where "w = (case bs of Some b \<Rightarrow> word_of_bytes b | None \<Rightarrow> 0)"
    obtain buf fs5 where rb: "sys_read fd (unat w) fs4 = (buf, fs5)" by force
    note q5 = quiet_but_quiet [OF q4 sys_read_quiet [OF rb]]
    show ?thesis
    proof (cases "0 < r")
      case False
      then have "\<exists>fs''. quiet_but fd fs1 fs'' \<and> fs' = sys_close fd fs''"
        using R e ex o fd l rd rb q3 q4 q5
        by (auto simp: ReplayLog_def Let_def w_def split: if_splits option.splits)
      then show ?thesis using close False by blast
    next
      case pos: True
      have z: "pos \<noteq> - 1" "w \<noteq> 0" and bs: "bs \<noteq> None" "\<not> length (the bs) < 8"
        and buf: "map_option length buf = Some (unat w)"
        and r: "r = to_int (off + 8 + w)" "kv \<noteq> None" "fs' = sys_close fd fs5"
        using R e ex o fd l rd rb pos by (auto simp: ReplayLog_def Let_def w_def split: if_splits option.splits)
      have p: "0 \<le> sint off" "fd_at fd fs3 = Some (ino, nat (sint off))"
        using l b2(3) z(1) by (auto simp: sys_lseek_set_def outcome_eq split: sys_outcome.splits if_splits)
      have so: "nat (sint off) = unat off" using p(1) by (rule nat_sint)
      obtain b where b: "bs = Some b" using bs(1) by blast
      from sys_read_some [OF rd [unfolded b] p(2)] bs(2) b
      have f4: "fd_at fd fs4 = Some (ino, unat off + 8)" and lb: "unat off + 8 \<le> length (fs_data fs3 ino)"
        by (auto simp: so)
      obtain c where c: "buf = Some c" "length c = unat w" using buf by auto
      have d: "fs_data fs3 = fs_data fs" "fs_data fs4 = fs_data fs"
        using q3 q4 q1 by (simp_all add: quiet_but_def quiet_def)
      have "unat off + 8 + length c \<le> length (fs_data fs ino)"
        using conjunct1 [OF conjunct2 [OF sys_read_some [OF rb [unfolded c(1)] f4]]] lb unfolding d by linarith
      then have le: "unat off + 8 + unat w \<le> length (fs_data fs ino)" unfolding c(2) .
      moreover have "length (fs_data fs ino) < 2 ^ 31" using small ino unfolding small_files_def by blast
      ultimately have lt: "unat off + 8 + unat w < 2 ^ 31" by linarith
      have "unat (off + 8 + w) = unat off + 8 + unat w"
        using lt by (simp add: unat_word_ariths)
      then have "r = int (unat off + 8 + unat w)" using to_int_small [of "off + 8 + w"] lt r(1) by (simp only:)
      moreover have "int (unat off) < int (unat off + 8 + unat w)"
        and "int (unat off + 8 + unat w) \<le> int (length (fs_data fs ino))"
        using le unfolding of_nat_less_iff of_nat_le_iff by simp_all
      ultimately show ?thesis using ino close [OF q5] r(2,3) by blast
    qed
  qed
qed

subsection \<open>The loops\<close>

text \<open>The bytes of a segment from a position on.\<close>

definition bytes_left :: "SEGMENT_ID \<Rightarrow> u64 \<Rightarrow> SegmentStore \<times> FS \<Rightarrow> nat" where
  "bytes_left sid off sf = (case map_of (fs_files (snd sf)) (ToSegmentPath sid (fst sf)) of
     None \<Rightarrow> 0 | Some ino \<Rightarrow> length (fs_data (snd sf) ino) - unat off)"

lemma bytes_left_quiet: "quiet fs fs' \<Longrightarrow> bytes_left sid off (s, fs') = bytes_left sid off (s, fs)"
  by (simp add: bytes_left_def quiet_def split: option.split)

lemma ReplayLog_less:
  assumes "ReplayLog crc sid off (s, fs) = Inr (r, kv, fs')" and "small_files fs" and "0 < r"
  shows "bytes_left sid (word_of_int r) (s, fs') < bytes_left sid off (s, fs)" and "small_files fs'"
    and "kv \<noteq> None"
proof -
  from ReplayLog_found [OF assms(1,2)] assms(3) obtain ino where q: "quiet fs fs'" "kv \<noteq> None"
    and i: "map_of (fs_files fs) (ToSegmentPath sid s) = Some ino" "int (unat off) < r" "r \<le> int (length (fs_data fs ino))"
    by auto
  have l: "length (fs_data fs ino) < 2 ^ 31" using assms(2) i(1) unfolding small_files_def by blast
  obtain n where n: "r = int n" using assms(3) by (metis less_imp_le zero_le_imp_eq_int)
  have "n < 2 ^ 64" using i(3) l n by simp
  then have "unat (word_of_int r :: u64) = n" unfolding n by (simp add: unat_of_nat_u64)
  moreover have "unat off < n" "n \<le> length (fs_data fs ino)"
    using i(2,3) unfolding n of_nat_less_iff of_nat_le_iff by simp_all
  ultimately have "bytes_left sid (word_of_int r) (s, fs) < bytes_left sid off (s, fs)"
    using i(1) by (simp add: bytes_left_def del: of_int_of_nat_eq)
  then show "bytes_left sid (word_of_int r) (s, fs') < bytes_left sid off (s, fs)"
    by (simp only: bytes_left_quiet [OF q(1)])
  show "small_files fs'" using assms(2) by (simp only: small_files_quiet [OF q(1)])
  show "kv \<noteq> None" by (rule q(2))
qed

lemma replay_loop_ends:
  assumes "small_files fs"
  shows "\<exists>x. replay_loop crc sid off (s, fs) = Some x \<and>
    (\<forall>b r fs'. x = Inr (b, r, fs') \<longrightarrow> small_files fs')"
  using assms
proof (induction "bytes_left sid off (s, fs)" arbitrary: off fs rule: less_induct)
  case less
  show ?case
  proof (cases "ReplayLog crc sid off (s, fs)")
    case (Inl e)
    then show ?thesis by (subst replay_loop.simps) simp
  next
    case (Inr x)
    then obtain r kv fs' where R: "ReplayLog crc sid off (s, fs) = Inr (r, kv, fs')" by (cases x) auto
    show ?thesis
    proof (cases "0 < r")
      case True
      then show ?thesis using less.hyps [OF ReplayLog_less(1,2) [OF R less.prems True]]
        by (subst replay_loop.simps) (simp add: R)
    next
      case False
      have "small_files fs'" using ReplayLog_found [OF R less.prems] less.prems small_files_quiet by blast
      then show ?thesis using False by (subst replay_loop.simps) (simp add: R)
    qed
  qed
qed

lemma align_loop_ends:
  assumes "small_files fs"
  shows "align_loop L crc sid off sg ix fs \<noteq> None"
  using assms
proof (induction "(nat (2 ^ 31 - 1 - sint sid), bytes_left sid off (sg, fs))" arbitrary: sid off ix fs
    rule: wf_induct_rule [OF wf_lex_prod [OF wf_less_than wf_less_than]])
  case 1
  show ?case
  proof (cases "ReplayLog crc sid off (sg, fs)")
    case (Inl e)
    then show ?thesis by (subst align_loop.simps) simp
  next
    case (Inr x)
    then obtain r kv fs' where R: "ReplayLog crc sid off (sg, fs) = Inr (r, kv, fs')" by (cases x) auto
    have q: "small_files fs'"
      using ReplayLog_found [OF R 1(2)] 1(2) small_files_quiet by blast
    have next_seg: "align_loop L crc (sid + 1) 0 sg ix fs' \<noteq> None" if "sint sid \<noteq> 2 ^ 31 - 1"
    proof -
      have "sint (sid + 1) = sint sid + 1" by (rule sint_plus_one [OF that])
      moreover have "sint sid < 2 ^ 31 - 1" using sint_lt [of sid] that by simp
      ultimately show ?thesis using 1(1) [OF _ q, of "sid + 1" 0 ix] by simp
    qed
    have next_rec: "align_loop L crc sid (word_of_int r) sg ix' fs' \<noteq> None" if "0 < r" for ix'
      using 1(1) [OF _ q, of sid "word_of_int r" ix'] ReplayLog_less(1) [OF R 1(2) that] by simp
    show ?thesis
    proof (cases "0 < r")
      case True
      obtain k v where kv: "kv = Some (k, v)" using ReplayLog_less(3) [OF R 1(2) True] by (cases kv) auto
      show ?thesis using True next_rec [OF True]
        by (subst align_loop.simps) (auto simp: R kv split: sum.split)
    next
      case False
      then show ?thesis using next_seg by (subst align_loop.simps) (auto simp: R)
    qed
  qed
qed

subsection \<open>Starting\<close>

lemma small_files_steps:
  "sys_lseek_set fd off fs = (r, fs') \<Longrightarrow> small_files fs \<Longrightarrow> small_files fs'"
  "sys_lseek_end fd fs = (r, fs') \<Longrightarrow> small_files fs \<Longrightarrow> small_files fs'"
  "sys_read fd m fs = (bs, fs') \<Longrightarrow> small_files fs \<Longrightarrow> small_files fs'"
  by (blast dest: sys_lseek_set_quiet sys_lseek_end_quiet sys_read_quiet small_files_quiet)+

lemma small_files_open:
  assumes "sys_open creat path fs = (fd, fs')" "small_files fs"
  shows "small_files fs'"
proof -
  have a: "small_files fs2" if "alloc_fd ino fs1 = (fd, fs2)" "small_files fs1" for ino fs1 fs2
    using alloc_fd(4) [OF that(1)] that(2) by (auto simp: small_files_def)
  then show ?thesis using assms
    by (auto simp: sys_open_def outcome_eq small_files_def split: sys_outcome.splits if_splits option.splits)
qed

lemma small_files_create:
  assumes "CreateIfNotExists path fs = (ok, fs')" "small_files fs"
  shows "small_files fs'"
  using assms
  by (auto simp: CreateIfNotExists_def sys_stat_def sys_mkdir_def outcome_eq small_files_def
      split: sys_outcome.splits if_splits)

lemma small_files_segment:
  assumes "OpenSegment sid creat sf = (st, fd, fs')" "small_files (snd sf)"
  shows "small_files fs'"
  using assms small_files_open by (auto simp: OpenSegment_def split: prod.splits)

lemma small_files_write:
  assumes "sys_write fd bs fs = (m, fs')" "small_files fs"
    and "\<forall>ino pos. fd_at fd fs = Some (ino, pos) \<longrightarrow> pos + length bs < 2 ^ 31"
  shows "small_files fs'"
proof (cases "fd_at fd fs")
  case None
  then show ?thesis using assms(1,2) by (auto simp: sys_write_def outcome_eq small_files_def split: sys_outcome.splits)
next
  case (Some x)
  obtain ino pos where x: "fd_at fd fs = Some (ino, pos)" using Some by (cases x) auto
  from sys_write_cases [OF assms(1) x] obtain ws where f: "fs_files fs' = fs_files fs"
    and d: "fs_data fs' = fs_data fs \<or> fs_data fs' = (fs_data fs)(ino := write_at pos ws (fs_data fs ino)) \<and> ws = take (length ws) bs"
    by auto
  have "pos + length ws < 2 ^ 31" if "ws = take (length ws) bs"
  proof -
    have "length ws \<le> length bs" using arg_cong [OF that, of length] by simp
    then show ?thesis using assms(3) x by fastforce
  qed
  then show ?thesis using assms(2) d f by (auto simp: small_files_def length_write_at)
qed

text \<open>Padding writes a byte at the end of the maximal size, or at the position of a new descriptor.\<close>

lemma small_files_padding:
  assumes "PaddingIfNewSegment (s, fs) = (r, s', fs')" "small_files fs" "unat (sg_max_size s) < 2 ^ 31"
  shows "small_files fs'"
proof -
  let ?fd = "sg_cur_fd s"
  obtain e fs1 where e: "sys_lseek_end ?fd fs = (e, fs1)" by force
  obtain p fs2 where p: "sys_lseek_set ?fd (sint (sg_max_size s - 1)) fs1 = (p, fs2)" by force
  obtain w fs3 where w: "sys_write ?fd [NUL] fs2 = (w, fs3)" by force
  obtain o1 fs4 where o1: "sys_lseek_set ?fd 0 fs3 = (o1, fs4)" by force
  have b1: "small_files fs1" by (rule small_files_steps(2) [OF e assms(2)])
  have b2: "small_files fs2" by (rule small_files_steps(1) [OF p b1])
  have "small_files fs3" if e0: "e = 0"
  proof (rule small_files_write [OF w b2], intro allI impI)
    fix ino pos
    assume f2: "fd_at ?fd fs2 = Some (ino, pos)"
    obtain ino1 where f1: "fd_at ?fd fs1 = Some (ino1, 0)"
      using e e0 by (auto simp: sys_lseek_end_def outcome_eq split: sys_outcome.splits option.splits)
    let ?m = "sg_max_size s - 1"
    have "pos = 0 \<or> 0 \<le> sint ?m \<and> pos = nat (sint ?m)"
      using p f1 f2 by (auto simp: sys_lseek_set_def outcome_eq split: sys_outcome.splits if_splits)
    moreover have "unat ?m + 1 < 2 ^ 31" if "0 \<le> sint ?m"
    proof -
      have "sg_max_size s \<noteq> 0" using that by auto
      then have "unat ?m = unat (sg_max_size s) - 1" by (intro unat_minus_one_nonzero) (simp add: unat_gt_0)
      then show ?thesis using assms(3) by simp
    qed
    ultimately show "pos + length [NUL] < 2 ^ 31" using nat_sint [of ?m] by auto
  qed
  moreover have "0 < e" if "e \<noteq> - 1" "e \<noteq> 0"
    using e that by (auto simp: sys_lseek_end_def outcome_eq split: sys_outcome.splits option.splits)
  moreover have "small_files fs4" if "small_files fs3" by (rule small_files_steps(1) [OF o1 that])
  ultimately show ?thesis using assms(1,2) b1 b2
    by (auto simp: PaddingIfNewSegment_def Let_def e p w o1 split: if_splits)
qed

text \<open>Every branch of \<open>Init\<close>, as a property of the results it can have.\<close>

definition start_ends :: "(bool \<times> bool \<times> SegmentStore \<times> FS) res option \<Rightarrow> bool" where
  "start_ends x \<longleftrightarrow> x \<noteq> None \<and> (\<forall>b t s fs. x = Some (Inr (b, t, s, fs)) \<longrightarrow> small_files fs)"

lemma start_ends_rules:
  "start_ends (Some (Inl err))"
  "small_files fs \<Longrightarrow> start_ends (Some (Inr (b, t, s, fs)))"
  "(c \<Longrightarrow> start_ends x) \<Longrightarrow> (\<not> c \<Longrightarrow> start_ends y) \<Longrightarrow> start_ends (if c then x else y)"
  by (simp_all add: start_ends_def)

lemma start_ends_calls:
  "small_files fs \<Longrightarrow> (\<And>ok fs'. small_files fs' \<Longrightarrow> start_ends (f1 ok fs')) \<Longrightarrow>
     start_ends (case CreateIfNotExists path fs of (ok, fs') \<Rightarrow> f1 ok fs')"
  "small_files fs \<Longrightarrow> (\<And>fd fs'. small_files fs' \<Longrightarrow> start_ends (f2 fd fs')) \<Longrightarrow>
     start_ends (case sys_open c path fs of (fd, fs') \<Rightarrow> f2 fd fs')"
  "small_files fs \<Longrightarrow> (\<And>p fs'. small_files fs' \<Longrightarrow> start_ends (f2 p fs')) \<Longrightarrow>
     start_ends (case sys_lseek_set fd off fs of (p, fs') \<Rightarrow> f2 p fs')"
  "small_files fs \<Longrightarrow> (\<And>bs fs'. small_files fs' \<Longrightarrow> start_ends (f3 bs fs')) \<Longrightarrow>
     start_ends (case sys_read fd m fs of (bs, fs') \<Rightarrow> f3 bs fs')"
  "small_files fs \<Longrightarrow> (\<And>st fd fs'. small_files fs' \<Longrightarrow> start_ends (f4 st fd fs')) \<Longrightarrow>
     start_ends (case OpenSegment sid c (s, fs) of (st, fd, fs') \<Rightarrow> f4 st fd fs')"
  "small_files fs \<Longrightarrow> unat (sg_max_size s) < 2 ^ 31 \<Longrightarrow> (\<And>r s' fs'. small_files fs' \<Longrightarrow> start_ends (f5 r s' fs')) \<Longrightarrow>
     start_ends (case PaddingIfNewSegment (s, fs) of (r, s', fs') \<Rightarrow> f5 r s' fs')"
  using small_files_create small_files_open small_files_steps small_files_segment small_files_padding
  by (fastforce split: prod.split)+

lemma start_ends_replay:
  assumes "small_files fs"
    and "\<And>b r fs'. small_files fs' \<Longrightarrow> start_ends (f b r fs')"
  shows "start_ends (case ReplaySegment crc sid off (s, fs) of None \<Rightarrow> None | Some (Inl err) \<Rightarrow> Some (Inl err)
    | Some (Inr (b, r, fs')) \<Rightarrow> f b r fs')"
  using replay_loop_ends [OF assms(1), of crc sid off s] assms(2)
  by (auto simp: ReplaySegment_def start_ends_rules split: sum.split)

lemma Segment_Init_ends:
  assumes "small_files fs" and "unat (lo_segmentMaxSize options) < 2 ^ 31"
  shows "start_ends (Segment_Init crc options (s, fs))"
  using assms unfolding Segment_Init_def Let_def prod.case
  by (intro start_ends_rules start_ends_calls start_ends_replay) simp_all



end
