(* ===== verification/Disk_Refinement.thy ===== *)
theory Disk_Refinement
  imports Replay_Termination
begin

section \<open>The storage on disk is a map\<close>

text \<open>
  Removing a record leaves the segments as they are (the clean-up thread deletes files later), so
  the storage on disk also keeps the contract of \<open>Delete\<close>: the locale \<open>deletable_storage\<close>
  extends \<open>log_storage\<close> by it and proves that any run of puts, gets and deletes answers as a map
  does. It is interpreted by the storage on disk and by the one in memory, which refuses to
  delete.
\<close>

datatype store_op = DoPut LogEntryKey LogEntryValue | DoGet LogEntryKey | DoDelete LogEntryKey

datatype store_answer = Done | Refused | Found LogEntryValue | NotFound

primrec op_key :: "store_op \<Rightarrow> LogEntryKey" where
  "op_key (DoPut k v) = k"
| "op_key (DoGet k) = k"
| "op_key (DoDelete k) = k"

text \<open>One operation of a \<open>LogStorage\<close>, and the map that it stands for.\<close>

definition store_step :: "'st LogStorage \<Rightarrow> store_op \<Rightarrow> 'st \<Rightarrow> store_answer \<times> 'st" where
  "store_step S x st =
     (case x of
        DoPut k v \<Rightarrow> (case ls_Put S k v st of (b, st) \<Rightarrow> (if b then Done else Refused, st))
      | DoGet k \<Rightarrow> (case ls_Get S k st of (r, st) \<Rightarrow> (case r of None \<Rightarrow> NotFound | Some v \<Rightarrow> Found v, st))
      | DoDelete k \<Rightarrow> (case ls_Delete S k st of (b, st) \<Rightarrow> (if b then Done else Refused, st)))"

fun store_run :: "'st LogStorage \<Rightarrow> store_op list \<Rightarrow> 'st \<Rightarrow> store_answer list \<times> 'st" where
  "store_run S [] st = ([], st)"
| "store_run S (x # xs) st =
     (let (a, st) = store_step S x st; (as, st) = store_run S xs st in (a # as, st))"

text \<open>What a map answers; an operation that changes it may be refused.\<close>

definition map_step :: "store_op \<Rightarrow> store_answer \<Rightarrow> (LogEntryKey \<rightharpoonup> LogEntryValue) \<Rightarrow> (LogEntryKey \<rightharpoonup> LogEntryValue) option" where
  "map_step x a m =
     (case x of
        DoPut k v \<Rightarrow> if a = Done then Some (m(k \<mapsto> v)) else if a = Refused then Some m else None
      | DoGet k \<Rightarrow> if a = (case m k of None \<Rightarrow> NotFound | Some v \<Rightarrow> Found v) then Some m else None
      | DoDelete k \<Rightarrow> if a = Done then Some (m(k := None)) else if a = Refused then Some m else None)"

fun map_run :: "store_op list \<Rightarrow> store_answer list \<Rightarrow> (LogEntryKey \<rightharpoonup> LogEntryValue) \<Rightarrow> (LogEntryKey \<rightharpoonup> LogEntryValue) option" where
  "map_run [] [] m = Some m"
| "map_run (x # xs) (a # as) m = Option.bind (map_step x a m) (map_run xs as)"
| "map_run _ _ m = None"

locale deletable_storage = log_storage put get valid_key good view
  for put :: "LogEntryKey \<Rightarrow> LogEntryValue \<Rightarrow> 'st \<Rightarrow> bool \<times> 'st"
    and get :: "LogEntryKey \<Rightarrow> 'st \<Rightarrow> LogEntryValue option \<times> 'st"
    and valid_key :: "LogEntryKey \<Rightarrow> bool"
    and good :: "'st \<Rightarrow> bool"
    and view :: "'st \<Rightarrow> LogEntryKey \<rightharpoonup> LogEntryValue" +
  fixes S :: "'st LogStorage"
  assumes ops: "ls_Put S = put" "ls_Get S = get"
    and delete_done: "good s \<Longrightarrow> valid_key k \<Longrightarrow> ls_Delete S k s = (b, s') \<Longrightarrow>
      good s' \<and> view s' = (if b then (view s)(k := None) else view s)"
begin

lemma step_refines:
  assumes "good s" "valid_key (op_key x)" "store_step S x s = (a, s')"
  shows "good s' \<and> map_step x a (view s) = Some (view s')"
proof (cases x)
  case (DoPut k v)
  obtain b s1 where p: "put k v s = (b, s1)" by force
  then show ?thesis using assms DoPut put_done [of s k v s1] put_refused [of s k v s1]
    by (cases b) (auto simp: store_step_def map_step_def ops)
next
  case (DoGet k)
  obtain r s1 where g: "get k s = (r, s1)" by force
  then show ?thesis using assms DoGet get_view [of s k r s1]
    by (auto simp: store_step_def map_step_def ops)
next
  case (DoDelete k)
  obtain b s1 where p: "ls_Delete S k s = (b, s1)" by force
  then show ?thesis using assms DoDelete delete_done [of s k b s1]
    by (cases b) (auto simp: store_step_def map_step_def)
qed

lemma run_refines:
  "good s \<Longrightarrow> list_all (\<lambda>x. valid_key (op_key x)) xs \<Longrightarrow> store_run S xs s = (as, s') \<Longrightarrow>
     good s' \<and> map_run xs as (view s) = Some (view s')"
proof (induction xs arbitrary: s as)
  case Nil
  then show ?case by simp
next
  case (Cons x xs)
  obtain a s1 where s: "store_step S x s = (a, s1)" by force
  obtain as1 where r: "store_run S xs s1 = (as1, s')" "as = a # as1"
    using Cons.prems(3) s by (auto simp: Let_def split: prod.splits)
  from step_refines [OF Cons.prems(1) _ s] Cons.prems(2)
  have "good s1" "map_step x a (view s) = Some (view s1)" by simp_all
  with Cons.IH [OF _ _ r(1)] Cons.prems(2) r(2) show ?case by simp
qed

end

interpretation mem_del: deletable_storage DirectMemory_Put DirectMemory_Get "\<lambda>k. True" "\<lambda>db. True" "\<lambda>db. db" DirectMemory
  by unfold_locales (auto simp: DirectMemory_def)

subsection \<open>Removing\<close>

lemma scheduler_same:
  "ToSegmentPath sid (s\<lparr> sg_scheduler := x \<rparr>) = ToSegmentPath sid s"
  "seg_inv (s\<lparr> sg_scheduler := x \<rparr>, fs) = seg_inv (s, fs)"
  "stored crc (s\<lparr> sg_scheduler := x \<rparr>, fs) = stored crc (s, fs)"
  by (simp_all add: ToSegmentPath_def seg_inv_def stored_def fun_eq_iff)

lemma scheduler_keeps:
  "keeps crc a (s, fs) \<Longrightarrow> keeps crc a (s\<lparr> sg_scheduler := x \<rparr>, fs)"
  by (simp add: keeps_def scheduler_same)

lemma RemoveAsync_keeps:
  assumes i: "seg_inv (s, fs)" and st: "stored crc (s, fs) idx k v"
    and r: "RemoveAsync idx now (s, fs) = Inr (b, s', fs')"
  shows "keeps crc (s, fs) (s', fs')"
proof -
  obtain sid off ino where idx: "idx = ToSegmentIndex sid off (ucast (crc (k @ v)))"
    and ino: "map_of (fs_files fs) (ToSegmentPath sid s) = Some ino"
    using st by (auto simp: stored_def)
  obtain ok fd fs1 where o: "OpenSegment sid True (s, fs) = (ok, fd, fs1)" by (cases "OpenSegment sid True (s, fs)")
  then have o': "sys_open True (ToSegmentPath sid s) fs = (fd, fs1)" "ok \<longleftrightarrow> fd \<noteq> - 1"
    by (auto simp: OpenSegment_def split: prod.splits)
  obtain p fs2 where l: "sys_lseek_set fd (sint off) fs1 = (p, fs2)" by force
  obtain bs fs3 where rd: "sys_read fd 8 fs2 = (bs, fs3)" by force
  obtain e fs4 where e: "sys_lseek_end fd fs3 = (e, fs4)" by force
  have "quiet fs fs' \<and> (s' = s \<or> (\<exists>x. s' = s\<lparr> sg_scheduler := x \<rparr>))"
  proof (cases "fd = - 1")
    case True
    then have "quiet fs fs1" using sys_open_found [OF o'(1)] ino by auto
    then show ?thesis using r idx o o'(2) True by (simp add: RemoveAsync_def)
  next
    case False
    then have q1: "quiet_but fd fs fs1" and n: "fd_at fd fs = None" using sys_open_found [OF o'(1)] ino by auto
    note q2 = quiet_but_quiet [OF q1 sys_lseek_set_quiet [OF l]]
    note q3 = quiet_but_quiet [OF q2 sys_read_quiet [OF rd]]
    note q4 = quiet_but_quiet [OF q3 sys_lseek_end_quiet [OF e]]
    from quiet_close [OF q2 n] quiet_close [OF q3 n] quiet_close [OF q4 n] show ?thesis
      using r idx o o'(2) False l rd e by (auto simp: RemoveAsync_def Let_def split: if_splits)
  qed
  then show ?thesis using quiet_keeps [OF i, of fs' crc] scheduler_keeps by blast
qed

lemma disk_delete_done:
  assumes g: "disk_good L crc n st" and d: "disk_delete L now k st = (b, st')"
  shows "disk_good L crc n st' \<and> disk_view L crc st' = (if b then (disk_view L crc st)(k := None) else disk_view L crc st)"
proof -
  obtain ix db sg fs where st: "st = (Some ix, Some sg, fs)" and db: "ix_leveldb ix = Some db"
    and i: "seg_inv (sg, fs)" "fs_faults fs = []" "leveldb_ok L"
    and all: "\<And>k idx. lvl_Get L db k = Some idx \<Longrightarrow> \<exists>k' v. stored crc (sg, fs) idx k' v"
    using g by (auto simp: disk_good_def)
  show ?thesis
  proof (cases "\<exists>r. Db_Delete L k now st = Inr r \<and> lvl_Get L db k \<noteq> None")
    case False
    then have "b = False \<and> st' = st"
      using d db by (auto simp: disk_delete_def Db_Delete_def st GetIndex_def ToIndexKey_def split: sum.splits)
    with g show ?thesis by simp
  next
    case True
    then obtain idx where idx: "lvl_Get L db k = Some idx" by blast
    then obtain k' v where s: "stored crc (sg, fs) idx k' v" using all by blast
    have r: "Db_Delete L k now st = Inr (b, st')" using d True by (auto simp: disk_delete_def)
    then obtain ok sg' fs' where ra: "RemoveAsync idx now (sg, fs) = Inr (ok, sg', fs')"
      using db idx by (auto simp: Db_Delete_def st GetIndex_def ToIndexKey_def bind_res_eq_Inr)
    note k = RemoveAsync_keeps [OF i(1) s ra]
    obtain dok db' where del: "lvl_Delete L k db = (dok, db')" by force
    have get: "lvl_Get L db' = (if dok then (lvl_Get L db)(k := None) else lvl_Get L db)"
      using i(3) del unfolding leveldb_ok_def by blast
    have eq: "st' = (if ok then (Some (ix\<lparr> ix_leveldb := Some db' \<rparr>), Some sg', fs') else (Some ix, Some sg', fs'))"
      "b = (ok \<and> dok)"
      using r db idx ra del by (auto simp: Db_Delete_def st GetIndex_def DelIndex_def ToIndexKey_def split: if_splits)
    note same = disk_same [OF g [unfolded st] db k]
    show ?thesis
    proof (cases b)
      case False
      then have "st' = (Some ix, Some sg', fs') \<or> (st' = (Some (ix\<lparr> ix_leveldb := Some db' \<rparr>), Some sg', fs') \<and> \<not> dok)"
        using eq by (auto split: if_splits)
      then show ?thesis using False same [OF db refl] same [of "ix\<lparr> ix_leveldb := Some db' \<rparr>" db'] get st by auto
    next
      case True
      then have st': "st' = (Some (ix\<lparr> ix_leveldb := Some db' \<rparr>), Some sg', fs')" and g': "lvl_Get L db' = (lvl_Get L db)(k := None)"
        using eq get by simp_all
      have i': "seg_inv (sg', fs')" "fs_faults fs' = []" "sg_key_len sg' = sg_key_len sg"
        and mono: "\<And>idx k v. stored crc (sg, fs) idx k v \<Longrightarrow> stored crc (sg', fs') idx k v"
        using k i by (auto simp: keeps_def)
      have "\<exists>k' w. stored crc (sg', fs') j k' w" if "lvl_Get L db' key = Some j" for key j
        using that g' all mono by (cases "key = k") fastforce+
      then have good: "disk_good L crc n st'" using i' i(3) g by (auto simp: disk_good_def st' st)
      have "disk_view L crc st' key = ((disk_view L crc st)(k := None)) key" for key
      proof (cases "key = k \<or> lvl_Get L db key = None")
        case True
        then show ?thesis using g' db by (auto simp: disk_view_def st st')
      next
        case False
        then obtain j where j: "lvl_Get L db key = Some j" "key \<noteq> k" by blast
        then obtain k' w where w: "stored crc (sg, fs) j k' w" using all by blast
        from disk_view_index [OF i(1,2) db j(1) w] disk_view_index [OF i'(1,2) _ _ mono [OF w], of "ix\<lparr> ix_leveldb := Some db' \<rparr>" db' L key]
        show ?thesis using j g' by (simp add: st st')
      qed
      with good True show ?thesis by (simp add: fun_eq_iff)
    qed
  qed
qed

interpretation disk_del: deletable_storage "disk_put L crc" "disk_get L crc" "disk_key n" "disk_good L crc n"
  "disk_view L crc" "DiskStorage L crc now" for L crc n now
  by unfold_locales (simp_all add: DiskStorage_def disk_delete_done)



end
