(* ===== verification/Peer_Network.thy ===== *)
theory Peer_Network
  imports Pax_Messages Pax_Config
begin

section \<open>The network facade (network.hpp, network.cpp, Communicator.cpp, communicate_pax.cpp)\<close>

text \<open>
  Addresses of peers and their node ids, the hash of a peer, sets of peers, and the table of
  clients and servers that the communicator uses. Clients and servers are interfaces of the
  transports: a client is known by the peer it was made for, and what the facade calls on
  clients and servers is recorded in a trace. Hash tables are lists of entries; the order in
  which a table is walked is that of its list.

  \<open>PeerHash\<close> computes in \<open>double\<close>: every value there is an integer, and \<open>roundi\<close> is the rounding
  to 53 bits, half to even, of conversions, products and sums; \<open>pow\<close> is taken to be correctly
  rounded. \<open>inet_addr\<close> and \<open>inet_ntoa\<close> are those of glibc on a little-endian machine.
\<close>

record Peer =
  pr_ip :: string
  pr_port :: u32

definition Peer_ToString :: "Peer \<Rightarrow> string" where
  "Peer_ToString p = pr_ip p @ '':'' @ nat_digits (unat (pr_port p))"

subsection \<open>The hash of a peer\<close>

fun bits :: "nat \<Rightarrow> nat" where
  "bits n = (if n = 0 then 0 else Suc (bits (n div 2)))"

declare bits.simps [simp del]

definition round53 :: "nat \<Rightarrow> nat" where
  "round53 n =
     (let e = bits n - 53; q = n div 2 ^ e; r = n mod 2 ^ e in
      if e = 0 then n
      else if 2 * r > 2 ^ e \<or> 2 * r = 2 ^ e \<and> odd q then (q + 1) * 2 ^ e
      else q * 2 ^ e)"

definition roundi :: "int \<Rightarrow> int" where
  "roundi x = sgn x * int (round53 (nat \<bar>x\<bar>))"

definition schar :: "char \<Rightarrow> int" where
  "schar c = (if of_char c < (128 :: nat) then of_char c else of_char c - 256)"

text \<open>Powers above the greatest double are infinite, and infinity times a character does not fit.\<close>

definition pow31 :: "nat \<Rightarrow> int" where
  "pow31 i = roundi (31 ^ i)"

fun hash_loop :: "nat \<Rightarrow> string \<Rightarrow> u64 \<Rightarrow> u64 res" where
  "hash_loop i [] hashCode = Inr hashCode"
| "hash_loop i (c # st) hashCode =
     (if 207 \<le> i then Inl ConversionOverflow
      else let d = roundi (roundi (int (unat hashCode)) + roundi (schar c * pow31 i)) in
      if d < 0 \<or> 2 ^ 64 \<le> d then Inl ConversionOverflow
      else hash_loop (Suc i) st (word_of_int d))"

definition PeerHash :: "Peer \<Rightarrow> u64 res" where
  "PeerHash peer = hash_loop 0 (Peer_ToString peer) 0"

subsection \<open>Sets of peers\<close>

text \<open>An element is looked for among those of the same hash.\<close>

type_synonym PeerSet = "Peer list"

definition PeerSet_Contains :: "Peer \<Rightarrow> PeerSet \<Rightarrow> bool res" where
  "PeerSet_Contains peer peers = bind_res (PeerHash peer) (\<lambda>_. Inr (peer \<in> set peers))"

definition PeerSet_Add :: "Peer \<Rightarrow> PeerSet \<Rightarrow> PeerSet res" where
  "PeerSet_Add peer peers =
     bind_res (PeerSet_Contains peer peers) (\<lambda>c. Inr (if c then peers else peer # peers))"

definition PeerSet_Remove :: "Peer \<Rightarrow> PeerSet \<Rightarrow> (bool \<times> PeerSet) res" where
  "PeerSet_Remove peer peers =
     bind_res (PeerSet_Contains peer peers) (\<lambda>c. Inr (c, removeAll peer peers))"

fun new_PeerSet :: "Peer list \<Rightarrow> PeerSet res" where
  "new_PeerSet [] = Inr []"
| "new_PeerSet (p # ps) = bind_res (new_PeerSet ps) (PeerSet_Add p)"

subsection \<open>Node ids and addresses\<close>

text \<open>The bytes of an \<open>in_addr\<close> in memory order, printed in decimal.\<close>

definition byte_at :: "nat \<Rightarrow> u32 \<Rightarrow> nat" where
  "byte_at i addr = unat addr div 256 ^ i mod 256"

definition inet_ntoa :: "u32 \<Rightarrow> string" where
  "inet_ntoa addr = nat_digits (byte_at 0 addr) @ ''.'' @ nat_digits (byte_at 1 addr) @ ''.'' @
     nat_digits (byte_at 2 addr) @ ''.'' @ nat_digits (byte_at 3 addr)"

fun split_dots :: "string \<Rightarrow> string list" where
  "split_dots [] = [[]]"
| "split_dots (c # cs) =
     (if c = CHR ''.'' then [] # split_dots cs
      else (case split_dots cs of [] \<Rightarrow> [[c]] | p # ps \<Rightarrow> (c # p) # ps))"

definition digit_of :: "char \<Rightarrow> nat option" where
  "digit_of c = (let n = of_char c :: nat in
     if 48 \<le> n \<and> n \<le> 57 then Some (n - 48)
     else if 97 \<le> n \<and> n \<le> 102 then Some (n - 87)
     else if 65 \<le> n \<and> n \<le> 70 then Some (n - 55) else None)"

fun number_in :: "nat \<Rightarrow> string \<Rightarrow> nat \<Rightarrow> nat option" where
  "number_in base [] acc = Some acc"
| "number_in base (c # cs) acc =
     (case digit_of c of
        None \<Rightarrow> None
      | Some d \<Rightarrow> if d < base then number_in base cs (acc * base + d) else None)"

text \<open>A number in C notation that fits 32 bits: decimal, octal after \<open>0\<close>, hexadecimal after \<open>0x\<close>.\<close>

definition inet_part :: "string \<Rightarrow> nat option" where
  "inet_part s =
     (let v = (case s of
          [] \<Rightarrow> None
        | [c] \<Rightarrow> number_in 10 s 0
        | c # d # ds \<Rightarrow>
            if c = CHR ''0'' then
              (if d = CHR ''x'' \<or> d = CHR ''X'' then (if ds = [] then None else number_in 16 ds 0)
               else number_in 8 (d # ds) 0)
            else number_in 10 s 0)
      in (case v of Some n \<Rightarrow> if n < 2 ^ 32 then Some n else None | None \<Rightarrow> None))"

definition is_space :: "char \<Rightarrow> bool" where
  "is_space c = (let n = of_char c :: nat in n = 32 \<or> 9 \<le> n \<and> n \<le> 13)"

text \<open>One to four parts, the last filling the bytes that are left; \<open>None\<close> is \<open>INADDR_NONE\<close>.\<close>

definition inet_addr :: "string \<Rightarrow> u32 option" where
  "inet_addr cp =
     (let host = (case map inet_part (split_dots (takeWhile (\<lambda>c. \<not> is_space c) (takeWhile (\<lambda>c. c \<noteq> char_of (0 :: nat)) cp))) of
          [Some a] \<Rightarrow> Some a
        | [Some a, Some b] \<Rightarrow> if a < 2 ^ 8 \<and> b < 2 ^ 24 then Some (a * 2 ^ 24 + b) else None
        | [Some a, Some b, Some c] \<Rightarrow>
            if a < 2 ^ 8 \<and> b < 2 ^ 8 \<and> c < 2 ^ 16 then Some (a * 2 ^ 24 + b * 2 ^ 16 + c) else None
        | [Some a, Some b, Some c, Some d] \<Rightarrow>
            if a < 2 ^ 8 \<and> b < 2 ^ 8 \<and> c < 2 ^ 8 \<and> d < 2 ^ 8
            then Some (a * 2 ^ 24 + b * 2 ^ 16 + c * 2 ^ 8 + d) else None
        | _ \<Rightarrow> None)
      in (case host of
            None \<Rightarrow> None
          | Some h \<Rightarrow>
              let net = h div 2 ^ 24 + (h div 2 ^ 16 mod 256) * 2 ^ 8 + (h div 2 ^ 8 mod 256) * 2 ^ 16
                        + (h mod 256) * 2 ^ 24
              in if net = 2 ^ 32 - 1 then None else Some (of_nat net)))"

definition NodeIdToPeer :: "node_id_t \<Rightarrow> Peer" where
  "NodeIdToPeer node_id = \<lparr> pr_ip = inet_ntoa (ucast (drop_bit 32 node_id)),
     pr_port = ucast (and node_id 0xffffffff) \<rparr>"

definition PeerToNodeId :: "Peer \<Rightarrow> node_id_t res" where
  "PeerToNodeId peer =
     (case inet_addr (pr_ip peer) of
        None \<Rightarrow> Inl AssertFailed
      | Some addr \<Rightarrow> Inr (or (push_bit 32 (ucast addr)) (ucast (pr_port peer))))"

subsection \<open>Messages on the wire\<close>

record PodMsg =
  pod_messageType :: int
  pod_proposedLogValue :: LogValue
  pod_acceptedValue :: LogValue
  pod_learnedValue :: LogValue
  pod_chosenValue :: LogValue
  pod_promisedProposalId :: proposal_id_t
  pod_promisedNodeId :: node_id_t
  pod_instanceId :: instance_id_t
  pod_proposalId :: proposal_id_t
  pod_proposingNodeId :: node_id_t
  pod_followingNodeId :: node_id_t
  pod_acceptedProposalId :: proposal_id_t
  pod_leaderInstanceId :: instance_id_t
  pod_senderId :: node_id_t
  pod_rejected :: bool

definition PODMessage :: "PaxMessage \<Rightarrow> PodMsg" where
  "PODMessage m = \<lparr> pod_messageType = 0, pod_proposedLogValue = [], pod_acceptedValue = [],
     pod_learnedValue = [], pod_chosenValue = [], pod_promisedProposalId = 0, pod_promisedNodeId = 0,
     pod_instanceId = 0, pod_proposalId = 0, pod_proposingNodeId = 0, pod_followingNodeId = 0,
     pod_acceptedProposalId = 0, pod_leaderInstanceId = 0, pod_senderId = 0, pod_rejected = False \<rparr>"

subsection \<open>Network\<close>

datatype NetAction =
    ClientSend Peer PodMsg
  | ServerStart node_id_t bool     \<comment> \<open>whether the callback is not empty\<close>
  | ServerShutdown node_id_t

text \<open>The entry of a server says whether its pointer is not null.\<close>

record Network =
  nw_clients :: "(u64 \<times> Peer) list"
  nw_servers :: "(node_id_t \<times> bool) list"
  nw_trace :: "NetAction list"

fun new_servers :: "Peer list \<Rightarrow> (node_id_t \<times> bool) list \<Rightarrow> (node_id_t \<times> bool) list res" where
  "new_servers [] servers = Inr servers"
| "new_servers (p # ps) servers =
     bind_res (PeerToNodeId p) (\<lambda>n.
       new_servers ps (if map_of servers n = None then (n, True) # servers else servers))"

definition Network_New :: "Peer list \<Rightarrow> Network res" where
  "Network_New peers = bind_res (new_servers peers []) (\<lambda>servers.
     Inr \<lparr> nw_clients = [], nw_servers = servers, nw_trace = [] \<rparr>)"

text \<open>\<open>emplace\<close> keeps an entry that is there already.\<close>

definition emplace_client :: "Peer \<Rightarrow> Network \<Rightarrow> Network res" where
  "emplace_client peer nw = bind_res (PeerHash peer) (\<lambda>h.
     Inr (if map_of (nw_clients nw) h = None then nw\<lparr> nw_clients := (h, peer) # nw_clients nw \<rparr> else nw))"

fun emplace_clients :: "Peer list \<Rightarrow> Network \<Rightarrow> Network res" where
  "emplace_clients [] nw = Inr nw"
| "emplace_clients (p # ps) nw = bind_res (emplace_client p nw) (emplace_clients ps)"

fun start_servers :: "bool \<Rightarrow> (node_id_t \<times> bool) list \<Rightarrow> NetAction list \<Rightarrow> NetAction list res" where
  "start_servers callback [] tr = Inr tr"
| "start_servers callback ((n, present) # ss) tr =
     (if present then start_servers callback ss (tr @ [ServerStart n callback]) else Inl NullPointer)"

record NetworkOptions =
  nwo_peers :: PeerSet
  nwo_self :: node_id_t
  nwo_msgCallback :: bool          \<comment> \<open>the \<open>std::function\<close> is not empty\<close>

definition Network_Start :: "NetworkOptions \<Rightarrow> Network \<Rightarrow> Network res" where
  "Network_Start network_options nw =
     bind_res (emplace_clients (nwo_peers network_options) nw) (\<lambda>nw.
     bind_res (start_servers (nwo_msgCallback network_options) (nw_servers nw) (nw_trace nw)) (\<lambda>tr.
     Inr (nw\<lparr> nw_trace := tr \<rparr>)))"

definition Network_Send :: "Peer \<Rightarrow> PaxMessage \<Rightarrow> Network \<Rightarrow> Network res" where
  "Network_Send peer m nw =
     bind_res (PeerHash peer) (\<lambda>h.
       case map_of (nw_clients nw) h of
         None \<Rightarrow> Inr (nw\<lparr> nw_clients := (h, peer) # nw_clients nw,
                        nw_trace := nw_trace nw @ [ClientSend peer (PODMessage m)] \<rparr>)
       | Some client \<Rightarrow> Inr (nw\<lparr> nw_trace := nw_trace nw @ [ClientSend client (PODMessage m)] \<rparr>))"

definition Network_Broadcast :: "PaxMessage \<Rightarrow> Network \<Rightarrow> Network" where
  "Network_Broadcast m nw =
     nw\<lparr> nw_trace := nw_trace nw @ map (\<lambda>x. ClientSend (snd x) (PODMessage m)) (nw_clients nw) \<rparr>"

text \<open>\<open>servers_[node_id]\<close> inserts a null pointer where there is no entry.\<close>

definition Network_Quit :: "node_id_t \<Rightarrow> Network \<Rightarrow> Network res" where
  "Network_Quit node_id nw =
     (if map_of (nw_servers nw) node_id = None then
        (case map_of ((node_id, False) # nw_servers nw) node_id of
           Some True \<Rightarrow> Inr (nw\<lparr> nw_servers := filter (\<lambda>s. fst s \<noteq> node_id) (nw_servers nw),
                               nw_trace := nw_trace nw @ [ServerShutdown node_id] \<rparr>)
         | _ \<Rightarrow> Inl NullPointer)
      else Inr nw)"

text \<open>The destructor of the implementation.\<close>

fun shutdown_servers :: "(node_id_t \<times> bool) list \<Rightarrow> NetAction list \<Rightarrow> NetAction list res" where
  "shutdown_servers [] tr = Inr tr"
| "shutdown_servers ((n, present) # ss) tr =
     (if present then shutdown_servers ss (tr @ [ServerShutdown n]) else Inl NullPointer)"

definition Network_destroy :: "Network \<Rightarrow> Network res" where
  "Network_destroy nw = bind_res (shutdown_servers (nw_servers nw) (nw_trace nw)) (\<lambda>tr.
     Inr (nw\<lparr> nw_servers := [], nw_trace := tr \<rparr>))"

text \<open>
  A node (node/node.cpp): pointers to its parts. \<open>nodeId_\<close> is never assigned. The options that \<open>Run\<close>
  gives to the network name no callback.
\<close>

record ('st, 'sm) NodeOptions =
  no_nodeIdList :: "node_id_t list"
  no_nodeId :: node_id_t
  no_storage :: "'st option"
  no_sm :: "'sm option"
  no_network :: "Network option"

record ('st, 'sm) Node =
  nd_network :: "Network option"
  nd_storage :: "'st option"
  nd_sm :: "'sm option"

definition Node_Init :: "node_id_t \<Rightarrow> PaxosOptions \<Rightarrow> ('st, 'sm) Node \<Rightarrow> ('st, 'sm) Node" where
  "Node_Init node_id paxos_options node = node"

definition Node_InitNetwork :: "NetworkOptions \<Rightarrow> ('st, 'sm) Node \<Rightarrow> ('st, 'sm) Node res" where
  "Node_InitNetwork network_options node =
     (case nd_network node of
        None \<Rightarrow> Inl NullPointer
      | Some nw \<Rightarrow> bind_res (Network_Start network_options nw) (\<lambda>nw. Inr (node\<lparr> nd_network := Some nw \<rparr>)))"

definition Node_Run :: "('st, 'sm) NodeOptions \<Rightarrow> PaxosOptions \<Rightarrow> ('st, 'sm) Node \<Rightarrow> ('st, 'sm) Node res" where
  "Node_Run options paxos_options node =
     (let node = Node_Init (no_nodeId options) paxos_options node in
      bind_res (new_PeerSet (map NodeIdToPeer (no_nodeIdList options))) (\<lambda>peers.
        let network_options = \<lparr> nwo_peers = peers, nwo_self = opt_node_id paxos_options, nwo_msgCallback = False \<rparr>;
            node = node\<lparr> nd_network := no_network options \<rparr>
        in bind_res (Node_InitNetwork network_options node) (\<lambda>node.
           Inr (node\<lparr> nd_storage := no_storage options, nd_sm := no_sm options \<rparr>))))"

definition Communicator_SendMessage :: "node_id_t \<Rightarrow> PaxMessage \<Rightarrow> Network \<Rightarrow> (int \<times> Network) res" where
  "Communicator_SendMessage node_id m nw =
     bind_res (Network_Send (NodeIdToPeer node_id) m nw) (\<lambda>nw. Inr (0, nw))"

definition Communicator_BroadcastMessage :: "PaxMessage \<Rightarrow> Network \<Rightarrow> int \<times> Network" where
  "Communicator_BroadcastMessage m nw = (0, Network_Broadcast m nw)"

definition PaxCommunicator_Send :: "node_id_t \<Rightarrow> PaxMessage \<Rightarrow> Network \<Rightarrow> (int \<times> Network) res" where
  "PaxCommunicator_Send node_id m nw = Communicator_SendMessage node_id m nw"

definition PaxCommunicator_Broadcast :: "PaxMessage \<Rightarrow> Network \<Rightarrow> int \<times> Network" where
  "PaxCommunicator_Broadcast m nw = Communicator_BroadcastMessage m nw"

subsection \<open>Addresses there and back\<close>

definition is_digit :: "char \<Rightarrow> bool" where
  "is_digit c = (let n = of_char c :: nat in 48 \<le> n \<and> n \<le> 57)"

lemma nat_digits_digits: "list_all is_digit (nat_digits n)"
proof (induction n rule: nat_digits.induct)
  case (1 n)
  have d: "is_digit (char_of (48 + m))" if "m < 10" for m :: nat
    using that by (simp add: is_digit_def)
  show ?case using 1 d [of n] d [of "n mod 10"] by (subst nat_digits.simps) simp
qed

lemma number_in_append: "number_in b (xs @ ys) acc = Option.bind (number_in b xs acc) (number_in b ys)"
  by (induction xs arbitrary: acc) (auto split: option.split)

lemma digit_of_char: "d < 10 \<Longrightarrow> digit_of (char_of (48 + d :: nat)) = Some d"
  by (simp add: digit_of_def)

lemma number_in_nat_digits: "number_in 10 (nat_digits n) 0 = Some n"
proof (induction n rule: nat_digits.induct)
  case (1 n)
  show ?case
  proof (cases "n < 10")
    case True
    then show ?thesis using digit_of_char [of n] by (subst nat_digits.simps) simp
  next
    case False
    then show ?thesis using 1 digit_of_char [of "n mod 10"]
      by (subst nat_digits.simps) (simp add: number_in_append)
  qed
qed

text \<open>No zero leads the digits of a positive number.\<close>

lemma nat_digits_hd: "0 < n \<Longrightarrow> hd (nat_digits n) \<noteq> CHR ''0''"
proof (induction n rule: nat_digits.induct)
  case (1 n)
  show ?case
  proof (cases "n < 10")
    case True
    have "char_of (48 + n) \<noteq> CHR ''0''"
    proof
      assume "char_of (48 + n) = CHR ''0''"
      then have "of_char (char_of (48 + n) :: char) = (of_char (CHR ''0'') :: nat)" by simp
      then show False using True 1(2) by simp
    qed
    then show ?thesis using True by (subst nat_digits.simps) simp
  next
    case False
    then have "0 < n div 10" by simp
    with False 1 nat_digits_nonempty [of "n div 10"] show ?thesis by (subst nat_digits.simps) simp
  qed
qed

lemma inet_part_nat_digits:
  assumes "n < 256"
  shows "inet_part (nat_digits n) = Some n"
proof (cases "nat_digits n")
  case Nil
  then show ?thesis using nat_digits_nonempty by simp
next
  case (Cons c cs)
  show ?thesis
  proof (cases cs)
    case Nil
    then show ?thesis using number_in_nat_digits [of n] Cons assms by (simp add: inet_part_def)
  next
    case ds: (Cons d ds)
    have "0 < n"
    proof (rule ccontr)
      assume "\<not> 0 < n"
      then have "nat_digits n = [CHR ''0'']" by (subst nat_digits.simps) (simp add: char_of_def bit_0)
      with Cons ds show False by simp
    qed
    then have "c \<noteq> CHR ''0''" using nat_digits_hd [of n] Cons by simp
    then show ?thesis using number_in_nat_digits [of n] Cons ds assms by (simp add: inet_part_def)
  qed
qed

lemma split_dots_plain: "CHR ''.'' \<notin> set s \<Longrightarrow> split_dots s = [s]"
  by (induction s) auto

lemma split_dots_dot: "CHR ''.'' \<notin> set s \<Longrightarrow> split_dots (s @ CHR ''.'' # t) = s # split_dots t"
  by (induction s) auto

lemma byte_at_less [simp]: "byte_at i a < 256"
  by (simp add: byte_at_def)

lemma digit_set:
  "c \<in> set (nat_digits n) \<Longrightarrow> c \<noteq> CHR ''.'' \<and> \<not> is_space c \<and> c \<noteq> char_of (0 :: nat)"
proof -
  assume "c \<in> set (nat_digits n)"
  then have "is_digit c" using nat_digits_digits [of n] by (simp add: list_all_iff)
  then have o: "48 \<le> (of_char c :: nat)" by (simp add: is_digit_def Let_def)
  then have "(of_char c :: nat) \<noteq> of_char (CHR ''.'')" and "(of_char c :: nat) \<noteq> of_char (char_of (0 :: nat) :: char)"
    by simp_all
  then show ?thesis using o by (auto simp: is_space_def Let_def)
qed

lemma dot_plain: "\<not> is_space (CHR ''.'')" "CHR ''.'' \<noteq> char_of (0 :: nat)"
proof -
  have "(of_char (CHR ''.'') :: nat) = 46" by simp
  then show "\<not> is_space (CHR ''.'')" by (simp add: is_space_def Let_def)
  show "CHR ''.'' \<noteq> char_of (0 :: nat)"
  proof
    assume "CHR ''.'' = char_of (0 :: nat)"
    then have "(of_char (CHR ''.'') :: nat) = of_char (char_of (0 :: nat) :: char)" by (simp only:)
    then show False by simp
  qed
qed

lemma byte_split: "(n :: nat) = n mod 256 + 256 * (n div 256)"
  by simp

lemma bytes_sum:
  fixes n :: nat
  assumes "n < 2 ^ 32"
  shows "n div 256 ^ 0 mod 256 + n div 256 ^ 1 mod 256 * 2 ^ 8 + n div 256 ^ 2 mod 256 * 2 ^ 16
    + n div 256 ^ 3 mod 256 * 2 ^ 24 = n"
proof -
  let ?a = "n div 256" let ?b = "?a div 256" let ?c = "?b div 256"
  have d: "n div 256 ^ 2 = ?b" "n div 256 ^ 3 = ?c"
    by (simp_all flip: div_mult2_eq)
  have c: "?c < 256" using assms by (simp flip: div_mult2_eq)
  have e: "n mod 256 + 256 * (?a mod 256 + 256 * (?b mod 256 + 256 * ?c)) = n"
    by simp
  have f: "x + y * 2 ^ 8 + z * 2 ^ 16 + w * 2 ^ 24 = x + 256 * (y + 256 * (z + 256 * w))" for x y z w :: nat
    by simp
  show ?thesis using e c unfolding d f by (simp only: power_0 power_one_right div_by_1 mod_less)
qed

lemma host_bytes:
  fixes a b c d :: nat
  assumes "a < 256" "b < 256" "c < 256" "d < 256"
  defines "h \<equiv> a * 2 ^ 24 + b * 2 ^ 16 + c * 2 ^ 8 + d"
  shows "h div 2 ^ 24 = a" "h div 2 ^ 16 mod 256 = b" "h div 2 ^ 8 mod 256 = c" "h mod 256 = d"
proof -
  show "h div 2 ^ 24 = a" by (rule div_nat_eqI) (use assms in simp_all)
  have "h div 2 ^ 16 = 256 * a + b" by (rule div_nat_eqI) (use assms in simp_all)
  then show "h div 2 ^ 16 mod 256 = b" using assms by simp
  have "h div 2 ^ 8 = 256 * (256 * a + b) + c" by (rule div_nat_eqI) (use assms in simp_all)
  then show "h div 2 ^ 8 mod 256 = c" using assms(3) by (simp only: mod_mult_self4 mod_less)
  have "h = 256 * (256 * (256 * a + b) + c) + d" by (simp add: h_def)
  then show "h mod 256 = d" using assms(4) by (simp only: mod_mult_self4 mod_less)
qed

lemma inet_addr_ntoa:
  assumes "a \<noteq> - 1"
  shows "inet_addr (inet_ntoa a) = Some a"
proof -
  let ?d = "\<lambda>i. nat_digits (byte_at i a)"
  have nd: "CHR ''.'' \<notin> set (nat_digits n)" for n using digit_set by blast
  have sp: "\<forall>c\<in>set (inet_ntoa a). \<not> is_space c" and nz: "\<forall>c\<in>set (inet_ntoa a). c \<noteq> char_of (0 :: nat)"
    using digit_set dot_plain by (auto simp: inet_ntoa_def)
  then have tw: "takeWhile (\<lambda>c. \<not> is_space c) (takeWhile (\<lambda>c. c \<noteq> char_of (0 :: nat)) (inet_ntoa a)) = inet_ntoa a"
    by (simp add: takeWhile_eq_all_conv [THEN iffD2])
  have "split_dots (inet_ntoa a) = [?d 0, ?d 1, ?d 2, ?d 3]"
    by (simp add: inet_ntoa_def split_dots_dot nd split_dots_plain)
  then have parts: "map inet_part (split_dots (inet_ntoa a)) =
      [Some (byte_at 0 a), Some (byte_at 1 a), Some (byte_at 2 a), Some (byte_at 3 a)]"
    by (simp add: inet_part_nat_digits)
  let ?n = "unat a"
  have n: "?n < 2 ^ 32" using unsigned_less [of a] by simp
  have sum: "byte_at 0 a + byte_at 1 a * 2 ^ 8 + byte_at 2 a * 2 ^ 16 + byte_at 3 a * 2 ^ 24 = ?n"
    unfolding byte_at_def by (rule bytes_sum [OF n])
  let ?h = "byte_at 0 a * 2 ^ 24 + byte_at 1 a * 2 ^ 16 + byte_at 2 a * 2 ^ 8 + byte_at 3 a"
  have b: "byte_at 0 a < 256" "byte_at 1 a < 256" "byte_at 2 a < 256" "byte_at 3 a < 256" by simp_all
  note h = host_bytes [OF b]
  have "?n \<noteq> 2 ^ 32 - 1"
  proof
    assume "?n = 2 ^ 32 - 1"
    then have "of_nat ?n = (of_nat (2 ^ 32 - 1) :: u32)" by (simp only:)
    then show False using assms by simp
  qed
  then have ns: "(?n = 2 ^ 32 - 1) = False" by simp
  have b8: "byte_at i a < 2 ^ 8" for i using byte_at_less [of i a] by simp
  show ?thesis
    by (simp only: inet_addr_def tw parts list.case option.case Let_def b8 if_True simp_thms h sum)
      (simp only: ns if_False word_of_nat_unat)
qed

lemma low_half: "and n 0xffffffff = take_bit 32 (n :: u64)"
  by (simp add: take_bit_eq_mask mask_eq_exp_minus_1)

lemma PeerToNodeId_NodeIdToPeer:
  assumes "ucast (drop_bit 32 n) \<noteq> (- 1 :: u32)"
  shows "PeerToNodeId (NodeIdToPeer n) = Inr n"
proof -
  have "or (push_bit 32 (ucast (ucast (drop_bit 32 n) :: u32))) (ucast (ucast (and n 0xffffffff) :: u32)) = n"
    unfolding low_half by (rule bit_word_eqI) (auto simp: bit_simps)
  then show ?thesis
    by (simp add: PeerToNodeId_def NodeIdToPeer_def inet_addr_ntoa [OF assms])
qed

text \<open>
  C36. The address of a node id leads back to the node id, for every id whose upper half is not
  the broadcast address.
\<close>

theorem node_id_address_roundtrip:
  assumes "ucast (drop_bit 32 n) \<noteq> (- 1 :: u32)"
  shows "PeerToNodeId (NodeIdToPeer n) = Inr n"
  using assms by (rule PeerToNodeId_NodeIdToPeer)

lemma node_id_address_roundtrip_witness:
  "PeerToNodeId (NodeIdToPeer 0x0100007F00001F40) = Inr 0x0100007F00001F40"
  by (rule node_id_address_roundtrip) (simp add: drop_bit_eq_div)

subsection \<open>Hashes of long addresses\<close>

lemma bits_ge: "0 < n \<Longrightarrow> 2 ^ (bits n - 1) \<le> n"
proof (induction n rule: bits.induct)
  case (1 n)
  show ?case
  proof (cases "n div 2 = 0")
    case True
    then show ?thesis using 1(2) by (subst bits.simps) (simp add: bits.simps)
  next
    case False
    then have "2 ^ (bits (n div 2) - 1) \<le> n div 2" using 1 by simp
    moreover have "bits (n div 2) = Suc (bits (n div 2 div 2))" using False by (subst bits.simps) simp
    ultimately show ?thesis using 1(2) by (subst bits.simps) simp
  qed
qed

text \<open>Rounding keeps powers of two below.\<close>

lemma round53_power:
  assumes "2 ^ k \<le> n"
  shows "2 ^ k \<le> round53 n"
proof -
  let ?e = "bits n - 53" let ?q = "n div 2 ^ ?e"
  have "0 < n" using assms by (metis gr0I not_le zero_less_numeral zero_less_power)
  then have b: "2 ^ (bits n - 1) \<le> n" by (rule bits_ge)
  have "2 ^ k \<le> ?q * 2 ^ ?e"
  proof (cases "?e \<le> k")
    case True
    then have p: "(2 :: nat) ^ k = 2 ^ (k - ?e) * 2 ^ ?e" by (simp flip: power_add)
    then have "2 ^ (k - ?e) \<le> ?q" using assms by (simp add: less_eq_div_iff_mult_less_eq)
    then show ?thesis unfolding p by simp
  next
    case False
    then have "(2 :: nat) ^ ?e \<le> 2 ^ (bits n - 1)" by (intro power_increasing) simp_all
    then have "2 ^ ?e \<le> n" using b by linarith
    then have "1 \<le> ?q" by (simp add: less_eq_div_iff_mult_less_eq)
    then have "2 ^ ?e \<le> ?q * 2 ^ ?e" by simp
    moreover have "(2 :: nat) ^ k \<le> 2 ^ ?e" using False by (intro power_increasing) simp_all
    ultimately show ?thesis by linarith
  qed
  then show ?thesis using assms by (auto simp: round53_def Let_def)
qed

lemma roundi_nonneg: "0 \<le> x \<Longrightarrow> 0 \<le> roundi x"
  by (simp add: roundi_def sgn_if)

lemma roundi_power:
  assumes "2 ^ k \<le> x"
  shows "2 ^ k \<le> roundi x"
proof -
  have x: "0 < x" using assms by (smt (verit) zero_less_power)
  then have "2 ^ k \<le> nat x" using assms by (simp add: nat_le_iff le_nat_iff)
  then have "2 ^ k \<le> round53 (nat x)" by (rule round53_power)
  then have "int (2 ^ k) \<le> int (round53 (nat x))" by (simp only: of_nat_le_iff)
  then show ?thesis using x by (simp add: roundi_def)
qed

definition plain :: "char \<Rightarrow> bool" where
  "plain c = (46 \<le> (of_char c :: nat) \<and> (of_char c :: nat) < 128)"

lemma schar_plain: "plain c \<Longrightarrow> 46 \<le> schar c"
proof -
  assume "plain c"
  then have "46 \<le> (of_char c :: nat)" "(of_char c :: nat) < 128" by (simp_all add: plain_def)
  then have "46 \<le> int (of_char c)" by linarith
  then show ?thesis using \<open>(of_char c :: nat) < 128\<close> by (simp add: schar_def of_nat_of_char)
qed

lemma hash_loop_overflow:
  assumes "list_all plain st" "i \<le> 12" "12 - i < length st"
  shows "hash_loop i st h = Inl ConversionOverflow"
  using assms
proof (induction st arbitrary: i h)
  case (Cons c st)
  have c: "46 \<le> schar c" using Cons.prems by (simp add: schar_plain)
  have p0: "0 \<le> pow31 i" by (simp add: pow31_def roundi_nonneg)
  let ?d = "roundi (roundi (int (unat h)) + roundi (schar c * pow31 i))"
  show ?case
  proof (cases "i = 12")
    case True
    have "2 ^ 59 \<le> pow31 12" unfolding pow31_def by (rule roundi_power) simp
    then have "46 * 2 ^ 59 \<le> schar c * pow31 i" using c True by (intro mult_mono) simp_all
    then have "2 ^ 64 \<le> schar c * pow31 i" by simp
    then have "2 ^ 64 \<le> roundi (schar c * pow31 i)" by (rule roundi_power)
    moreover have "0 \<le> roundi (int (unat h))" by (rule roundi_nonneg) simp
    ultimately have "2 ^ 64 \<le> roundi (int (unat h)) + roundi (schar c * pow31 i)" by linarith
    then have "2 ^ 64 \<le> ?d" by (rule roundi_power)
    then show ?thesis by (simp add: Let_def True)
  next
    case False
    then have "hash_loop (Suc i) st g = Inl ConversionOverflow" for g
      using Cons.prems by (intro Cons.IH) auto
    then show ?thesis by (simp add: Let_def)
  qed
qed simp

lemma digit_plain: "is_digit c \<Longrightarrow> plain c"
  by (simp add: is_digit_def plain_def Let_def)

lemma plain_digits: "list_all plain (nat_digits n)"
  using nat_digits_digits [of n] digit_plain by (auto simp: list_all_iff)

lemma plain_address: "list_all plain (Peer_ToString (NodeIdToPeer n))"
proof -
  have "plain (CHR ''.'')" "plain (CHR '':'')" by (simp_all add: plain_def)
  then show ?thesis by (simp add: Peer_ToString_def NodeIdToPeer_def inet_ntoa_def plain_digits)
qed

lemma PeerHash_overflow:
  "13 \<le> length (Peer_ToString (NodeIdToPeer n)) \<Longrightarrow> PeerHash (NodeIdToPeer n) = Inl ConversionOverflow"
  unfolding PeerHash_def by (rule hash_loop_overflow) (auto simp: plain_address)

lemma PeerHash_fault: "PeerHash p = Inl e \<Longrightarrow> e = ConversionOverflow"
proof -
  have "hash_loop i st h = Inl e \<Longrightarrow> e = ConversionOverflow" for i st h
    by (induction st arbitrary: i h) (auto simp: Let_def split: if_splits)
  then show "PeerHash p = Inl e \<Longrightarrow> e = ConversionOverflow" by (simp add: PeerHash_def)
qed

lemma PeerSet_Add_fault: "PeerSet_Add p ps = Inl e \<Longrightarrow> e = ConversionOverflow"
  by (auto simp: PeerSet_Add_def PeerSet_Contains_def bind_res_eq_Inl dest: PeerHash_fault)

lemma new_PeerSet_fault: "new_PeerSet ps = Inl e \<Longrightarrow> e = ConversionOverflow"
  by (induction ps) (auto simp: bind_res_eq_Inl dest: PeerSet_Add_fault)

lemma new_PeerSet_overflow:
  "p \<in> set ps \<Longrightarrow> PeerHash p = Inl ConversionOverflow \<Longrightarrow> new_PeerSet ps = Inl ConversionOverflow"
proof (induction ps)
  case (Cons q ps)
  show ?case
  proof (cases "new_PeerSet ps")
    case (Inl e)
    then show ?thesis using new_PeerSet_fault [OF Inl] by simp
  next
    case (Inr set)
    then have "p = q" using Cons by auto
    then show ?thesis using Inr Cons.prems(2) by (simp add: PeerSet_Add_def PeerSet_Contains_def)
  qed
qed simp

text \<open>
  Nothing can be sent to a node whose address has thirteen characters or more, such as
  \<open>127.0.0.1:8000\<close>: computing the hash of the peer converts a number that does not fit 64 bits,
  and no node can be started with such a node among its peers.
\<close>

theorem long_addresses_fault:
  assumes "13 \<le> length (Peer_ToString (NodeIdToPeer n))"
  shows "PaxCommunicator_Send n m nw = Inl ConversionOverflow \<and>
    Node_Run (options\<lparr> no_nodeIdList := ns @ n # ns' \<rparr>) pax node = Inl ConversionOverflow"
proof -
  note h = PeerHash_overflow [OF assms]
  have "new_PeerSet (map NodeIdToPeer (ns @ n # ns')) = Inl ConversionOverflow"
    by (rule new_PeerSet_overflow [OF _ h]) simp
  then show ?thesis
    by (simp add: h PaxCommunicator_Send_def Communicator_SendMessage_def Network_Send_def Node_Run_def)
qed

lemma bits_numeral: "bits 0 = 0" "bits (Suc 0) = 1" "bits (numeral k) = Suc (bits (numeral k div 2))"
  by (subst bits.simps, simp)+

lemma round53_small: "n < 2 ^ 53 \<Longrightarrow> round53 n = n"
proof -
  assume n: "n < 2 ^ 53"
  have "bits n \<le> 53"
  proof (rule ccontr)
    assume "\<not> bits n \<le> 53"
    then have e: "53 \<le> bits n - 1" and z: "0 < n" by (auto simp: bits_numeral intro!: gr0I)
    have "(2 :: nat) ^ 53 \<le> 2 ^ (bits n - 1)" using e by (rule power_increasing) simp
    then show False using bits_ge [OF z] n by linarith
  qed
  then show ?thesis by (simp add: round53_def)
qed

lemma round53_large:
  assumes "bits n = b" "53 < b" "n div 2 ^ (b - 53) = q" "n mod 2 ^ (b - 53) = r"
  shows "round53 n = (if 2 * r > 2 ^ (b - 53) \<or> 2 * r = 2 ^ (b - 53) \<and> odd q then q + 1 else q) * 2 ^ (b - 53)"
  unfolding round53_def assms(1) Let_def assms(3,4) using assms(2) by simp

lemma roundi_small: "0 \<le> x \<Longrightarrow> x < 2 ^ 53 \<Longrightarrow> roundi x = x"
  by (cases "x = 0") (simp_all add: roundi_def round53_small nat_less_iff)

text \<open>Below 2^53 the sum is exact.\<close>

lemma hash_step_exact:
  assumes "of_char c < (128 :: nat)" "unat h + of_char c * 31 ^ i < 2 ^ 53" "(31 :: nat) ^ i < 2 ^ 53"
  shows "hash_loop i (c # st) h = hash_loop (Suc i) st (h + of_nat (of_char c * 31 ^ i))"
proof -
  have p: "pow31 i = 31 ^ i"
    unfolding pow31_def using assms(3) by (intro roundi_small) (simp_all flip: of_nat_less_iff [where 'a = int])
  have i: "(207 \<le> i) = False"
  proof (rule ccontr)
    assume "(207 \<le> i) \<noteq> False"
    then have "(31 :: nat) ^ 11 \<le> 31 ^ i" by (intro power_increasing) simp_all
    then show False using assms(3) by simp
  qed
  define m :: nat where "m = of_char c"
  let ?n = "unat h + m * 31 ^ i"
  have l: "int (unat h) + int (m * 31 ^ i) < 2 ^ 53"
    using assms(2) unfolding m_def [symmetric] by (simp only: flip: of_nat_less_iff [where 'a = int]) simp
  have s: "schar c * 31 ^ i = int (m * 31 ^ i)" using assms(1) by (simp add: schar_def m_def of_nat_of_char)
  have x: "roundi (int (m * 31 ^ i)) = int (m * 31 ^ i)"
    using l by (intro roundi_small of_nat_0_le_iff) linarith
  have y: "roundi (int (unat h)) = int (unat h)"
    using l by (intro roundi_small of_nat_0_le_iff) linarith
  have d: "roundi (int (unat h) + int (m * 31 ^ i)) = int (unat h) + int (m * 31 ^ i)"
    using l by (intro roundi_small) linarith+
  have w: "word_of_int (int (unat h) + int (m * 31 ^ i)) = h + of_nat (m * 31 ^ i)"
    by simp
  have "int (unat h) + int (m * 31 ^ i) < 2 ^ 64" using l by (rule less_trans) simp
  moreover have "0 \<le> int (unat h) + int (m * 31 ^ i)" by (intro add_nonneg_nonneg of_nat_0_le_iff)
  ultimately have "(int (unat h) + int (m * 31 ^ i) < 0 \<or> 2 ^ 64 \<le> int (unat h) + int (m * 31 ^ i)) = False"
    by (simp only: not_less not_le de_Morgan_disj eq_False simp_thms)
  then show ?thesis by (simp only: hash_loop.simps Let_def m_def [symmetric] i p s x y d w if_False)
qed

lemma hash_step:
  assumes "pow31 i = p" "roundi (schar c * p) = x" "roundi (int (unat h)) = y" "roundi (y + x) = d"
    "0 \<le> d" "d < 2 ^ 64" "i < 207"
  shows "hash_loop i (c # st) h = hash_loop (Suc i) st (word_of_int d)"
  using assms by (simp add: Let_def)

subsection \<open>Colliding peers\<close>

text \<open>The table of clients is keyed by the hashes of the peers they were made for.\<close>

definition clients_ok :: "Network \<Rightarrow> bool" where
  "clients_ok nw = (distinct (map fst (nw_clients nw)) \<and> (\<forall>(h, p) \<in> set (nw_clients nw). PeerHash p = Inr h))"

lemma map_of_client: "clients_ok nw \<Longrightarrow> map_of (nw_clients nw) h = Some p \<Longrightarrow> PeerHash p = Inr h"
  unfolding clients_ok_def by (auto dest: map_of_SomeD)

lemma clients_ok_add:
  assumes "clients_ok nw" "PeerHash p = Inr h" "map_of (nw_clients nw) h = None"
  shows "clients_ok (nw\<lparr> nw_clients := (h, p) # nw_clients nw \<rparr>)"
  using assms by (simp add: clients_ok_def map_of_eq_None_iff)

lemma clients_ok_trace [simp]: "clients_ok (nw\<lparr> nw_trace := t \<rparr>) = clients_ok nw"
  by (simp add: clients_ok_def)

lemma emplace_client_ok: "emplace_client p nw = Inr nw' \<Longrightarrow> clients_ok nw \<Longrightarrow> clients_ok nw'"
  by (auto simp: emplace_client_def bind_res_def clients_ok_add split: sum.splits if_splits)

lemma emplace_clients_ok: "emplace_clients ps nw = Inr nw' \<Longrightarrow> clients_ok nw \<Longrightarrow> clients_ok nw'"
proof (induction ps arbitrary: nw)
  case (Cons p ps)
  then obtain nw1 where "emplace_client p nw = Inr nw1" "emplace_clients ps nw1 = Inr nw'"
    by (auto simp: bind_res_def split: sum.splits)
  then show ?case using Cons emplace_client_ok by blast
qed simp

lemma Network_Start_ok: "Network_Start ps nw = Inr nw' \<Longrightarrow> clients_ok nw \<Longrightarrow> clients_ok nw'"
  by (auto simp: Network_Start_def bind_res_def dest: emplace_clients_ok split: sum.splits)

lemma Network_New_ok: "Network_New ps = Inr nw \<Longrightarrow> clients_ok nw"
  by (auto simp: Network_New_def bind_res_def clients_ok_def split: sum.splits)

lemma Network_Send_effect:
  assumes "Network_Send p m nw = Inr nw'" "clients_ok nw"
  shows "clients_ok nw'"
    and "\<exists>q. nw_trace nw' = nw_trace nw @ [ClientSend q (PODMessage m)] \<and> PeerHash q = PeerHash p
      \<and> (q = p \<or> q \<in> snd ` set (nw_clients nw))"
proof -
  obtain h where h: "PeerHash p = Inr h" using assms(1) by (cases "PeerHash p") (simp_all add: Network_Send_def)
  show "clients_ok nw'" using assms h clients_ok_add [OF assms(2) h]
    by (auto simp: Network_Send_def clients_ok_def split: option.splits)
  show "\<exists>q. nw_trace nw' = nw_trace nw @ [ClientSend q (PODMessage m)] \<and> PeerHash q = PeerHash p
      \<and> (q = p \<or> q \<in> snd ` set (nw_clients nw))"
  proof (cases "map_of (nw_clients nw) h")
    case None
    then show ?thesis using assms h by (auto simp: Network_Send_def)
  next
    case (Some q)
    then have "(h, q) \<in> set (nw_clients nw)" by (rule map_of_SomeD)
    then have "q \<in> snd ` set (nw_clients nw)" by force
    then show ?thesis using Some assms h map_of_client [OF assms(2) Some]
      by (auto simp: Network_Send_def intro!: exI [of _ q])
  qed
qed

lemma ten: "Suc (Suc (Suc (Suc (Suc (Suc (Suc (Suc (Suc (Suc 0))))))))) = 10"
  by simp

lemma prefix_a: "hash_loop 0 ''10.0.0.1:10'' 0 = hash_loop 10 ''0'' 1346399527462147"
  by (simp add: hash_step_exact ten del: hash_loop.simps(2))

lemma prefix_b: "hash_loop 0 ''20.0.0.1:10'' 0 = hash_loop 10 ''0'' 1346399527462148"
  by (simp add: hash_step_exact ten del: hash_loop.simps(2))

lemma last_step:
  assumes "h = 1346399527462147 \<or> h = 1346399527462148"
  shows "hash_loop 10 ''0'' h = Inr 40688557302540592"
proof -
  have p: "pow31 10 = 819628286980801" by (simp add: pow31_def roundi_small)
  have "round53 39342157775078448 = 39342157775078448"
    by (subst round53_large [where b = 56 and q = 4917769721884806 and r = 0]) (simp_all add: bits_numeral)
  then have x: "roundi (schar (CHR ''0'') * 819628286980801) = 39342157775078448"
    by (simp add: schar_def roundi_def)
  have y: "roundi (int (unat h)) = int (unat h)" using assms by (auto simp: roundi_small)
  have "round53 40688557302540595 = 40688557302540592"
    by (subst round53_large [where b = 56 and q = 5086069662817574 and r = 3]) (simp_all add: bits_numeral)
  moreover have "round53 40688557302540596 = 40688557302540592"
    by (subst round53_large [where b = 56 and q = 5086069662817574 and r = 4]) (simp_all add: bits_numeral)
  ultimately have d: "roundi (int (unat h) + 39342157775078448) = 40688557302540592"
    using assms by (auto simp: roundi_def)
  show ?thesis by (subst hash_step [OF p x y d]) simp_all
qed


text \<open>
  Where the hashes of two nodes collide, the second never gets a message: once something was
  sent to the first, all that is sent to the second goes to the client of the first.
\<close>

theorem colliding_node_is_cut_off:
  assumes "PeerHash (NodeIdToPeer a) = PeerHash (NodeIdToPeer b)"
    and "map_of (nw_clients nw) h = None" and "PeerHash (NodeIdToPeer a) = Inr h"
    and "PaxCommunicator_Send a m nw = Inr (r, nw')"
  shows "PaxCommunicator_Send b m' nw' =
    Inr (0, nw'\<lparr> nw_trace := nw_trace nw' @ [ClientSend (NodeIdToPeer a) (PODMessage m')] \<rparr>)"
proof -
  have b: "PeerHash (NodeIdToPeer b) = Inr h" using assms(1,3) by simp
  have "nw' = nw\<lparr> nw_clients := (h, NodeIdToPeer a) # nw_clients nw,
      nw_trace := nw_trace nw @ [ClientSend (NodeIdToPeer a) (PODMessage m)] \<rparr>"
    using assms(2-4) by (auto simp: PaxCommunicator_Send_def Communicator_SendMessage_def Network_Send_def)
  then show ?thesis
    by (simp add: b PaxCommunicator_Send_def Communicator_SendMessage_def Network_Send_def)
qed

text \<open>The addresses \<open>10.0.0.1:10\<close> and \<open>20.0.0.1:10\<close> collide.\<close>

definition sample_node :: "node_id_t \<Rightarrow> node_id_t" where
  "sample_node d = 0x010000000000000A + push_bit 32 d"

definition sample_network :: Network where
  "sample_network = \<lparr> nw_clients = [], nw_servers = [], nw_trace = [] \<rparr>"

lemma sample_hashes:
  "PeerHash (NodeIdToPeer (sample_node 10)) = Inr 40688557302540592"
  "PeerHash (NodeIdToPeer (sample_node 20)) = Inr 40688557302540592"
proof -
  have "Peer_ToString (NodeIdToPeer (sample_node 10)) = ''10.0.0.1:10''"
    "Peer_ToString (NodeIdToPeer (sample_node 20)) = ''20.0.0.1:10''"
    by (simp_all add: Peer_ToString_def NodeIdToPeer_def sample_node_def inet_ntoa_def byte_at_def
        nat_digits.simps drop_bit_eq_div push_bit_eq_mult char_of_def bit_0 bit_Suc)
  then show "PeerHash (NodeIdToPeer (sample_node 10)) = Inr 40688557302540592"
    "PeerHash (NodeIdToPeer (sample_node 20)) = Inr 40688557302540592"
    by (simp_all add: PeerHash_def prefix_a prefix_b last_step del: hash_loop.simps(2))
qed

definition sample_message :: PaxMessage where
  "sample_message = new_PaxMessage 3 kMSG_PROPOSE_BROADCAST"

definition sample_sent :: Network where
  "sample_sent = sample_network\<lparr> nw_clients := [(40688557302540592, NodeIdToPeer (sample_node 10))],
     nw_trace := [ClientSend (NodeIdToPeer (sample_node 10)) (PODMessage sample_message)] \<rparr>"

lemma sample_send: "PaxCommunicator_Send (sample_node 10) sample_message sample_network = Inr (0, sample_sent)"
  by (simp add: PaxCommunicator_Send_def Communicator_SendMessage_def Network_Send_def sample_hashes
      sample_sent_def sample_network_def)


lemma colliding_node_is_cut_off_witness:
  "sample_node 10 \<noteq> sample_node 20 \<and> PaxCommunicator_Send (sample_node 20) sample_message sample_sent =
     Inr (0, sample_sent\<lparr> nw_trace := nw_trace sample_sent @
       [ClientSend (NodeIdToPeer (sample_node 10)) (PODMessage sample_message)] \<rparr>)"
proof -
  have "sample_node 10 \<noteq> sample_node 20" by (simp add: sample_node_def push_bit_eq_mult)
  moreover have "PeerHash (NodeIdToPeer (sample_node 10)) = PeerHash (NodeIdToPeer (sample_node 20))"
    by (simp add: sample_hashes)
  moreover have "map_of (nw_clients sample_network) 40688557302540592 = None" by (simp add: sample_network_def)
  ultimately show ?thesis using colliding_node_is_cut_off [OF _ _ sample_hashes(1) sample_send] by blast
qed

lemma long_addresses_fault_witness:
  "PaxCommunicator_Send 0x0100007F00001F40 sample_message sample_network = Inl ConversionOverflow"
proof -
  have "Peer_ToString (NodeIdToPeer 0x0100007F00001F40) = ''127.0.0.1:8000''"
    by (simp add: Peer_ToString_def NodeIdToPeer_def inet_ntoa_def byte_at_def
        nat_digits.simps drop_bit_eq_div char_of_def bit_0 bit_Suc)
  then have "13 \<le> length (Peer_ToString (NodeIdToPeer 0x0100007F00001F40))" by simp
  from long_addresses_fault [OF this] show ?thesis by blast
qed

subsection \<open>Servers\<close>

text \<open>Each peer gets one server, keyed by its node id; a server starts once.\<close>

lemma new_servers_set:
  "new_servers ps ss = Inr ss' \<Longrightarrow> list_all snd ss \<Longrightarrow> distinct (map fst ss) \<Longrightarrow>
    list_all snd ss' \<and> distinct (map fst ss') \<and>
    Inr ` set (map fst ss') = Inr ` set (map fst ss) \<union> PeerToNodeId ` set ps"
proof (induction ps arbitrary: ss)
  case (Cons p ps)
  then obtain n where n: "PeerToNodeId p = Inr n" by (auto simp: bind_res_def split: sum.splits)
  let ?s = "if map_of ss n = None then (n, True) # ss else ss"
  have e: "Inr ` set (map fst ?s) = insert (Inr n) (Inr ` set (map fst ss))"
    by (force simp: map_of_eq_None_iff dest: map_of_SomeD)
  have "list_all snd ?s" "distinct (map fst ?s)" using Cons.prems by (auto simp: map_of_eq_None_iff)
  moreover have "new_servers ps ?s = Inr ss'" using Cons.prems n by simp
  ultimately show ?case using Cons.IH [of ?s] unfolding e by (simp add: n)
qed simp

lemma start_servers_all: "list_all snd ss \<Longrightarrow> start_servers cb ss tr = Inr (tr @ map (\<lambda>x. ServerStart (fst x) cb) ss)"
  by (induction ss arbitrary: tr) auto

lemma shutdown_servers_all: "list_all snd ss \<Longrightarrow> shutdown_servers ss tr = Inr (tr @ map (ServerShutdown \<circ> fst) ss)"
  by (induction ss arbitrary: tr) auto

text \<open>
  A new network has one server for each of its peers, starting it starts every server
  exactly once, and destroying it shuts each down once. \<open>Quit\<close> never shuts one down: it does
  nothing for a node that has a server and dereferences the null pointer it has just inserted for
  any other.
\<close>

theorem quit_never_shuts_down:
  assumes "Network_New ps = Inr nw" and "Network_Start (opts\<lparr> nwo_peers := [] \<rparr>) nw = Inr nw'"
  shows "(\<exists>ns nw''. distinct ns \<and> Inr ` set ns = PeerToNodeId ` set ps \<and> nw_trace nw' = map (\<lambda>n. ServerStart n (nwo_msgCallback opts)) ns \<and>
      Network_destroy nw' = Inr nw'' \<and> nw_trace nw'' = nw_trace nw' @ map ServerShutdown ns) \<and>
    Network_Quit n nw' = (if Inr n \<in> PeerToNodeId ` set ps then Inr nw' else Inl NullPointer)"
proof -
  from assms(1) obtain ss where ss: "new_servers ps [] = Inr ss"
    and nw: "nw = \<lparr> nw_clients = [], nw_servers = ss, nw_trace = [] \<rparr>"
    by (auto simp: Network_New_def bind_res_eq_Inr)
  note s = new_servers_set [OF ss, simplified]
  have nw': "nw' = nw\<lparr> nw_trace := map (\<lambda>n. ServerStart n (nwo_msgCallback opts)) (map fst ss) \<rparr>"
    using assms(2) s by (simp add: Network_Start_def nw start_servers_all o_def)
  have "map_of ss n = None \<longleftrightarrow> Inr n \<notin> PeerToNodeId ` set ps"
    using s by (force simp: map_of_eq_None_iff)
  then have "Network_Quit n nw' = (if Inr n \<in> PeerToNodeId ` set ps then Inr nw' else Inl NullPointer)"
    by (auto simp: Network_Quit_def nw' nw)
  moreover have "Inr ` set (map fst ss) = PeerToNodeId ` set ps" "distinct (map fst ss)" using s by simp_all
  moreover have "Network_destroy nw' = Inr (nw'\<lparr> nw_servers := [], nw_trace := nw_trace nw' @ map ServerShutdown (map fst ss) \<rparr>)"
    using s by (simp add: Network_destroy_def nw' nw shutdown_servers_all)
  ultimately show ?thesis using nw'
    by (intro conjI exI [of _ "map fst ss"] exI [of _ "nw'\<lparr> nw_servers := [], nw_trace := nw_trace nw' @ map ServerShutdown (map fst ss) \<rparr>"])
      simp_all
qed

lemma quit_never_shuts_down_witness:
  "\<exists>nw nw'. Network_New [NodeIdToPeer 0x0100007F00001F40] = Inr nw \<and>
     Network_Start \<lparr> nwo_peers = [], nwo_self = 1, nwo_msgCallback = True \<rparr> nw = Inr nw' \<and>
     Network_Quit 0x0100007F00001F40 nw' = Inr nw'"
proof -
  let ?p = "NodeIdToPeer 0x0100007F00001F40"
  have r: "PeerToNodeId ?p = Inr 0x0100007F00001F40"
    by (rule PeerToNodeId_NodeIdToPeer) (simp add: drop_bit_eq_div)
  let ?nw = "\<lparr> nw_clients = [], nw_servers = [(0x0100007F00001F40, True)], nw_trace = [] \<rparr>"
  have n: "Network_New [?p] = Inr ?nw" by (simp add: Network_New_def r)
  let ?o = "\<lparr> nwo_peers = [], nwo_self = 1, nwo_msgCallback = True \<rparr>"
  have s: "Network_Start (?o\<lparr> nwo_peers := [] \<rparr>) ?nw = Inr (?nw\<lparr> nw_trace := [ServerStart 0x0100007F00001F40 True] \<rparr>)"
    by (simp add: Network_Start_def)
  from quit_never_shuts_down [OF n s, of "0x0100007F00001F40"] r n s show ?thesis by auto
qed

lemma emplace_clients_frame:
  "emplace_clients ps nw = Inr nw' \<Longrightarrow> nw_servers nw' = nw_servers nw \<and> nw_trace nw' = nw_trace nw"
proof (induction ps arbitrary: nw)
  case (Cons p ps)
  then obtain nw1 where "emplace_client p nw = Inr nw1" "emplace_clients ps nw1 = Inr nw'" by (auto simp: bind_res_eq_Inr)
  with Cons.IH [of nw1] show ?case by (auto simp: emplace_client_def bind_res_eq_Inr split: if_splits)
qed simp

text \<open>A node that was started has what its options name, and its servers have no callback.\<close>

lemma Node_Run_servers:
  assumes "Network_New ps = Inr nw" and "no_network options = Some nw" and "Node_Run options pax node = Inr node'"
  shows "\<exists>nw' ns. nd_network node' = Some nw' \<and> distinct ns \<and> Inr ` set ns = PeerToNodeId ` set ps \<and>
    nw_trace nw' = map (\<lambda>n. ServerStart n False) ns \<and> nd_storage node' = no_storage options \<and> nd_sm node' = no_sm options"
proof -
  from assms(1) obtain ss where ss: "new_servers ps [] = Inr ss"
    and nw: "nw = \<lparr> nw_clients = [], nw_servers = ss, nw_trace = [] \<rparr>"
    by (auto simp: Network_New_def bind_res_eq_Inr)
  note s = new_servers_set [OF ss, simplified]
  from assms(2,3) obtain opts nw' where st: "Network_Start opts nw = Inr nw'" "nwo_msgCallback opts = False"
    and n: "nd_network node' = Some nw'" "nd_storage node' = no_storage options" "nd_sm node' = no_sm options"
    by (auto simp: Node_Run_def Node_InitNetwork_def bind_res_eq_Inr Let_def)
  then have "nw_trace nw' = map (\<lambda>n. ServerStart n False) (map fst ss)"
    using s by (auto simp: Network_Start_def bind_res_eq_Inr nw start_servers_all o_def dest!: emplace_clients_frame)
  with n s show ?thesis by (intro exI [of _ nw'] exI [of _ "map fst ss"]) auto
qed

end
