(* ===== verification/Udp_Transport.thy ===== *)
theory Udp_Transport
  imports Peer_Network
begin

section \<open>The UDP transport (network/asio/udp_server.cpp, udp_client.cpp)\<close>

text \<open>
  The server keeps one asynchronous operation in flight: it waits for a datagram, hands it to the
  callback, sends it back and waits again. Boost.Asio runs the completion handlers one at a time
  on the thread of \<open>io_service::run\<close>; here they are events, and an event whose operation is not in
  flight, or that comes after \<open>stop\<close>, changes nothing. An exception of a handler leaves \<open>run\<close> and
  ends the thread. What the socket receives is the part of a datagram that fits the buffer.
\<close>

definition max_length :: nat where "max_length = 1024 * 1024"

datatype UdpOp = AwaitDatagram | AwaitSent string

datatype UdpAction = Delivered string | Echoed string

record UdpServer =
  us_running :: bool
  us_callback :: bool                   \<comment> \<open>the \<open>std::function\<close> is not empty\<close>
  us_loop :: bool                       \<comment> \<open>a thread runs the handlers\<close>
  us_stopped :: bool                    \<comment> \<open>the \<open>io_service\<close> was stopped; nothing restarts it\<close>
  us_pending :: "UdpOp option"
  us_trace :: "UdpAction list"

definition new_UdpServer :: UdpServer where
  "new_UdpServer = \<lparr> us_running = False, us_callback = False, us_loop = False, us_stopped = False,
     us_pending = None, us_trace = [] \<rparr>"

definition DoReceive :: "UdpServer \<Rightarrow> UdpServer" where
  "DoReceive s = s\<lparr> us_pending := Some AwaitDatagram \<rparr>"

definition DoSend :: "string \<Rightarrow> UdpServer \<Rightarrow> UdpServer" where
  "DoSend bs s = s\<lparr> us_pending := Some (AwaitSent bs), us_trace := us_trace s @ [Echoed bs] \<rparr>"

text \<open>The handlers of \<open>async_receive_from\<close> and \<open>async_send_to\<close>.\<close>

definition receive_handler :: "bool \<Rightarrow> string \<Rightarrow> UdpServer \<Rightarrow> UdpServer" where
  "receive_handler ec data s =
     (if \<not> ec \<and> data \<noteq> [] then
        if us_callback s then DoSend data (s\<lparr> us_trace := us_trace s @ [Delivered data] \<rparr>)
        else s\<lparr> us_loop := False \<rparr>
      else DoReceive s)"

definition send_handler :: "UdpServer \<Rightarrow> UdpServer" where
  "send_handler s = DoReceive s"

text \<open>
  \<open>Start\<close>: the assignment of the new future waits for the end of the old thread, so that a
  second \<open>Start\<close> of a server that runs does not return (\<open>None\<close>). After \<open>stop\<close> the new thread ends at
  once, its receive stays in flight for ever.
\<close>

definition Udp_Start :: "bool \<Rightarrow> UdpServer \<Rightarrow> UdpServer option" where
  "Udp_Start cb s =
     (if us_loop s then None
      else Some (DoReceive (s\<lparr> us_callback := cb, us_loop := \<not> us_stopped s, us_running := True \<rparr>)))"

definition Udp_Shutdown :: "UdpServer \<Rightarrow> UdpServer" where
  "Udp_Shutdown s =
     (if \<not> us_running s then s else s\<lparr> us_stopped := True, us_loop := False, us_running := False \<rparr>)"

definition Udp_Running :: "UdpServer \<Rightarrow> bool" where
  "Udp_Running s = us_running s"

definition Udp_destroy :: "UdpServer \<Rightarrow> UdpServer" where
  "Udp_destroy s = (if Udp_Running s then Udp_Shutdown s else s)"

datatype udp_event = Datagram bool string | Sent | Stop

fun udp_step :: "udp_event \<Rightarrow> UdpServer \<Rightarrow> UdpServer" where
  "udp_step Stop s = Udp_Shutdown s"
| "udp_step (Datagram ec d) s =
     (if us_loop s \<and> us_pending s = Some AwaitDatagram
      then receive_handler ec (take max_length d) (s\<lparr> us_pending := None \<rparr>) else s)"
| "udp_step Sent s =
     (case us_pending s of
        Some (AwaitSent bs) \<Rightarrow> if us_loop s then send_handler (s\<lparr> us_pending := None \<rparr>) else s
      | _ \<Rightarrow> s)"

definition udp_run :: "udp_event list \<Rightarrow> UdpServer \<Rightarrow> UdpServer" where
  "udp_run evs s = fold udp_step evs s"

subsection \<open>The client\<close>

text \<open>
  \<open>Send\<close> resolves the address, sends one datagram, the proposed value of the message, and blocks
  until a reply arrives; a system error makes it return false. \<open>received\<close> says whether a receive
  has ended, and without an error; the result is \<open>None\<close> while \<open>Send\<close> blocks.
\<close>

definition udp_payload :: "PodMsg \<Rightarrow> string" where
  "udp_payload m = pod_proposedLogValue m"

definition UdpClient_Send :: "bool \<Rightarrow> bool \<Rightarrow> bool option \<Rightarrow> PodMsg \<Rightarrow> string option \<times> bool option" where
  "UdpClient_Send resolved sent received m =
     (if \<not> resolved \<or> \<not> sent then (None, Some False) else (Some (udp_payload m), received))"

subsection \<open>What a server does\<close>

text \<open>The datagrams it takes: those that arrive while it waits for one.\<close>

fun heard :: "bool \<Rightarrow> udp_event list \<Rightarrow> string list" where
  "heard w [] = []"
| "heard w (Stop # es) = []"
| "heard w (Datagram ec d # es) =
     (if w \<and> \<not> ec \<and> d \<noteq> [] then take max_length d # heard False es else heard w es)"
| "heard w (Sent # es) = heard True es"

definition echoes :: "string list \<Rightarrow> UdpAction list" where
  "echoes ds = concat (map (\<lambda>d. [Delivered d, Echoed d]) ds)"

lemma udp_stopped: "\<not> us_loop s \<Longrightarrow> us_trace (udp_run evs s) = us_trace s"
proof (induction evs arbitrary: s)
  case (Cons e es)
  have "\<not> us_loop (udp_step e s) \<and> us_trace (udp_step e s) = us_trace s"
    using Cons.prems by (cases e) (auto simp: Udp_Shutdown_def split: option.split UdpOp.split)
  with Cons.IH show ?case by (simp add: udp_run_def)
qed (simp add: udp_run_def)

definition in_flight :: "bool \<Rightarrow> UdpServer \<Rightarrow> bool" where
  "in_flight w s \<longleftrightarrow> us_loop s \<and> us_running s \<and> us_callback s \<and>
     (if w then us_pending s = Some AwaitDatagram else \<exists>bs. us_pending s = Some (AwaitSent bs))"

lemma udp_run_heard:
  "in_flight w s \<Longrightarrow> us_trace (udp_run evs s) = us_trace s @ echoes (heard w evs)"
proof (induction w evs arbitrary: s rule: heard.induct)
  case (1 w)
  then show ?case by (simp add: udp_run_def echoes_def)
next
  case (2 w es)
  then have "\<not> us_loop (Udp_Shutdown s)" by (simp add: Udp_Shutdown_def in_flight_def)
  from udp_stopped [OF this, of es] show ?case by (simp add: udp_run_def echoes_def Udp_Shutdown_def)
next
  case (3 w ec d es)
  show ?case
  proof (cases "w \<and> \<not> ec \<and> d \<noteq> []")
    case True
    then have "in_flight False (udp_step (Datagram ec d) s)"
      and "us_trace (udp_step (Datagram ec d) s) = us_trace s @ [Delivered (take max_length d), Echoed (take max_length d)]"
      using 3(3) by (simp_all add: in_flight_def receive_handler_def DoSend_def max_length_def)
    with 3(1) True show ?thesis by (simp add: udp_run_def echoes_def)
  next
    case False
    then have "in_flight w (udp_step (Datagram ec d) s)" and "us_trace (udp_step (Datagram ec d) s) = us_trace s"
      using 3(3) by (auto simp: in_flight_def receive_handler_def DoReceive_def split: if_splits)
    with 3(2) False show ?thesis by (auto simp: udp_run_def)
  qed
next
  case (4 w es)
  then have "in_flight True (udp_step Sent s)" and "us_trace (udp_step Sent s) = us_trace s"
    by (auto simp: in_flight_def send_handler_def DoReceive_def split: if_splits)
  with 4(1) show ?case by (simp add: udp_run_def)
qed

text \<open>
  C19. A started UDP server hands every datagram it takes to the callback exactly once, in order,
  and echoes it before it takes the next; empty datagrams are passed over. From a shutdown on it
  does nothing, even if it is started again.
\<close>

theorem udp_server_echoes:
  assumes "Udp_Start True new_UdpServer = Some s"
  shows "us_trace (udp_run evs s) = echoes (heard True evs) \<and>
    (\<forall>s' evs' cb. Udp_Start cb (udp_run evs (Udp_Shutdown s)) = Some s' \<longrightarrow> us_trace (udp_run evs' s') = [])"
proof -
  have s: "s = DoReceive (new_UdpServer\<lparr> us_callback := True, us_loop := True, us_running := True \<rparr>)"
    using assms by (simp add: Udp_Start_def new_UdpServer_def)
  then have "in_flight True s" and t: "us_trace s = []"
    by (simp_all add: in_flight_def DoReceive_def new_UdpServer_def)
  from udp_run_heard [OF this(1), of evs] t have 1: "us_trace (udp_run evs s) = echoes (heard True evs)" by simp
  have "us_trace (udp_run evs' s') = []"
    if st: "Udp_Start cb (udp_run evs (Udp_Shutdown s)) = Some s'" for s' evs' cb
  proof -
    let ?d = "Udp_Shutdown s"
    have "us_stopped (udp_run es u)" if "us_stopped u" for es u
      using that
    proof (induction es arbitrary: u)
      case (Cons e es)
      have "us_stopped (udp_step e u)"
        using Cons.prems by (cases e) (auto simp: Udp_Shutdown_def receive_handler_def send_handler_def DoReceive_def
            DoSend_def split: option.split UdpOp.split)
      with Cons.IH show ?case by (simp add: udp_run_def)
    qed (simp add: udp_run_def)
    moreover have d: "us_stopped ?d" "\<not> us_loop ?d" "us_trace ?d = []"
      by (simp_all add: Udp_Shutdown_def s DoReceive_def new_UdpServer_def)
    ultimately have "us_stopped (udp_run evs ?d)" and "us_trace (udp_run evs ?d) = []"
      using udp_stopped by auto
    then have "\<not> us_loop s'" and "us_trace s' = []" using st by (auto simp: Udp_Start_def DoReceive_def split: if_splits)
    then show ?thesis using udp_stopped by simp
  qed
  with 1 show ?thesis by blast
qed

lemma udp_server_echoes_witness:
  "\<exists>s. Udp_Start True new_UdpServer = Some s \<and>
     us_trace (udp_run [Datagram False ''a'', Datagram False ''b'', Sent, Datagram False [], Datagram False ''c'', Stop] s) =
       [Delivered ''a'', Echoed ''a'', Delivered ''c'', Echoed ''c'']"
proof -
  obtain s where s: "Udp_Start True new_UdpServer = Some s" by (simp add: Udp_Start_def new_UdpServer_def)
  from udp_server_echoes [OF s, of "[Datagram False ''a'', Datagram False ''b'', Sent, Datagram False [], Datagram False ''c'', Stop]"] s
  show ?thesis by (simp add: echoes_def max_length_def)
qed

text \<open>A datagram that a client of the network sent, for some message.\<close>

definition from_network :: "udp_event \<Rightarrow> bool" where
  "from_network e = (case e of Datagram ec d \<Rightarrow> \<exists>m. d = udp_payload (PODMessage m) | _ \<Rightarrow> True)"

lemma udp_step_from_network: "from_network e \<Longrightarrow> us_trace (udp_step e s) = us_trace s"
  by (cases e) (auto simp: from_network_def udp_payload_def PODMessage_def receive_handler_def DoReceive_def
      send_handler_def Udp_Shutdown_def split: option.split UdpOp.split)

fun first_echo :: "UdpAction list \<Rightarrow> string option" where
  "first_echo [] = None"
| "first_echo (Echoed d # as) = Some d"
| "first_echo (Delivered d # as) = first_echo as"

text \<open>
  No Paxos message gets through UDP. Whatever messages the clients of the network send to a
  started server, in whatever order their datagrams arrive or are lost, nothing is delivered and
  nothing is sent back; so a client whose datagram was sent blocks for ever.
\<close>

theorem no_message_over_udp:
  assumes "Udp_Start cb new_UdpServer = Some s" and "list_all from_network evs"
  shows "us_trace (udp_run evs s) = [] \<and>
    UdpClient_Send True True (map_option (\<lambda>_. True) (first_echo (us_trace (udp_run evs s)))) (PODMessage m) =
      (Some [], None)"
proof -
  have "list_all from_network evs \<Longrightarrow> us_trace (udp_run evs u) = us_trace u" for u
    by (induction evs arbitrary: u) (simp_all add: udp_run_def udp_step_from_network)
  moreover have "us_trace s = []" using assms(1) by (auto simp: Udp_Start_def DoReceive_def new_UdpServer_def)
  ultimately have "us_trace (udp_run evs s) = []" using assms(2) by simp
  then show ?thesis by (simp add: UdpClient_Send_def udp_payload_def PODMessage_def)
qed

lemma no_message_over_udp_witness:
  "\<exists>s. Udp_Start True new_UdpServer = Some s \<and>
     us_trace (udp_run [Datagram False (udp_payload (PODMessage sample_message)), Sent, Stop] s) = []"
proof -
  obtain s where s: "Udp_Start True new_UdpServer = Some s" by (simp add: Udp_Start_def new_UdpServer_def)
  have "list_all from_network [Datagram False (udp_payload (PODMessage sample_message)), Sent, Stop]"
    by (auto simp: from_network_def)
  from no_message_over_udp [OF s this] s show ?thesis by blast
qed

text \<open>Without a callback nothing is delivered and nothing echoed.\<close>

lemma udp_without_callback:
  "Udp_Start False new_UdpServer = Some s \<Longrightarrow> us_trace (udp_run evs s) = []"
proof -
  have step: "\<not> us_callback (udp_step e u) \<and> us_trace (udp_step e u) = us_trace u" if "\<not> us_callback u" for e u
    using that by (cases e) (auto simp: Udp_Shutdown_def receive_handler_def send_handler_def DoReceive_def
        split: option.split UdpOp.split)
  then have "\<not> us_callback u \<Longrightarrow> us_trace (udp_run evs u) = us_trace u" for u
    by (induction evs arbitrary: u) (simp_all add: udp_run_def)
  moreover assume "Udp_Start False new_UdpServer = Some s"
  then have "\<not> us_callback s" "us_trace s = []" by (auto simp: Udp_Start_def DoReceive_def new_UdpServer_def)
  ultimately show ?thesis by simp
qed

end
