(* ===== verification/Grpc_Transport.thy ===== *)
theory Grpc_Transport
  imports Peer_Network
begin

section \<open>The gRPC transport (network/grpc/client.cpp, server.cpp, server_func_impl.cpp)\<close>

text \<open>
  The client turns a message into the request of one rpc and waits for its reply. The server is
  asynchronous: a \<open>CallData\<close> object per call, known to gRPC by its address, the tag of what the
  completion queue reports. Objects live in a heap; an operation on an address without an object
  is \<open>UseAfterFree\<close>. gRPC itself is a source of events, of which the code relies on this: a tag
  that was handed over comes back once in the queue, with \<open>ok\<close> false when the operation failed
  or the server is shut down; a call is matched with a waiting object of its rpc and waits itself
  while there is none; \<open>Server::Shutdown\<close> fails what waits and returns when every call that was
  matched has been answered; nothing may be handed to a closed queue. Serialisation is the
  parameter \<open>ser\<close>.
\<close>

subsection \<open>Requests (grpc/protos/paxosme.proto)\<close>

record ProposeRequest =
  rq_proposal_id :: u64
  rq_instance_id :: u64
  rq_proposing_node_id :: u64
  rq_sender_id :: u64

record ProposeAckRequest =
  pa_is_rejected :: bool
  pa_promised_proposal_id :: u64
  pa_instance_id :: u64
  pa_accepted_log_value :: string
  pa_promised_node_id :: u64
  pa_sender_id :: u64
  pa_proposal_id :: u64
  pa_reply_to :: u64

record AcceptRequest =
  aq_proposal_id :: u64
  aq_instance_id :: u64
  aq_proposing_node_id :: u64
  aq_proposed_log_value :: string
  aq_sender_id :: u64

record AcceptAckRequest =
  aa_instance_id :: u64
  aa_promised_node_id :: u64
  aa_promised_proposal_id :: u64
  aa_accepted_id :: u64
  aa_accepted_value :: string
  aa_rejected :: bool
  aa_sender_id :: u64
  aa_proposal_id :: u64
  aa_proposing_node_id :: u64

text \<open>The messages of a chosen, a synchronised and a sent value have the same fields.\<close>

record ValueRequest =
  vr_instance_id :: u64
  vr_value :: string
  vr_proposal_id :: u64
  vr_proposing_node_id :: u64
  vr_sender_id :: u64

record InstanceRequest =
  ir_instance_id :: u64
  ir_sender_id :: u64

record TellInstanceIdRequest =
  ti_follower_instance_id :: u64
  ti_leader_instance_id :: u64
  ti_sender_id :: u64

datatype GrpcRequest =
    Propose_Request ProposeRequest
  | ProposeAck_Request ProposeAckRequest
  | Accept_Request AcceptRequest
  | AcceptAck_Request AcceptAckRequest
  | NewValueChosen_Request ValueRequest
  | ShallILearn_Request InstanceRequest
  | LearnerValueSync_Request ValueRequest
  | LearnerValueSend_Request ValueRequest
  | AckSyncValue_Request InstanceRequest
  | TellInstanceId_Request TellInstanceIdRequest
  | ConfirmLearn_Request InstanceRequest

datatype Rpc =
    Rpc_Propose | Rpc_ProposeAck | Rpc_Accept | Rpc_AcceptAck | Rpc_NewValueChosen | Rpc_ShallILearn
  | Rpc_LearnerValueSync | Rpc_LearnerValueSend | Rpc_AckSyncValue | Rpc_TellInstanceId
  | Rpc_ConfirmLearn

text \<open>Every reply message has the same fields.\<close>

record GrpcReply =
  rp_ack :: bool
  rp_sender_id :: u64

text \<open>Messages as they are constructed: every field has its default.\<close>

definition empty_value_request :: ValueRequest where
  "empty_value_request = \<lparr> vr_instance_id = 0, vr_value = [], vr_proposal_id = 0,
     vr_proposing_node_id = 0, vr_sender_id = 0 \<rparr>"

definition empty_instance_request :: InstanceRequest where
  "empty_instance_request = \<lparr> ir_instance_id = 0, ir_sender_id = 0 \<rparr>"

definition empty_ProposeAckRequest :: ProposeAckRequest where
  "empty_ProposeAckRequest = \<lparr> pa_is_rejected = False, pa_promised_proposal_id = 0, pa_instance_id = 0,
     pa_accepted_log_value = [], pa_promised_node_id = 0, pa_sender_id = 0, pa_proposal_id = 0,
     pa_reply_to = 0 \<rparr>"

definition empty_AcceptAckRequest :: AcceptAckRequest where
  "empty_AcceptAckRequest = \<lparr> aa_instance_id = 0, aa_promised_node_id = 0, aa_promised_proposal_id = 0,
     aa_accepted_id = 0, aa_accepted_value = [], aa_rejected = False, aa_sender_id = 0, aa_proposal_id = 0,
     aa_proposing_node_id = 0 \<rparr>"

definition empty_TellInstanceIdRequest :: TellInstanceIdRequest where
  "empty_TellInstanceIdRequest = \<lparr> ti_follower_instance_id = 0, ti_leader_instance_id = 0, ti_sender_id = 0 \<rparr>"

fun empty_request :: "Rpc \<Rightarrow> GrpcRequest" where
  "empty_request Rpc_Propose = Propose_Request \<lparr> rq_proposal_id = 0, rq_instance_id = 0, rq_proposing_node_id = 0,
     rq_sender_id = 0 \<rparr>"
| "empty_request Rpc_ProposeAck = ProposeAck_Request empty_ProposeAckRequest"
| "empty_request Rpc_Accept = Accept_Request \<lparr> aq_proposal_id = 0, aq_instance_id = 0, aq_proposing_node_id = 0,
     aq_proposed_log_value = [], aq_sender_id = 0 \<rparr>"
| "empty_request Rpc_AcceptAck = AcceptAck_Request empty_AcceptAckRequest"
| "empty_request Rpc_NewValueChosen = NewValueChosen_Request empty_value_request"
| "empty_request Rpc_ShallILearn = ShallILearn_Request empty_instance_request"
| "empty_request Rpc_LearnerValueSync = LearnerValueSync_Request empty_value_request"
| "empty_request Rpc_LearnerValueSend = LearnerValueSend_Request empty_value_request"
| "empty_request Rpc_AckSyncValue = AckSyncValue_Request empty_instance_request"
| "empty_request Rpc_TellInstanceId = TellInstanceId_Request empty_TellInstanceIdRequest"
| "empty_request Rpc_ConfirmLearn = ConfirmLearn_Request empty_instance_request"

subsection \<open>The client\<close>

datatype PodMsgType =
    kPod_None
  | kPOD_MSG_PROPOSE_BROADCAST | kPOD_MSG_ACCEPT_BROADCAST
  | kPOD_MSG_PROPOSE_ACK | kPOD_MSG_ACCEPT_ACK
  | kPOD_MSG_VALUE_CHOSEN | kPOD_MSG_SHALL_I_LEARN | kPOD_MSG_CONFIRM_LEARN | kPOD_MSG_LEARNER_VALUE_SEND
  | kPOD_MSG_LEARNER_VALUE_SYNC | kPOD_MSG_SYNC_VALUE_ACK | kPOD_MSG_VALUE_CHOSEN_BROADCAST
  | kPOD_MSG_TELL_INSTANCE_ID
  | kPod_PLACEHOLDER_NEW_VALUE_COMMITTED

fun PodMsgType_value :: "PodMsgType \<Rightarrow> int" where
  "PodMsgType_value kPod_None = 0"
| "PodMsgType_value kPOD_MSG_PROPOSE_BROADCAST = 0x1 * 2 ^ 3"
| "PodMsgType_value kPOD_MSG_ACCEPT_BROADCAST = 0x1 * 2 ^ 3 + 1"
| "PodMsgType_value kPOD_MSG_PROPOSE_ACK = 0x11 * 2 ^ 3"
| "PodMsgType_value kPOD_MSG_ACCEPT_ACK = 0x11 * 2 ^ 3 + 1"
| "PodMsgType_value kPOD_MSG_VALUE_CHOSEN = 0x111 * 2 ^ 3"
| "PodMsgType_value kPOD_MSG_SHALL_I_LEARN = 0x111 * 2 ^ 3 + 1"
| "PodMsgType_value kPOD_MSG_CONFIRM_LEARN = 0x111 * 2 ^ 3 + 2"
| "PodMsgType_value kPOD_MSG_LEARNER_VALUE_SEND = 0x111 * 2 ^ 3 + 3"
| "PodMsgType_value kPOD_MSG_LEARNER_VALUE_SYNC = 0x111 * 2 ^ 3 + 4"
| "PodMsgType_value kPOD_MSG_SYNC_VALUE_ACK = 0x111 * 2 ^ 3 + 5"
| "PodMsgType_value kPOD_MSG_VALUE_CHOSEN_BROADCAST = 0x111 * 2 ^ 3 + 6"
| "PodMsgType_value kPOD_MSG_TELL_INSTANCE_ID = 0x111 * 2 ^ 3 + 7"
| "PodMsgType_value kPod_PLACEHOLDER_NEW_VALUE_COMMITTED = 0x1111 * 2 ^ 3"

text \<open>The rpc of the stub that starts the call of a request.\<close>

fun PrepareRequest :: "GrpcRequest \<Rightarrow> Rpc" where
  "PrepareRequest (Propose_Request r) = Rpc_Propose"
| "PrepareRequest (ProposeAck_Request r) = Rpc_ProposeAck"
| "PrepareRequest (Accept_Request r) = Rpc_Accept"
| "PrepareRequest (AcceptAck_Request r) = Rpc_AcceptAck"
| "PrepareRequest (NewValueChosen_Request r) = Rpc_NewValueChosen"
| "PrepareRequest (ShallILearn_Request r) = Rpc_ShallILearn"
| "PrepareRequest (LearnerValueSync_Request r) = Rpc_LearnerValueSync"
| "PrepareRequest (AckSyncValue_Request r) = Rpc_AckSyncValue"
| "PrepareRequest (LearnerValueSend_Request r) = Rpc_LearnerValueSend"
| "PrepareRequest (TellInstanceId_Request r) = Rpc_TellInstanceId"
| "PrepareRequest (ConfirmLearn_Request r) = Rpc_ConfirmLearn"

text \<open>
  What \<open>cq.Next\<close> reports of the call, and whether its status is OK; \<open>None\<close> while it blocks.
  The call is on the wire before the client waits.
\<close>

record CallOutcome =
  co_next :: bool
  co_ret :: bool
  co_tag :: nat
  co_status_ok :: bool

definition AsyncCall :: "CallOutcome option \<Rightarrow> GrpcRequest \<Rightarrow> (Rpc \<times> GrpcRequest) option \<times> bool res option" where
  "AsyncCall out request =
     (Some (PrepareRequest request, request),
      map_option (\<lambda>got. if \<not> co_next got then Inl AssertFailed
                       else if \<not> (co_ret got \<and> co_tag got = 1) then Inl AssertFailed
                       else Inr (co_status_ok got)) out)"

text \<open>\<open>switch (pod_msg.messageType)\<close>\<close>

definition GrpcClient_Send :: "CallOutcome option \<Rightarrow> PodMsg \<Rightarrow> (Rpc \<times> GrpcRequest) option \<times> bool res option" where
  "GrpcClient_Send out m =
     (let t = pod_messageType m in
      if t = PodMsgType_value kPOD_MSG_PROPOSE_ACK then
        AsyncCall out (ProposeAck_Request (empty_ProposeAckRequest
          \<lparr> pa_sender_id := pod_senderId m, pa_is_rejected := pod_rejected m, pa_instance_id := pod_instanceId m,
            pa_promised_proposal_id := pod_promisedProposalId m, pa_promised_node_id := pod_promisedNodeId m,
            pa_accepted_log_value := pod_acceptedValue m \<rparr>))
      else if t = PodMsgType_value kPOD_MSG_ACCEPT_ACK then
        AsyncCall out (AcceptAck_Request (empty_AcceptAckRequest
          \<lparr> aa_sender_id := pod_senderId m, aa_instance_id := pod_instanceId m,
            aa_promised_node_id := pod_promisedNodeId m, aa_promised_proposal_id := pod_promisedProposalId m,
            aa_accepted_id := pod_acceptedProposalId m, aa_accepted_value := pod_acceptedValue m,
            aa_rejected := pod_rejected m \<rparr>))
      else if t = PodMsgType_value kPOD_MSG_LEARNER_VALUE_SYNC then
        AsyncCall out (LearnerValueSync_Request (empty_value_request
          \<lparr> vr_instance_id := pod_instanceId m, vr_sender_id := pod_senderId m, vr_value := pod_chosenValue m,
            vr_proposing_node_id := pod_proposingNodeId m, vr_proposal_id := pod_proposalId m \<rparr>))
      else if t = PodMsgType_value kPOD_MSG_LEARNER_VALUE_SEND then
        AsyncCall out (LearnerValueSend_Request (empty_value_request
          \<lparr> vr_instance_id := pod_instanceId m, vr_sender_id := pod_senderId m, vr_value := pod_chosenValue m,
            vr_proposing_node_id := pod_proposingNodeId m, vr_proposal_id := pod_proposalId m \<rparr>))
      else if t = PodMsgType_value kPOD_MSG_SYNC_VALUE_ACK then
        AsyncCall out (AckSyncValue_Request (empty_instance_request
          \<lparr> ir_instance_id := pod_instanceId m, ir_sender_id := pod_senderId m \<rparr>))
      else if t = PodMsgType_value kPOD_MSG_TELL_INSTANCE_ID then
        AsyncCall out (TellInstanceId_Request (empty_TellInstanceIdRequest
          \<lparr> ti_follower_instance_id := pod_instanceId m, ti_leader_instance_id := pod_leaderInstanceId m,
            ti_sender_id := pod_senderId m \<rparr>))
      else if t = PodMsgType_value kPOD_MSG_CONFIRM_LEARN then
        AsyncCall out (ConfirmLearn_Request (empty_instance_request
          \<lparr> ir_instance_id := pod_instanceId m, ir_sender_id := pod_senderId m \<rparr>))
      else (None, Some (Inr False)))"

subsection \<open>The server\<close>

datatype CallStatus = DUMMY | INITIALIZED | SERVED | FINISH

record CallData =
  cd_rpc :: Rpc                  \<comment> \<open>the instance of the template\<close>
  cd_status :: CallStatus
  cd_request :: GrpcRequest
  cd_callback :: bool            \<comment> \<open>the \<open>std::function\<close> is not empty\<close>

datatype GrpcAction =
    RequestTaken GrpcRequest     \<comment> \<open>a call was matched with an object\<close>
  | RequestDelivered string      \<comment> \<open>the callback was called\<close>
  | RequestAnswered GrpcReply

datatype HandleLoop = LoopUnborn | LoopLaunched | LoopHandling | LoopEnded

record GrpcServer =
  gs_server :: bool                    \<comment> \<open>\<open>server_\<close> is not null\<close>
  gs_registered :: bool                \<comment> \<open>the service belongs to a server\<close>
  gs_running :: bool
  gs_callback :: bool
  gs_loop :: HandleLoop
  gs_calls :: "nat \<Rightarrow> CallData option"
  gs_next :: nat                       \<comment> \<open>no object ever was at this address or above\<close>
  gs_waiting :: "nat list"             \<comment> \<open>tags that wait for a call\<close>
  gs_sending :: "nat list"             \<comment> \<open>tags whose answer is being sent\<close>
  gs_queue :: "(nat \<times> bool) list"      \<comment> \<open>the completion queue: tags with \<open>ok\<close>\<close>
  gs_down :: bool                      \<comment> \<open>\<open>server_->Shutdown()\<close> was called\<close>
  gs_cq_closed :: bool
  gs_trace :: "GrpcAction list"

definition new_GrpcServer :: GrpcServer where
  "new_GrpcServer = \<lparr> gs_server = False, gs_registered = False, gs_running = False, gs_callback = False,
     gs_loop = LoopUnborn, gs_calls = (\<lambda>_. None), gs_next = 0, gs_waiting = [], gs_sending = [],
     gs_queue = [], gs_down = False, gs_cq_closed = False, gs_trace = [] \<rparr>"

text \<open>Objects: \<open>with_call\<close> reads the one at an address, \<open>set_status\<close> assigns its status.\<close>

definition with_call :: "nat \<Rightarrow> GrpcServer \<Rightarrow> (CallData \<Rightarrow> 'a res) \<Rightarrow> 'a res" where
  "with_call a s f = (case gs_calls s a of None \<Rightarrow> Inl UseAfterFree | Some c \<Rightarrow> f c)"

definition set_status :: "nat \<Rightarrow> CallStatus \<Rightarrow> GrpcServer \<Rightarrow> GrpcServer" where
  "set_status a st s = s\<lparr> gs_calls := (gs_calls s)(a := map_option (cd_status_update (\<lambda>_. st)) (gs_calls s a)) \<rparr>"

text \<open>
  \<open>service_->Request...\<close>: the tag waits for a call. Only five instances of the template have an
  \<open>InitRequestState\<close>, another instance would not link.
\<close>

definition InitRequestState :: "nat \<Rightarrow> GrpcServer \<Rightarrow> GrpcServer res" where
  "InitRequestState a s = with_call a s (\<lambda>c.
     if cd_rpc c \<in> {Rpc_Propose, Rpc_ProposeAck, Rpc_Accept, Rpc_AcceptAck, Rpc_NewValueChosen} then
       if \<not> gs_server s then Inl NullPointer
       else if gs_cq_closed s then Inl AssertFailed
       else if gs_down s then Inr (s\<lparr> gs_queue := gs_queue s @ [(a, False)] \<rparr>)
       else Inr (s\<lparr> gs_waiting := gs_waiting s @ [a] \<rparr>)
     else Inl BadCall)"

definition CreateStatusFunc :: "nat \<Rightarrow> GrpcServer \<Rightarrow> GrpcServer res" where
  "CreateStatusFunc a s = bind_res (InitRequestState a s) (\<lambda>s. Inr (set_status a INITIALIZED s))"

text \<open>The constructor calls \<open>Proceed\<close>, which finds \<open>DUMMY\<close>; the pointer is dropped.\<close>

definition CallDataManager_New :: "Rpc \<Rightarrow> bool \<Rightarrow> GrpcServer \<Rightarrow> GrpcServer res" where
  "CallDataManager_New rpc callback s =
     (let a = gs_next s;
          c = \<lparr> cd_rpc = rpc, cd_status = DUMMY, cd_request = empty_request rpc, cd_callback = callback \<rparr>
      in CreateStatusFunc a (s\<lparr> gs_calls := (gs_calls s)(a \<mapsto> c), gs_next := Suc a \<rparr>))"

text \<open>Every instance of \<open>HandleRequest\<close> does the same. \<open>None\<close>: the callback is empty and its call throws.\<close>

definition HandleRequest :: "(GrpcRequest \<Rightarrow> string) \<Rightarrow> CallData \<Rightarrow> GrpcReply \<Rightarrow> GrpcServer \<Rightarrow> GrpcReply option \<times> GrpcServer" where
  "HandleRequest ser c reply s =
     (if cd_callback c
      then (Some (reply\<lparr> rp_ack := True \<rparr>), s\<lparr> gs_trace := gs_trace s @ [RequestDelivered (ser (cd_request c))] \<rparr>)
      else (None, s))"

definition responder_Finish :: "nat \<Rightarrow> GrpcReply \<Rightarrow> GrpcServer \<Rightarrow> GrpcServer res" where
  "responder_Finish a reply s =
     (if gs_cq_closed s then Inl AssertFailed
      else Inr (s\<lparr> gs_sending := gs_sending s @ [a], gs_trace := gs_trace s @ [RequestAnswered reply] \<rparr>))"

text \<open>What may throw returns whether it did.\<close>

definition ProcessStatusFunc :: "(GrpcRequest \<Rightarrow> string) \<Rightarrow> nat \<Rightarrow> GrpcServer \<Rightarrow> (bool \<times> GrpcServer) res" where
  "ProcessStatusFunc ser a s = with_call a s (\<lambda>c.
     bind_res (CallDataManager_New (cd_rpc c) (cd_callback c) s) (\<lambda>s.
       case HandleRequest ser c \<lparr> rp_ack = False, rp_sender_id = 0 \<rparr> s of
         (None, s) \<Rightarrow> Inr (True, s)
       | (Some reply, s) \<Rightarrow>
           bind_res (responder_Finish a reply (set_status a SERVED s)) (\<lambda>s. Inr (False, s))))"

definition FinishStatusFunc :: "nat \<Rightarrow> GrpcServer \<Rightarrow> GrpcServer res" where
  "FinishStatusFunc a s = with_call a s (\<lambda>c.
     if cd_status c \<noteq> SERVED then Inl AssertFailed else Inr (set_status a FINISH s))"

definition Proceed :: "(GrpcRequest \<Rightarrow> string) \<Rightarrow> nat \<Rightarrow> GrpcServer \<Rightarrow> (bool \<times> GrpcServer) res" where
  "Proceed ser a s = with_call a s (\<lambda>c.
     if cd_status c = DUMMY then bind_res (CreateStatusFunc a s) (\<lambda>s. Inr (False, s))
     else if cd_status c = INITIALIZED then ProcessStatusFunc ser a s
     else if cd_status c = SERVED then bind_res (FinishStatusFunc a s) (\<lambda>s. Inr (False, s))
     else Inr (False, s))"

definition Finished :: "CallData \<Rightarrow> bool" where
  "Finished c \<longleftrightarrow> cd_status c = FINISH"

text \<open>The \<open>unique_ptr\<close> of the loop destroys the object unless it was released, also when \<open>Proceed\<close> throws.\<close>

definition destroy_call :: "nat \<Rightarrow> GrpcServer \<Rightarrow> GrpcServer" where
  "destroy_call a s = s\<lparr> gs_calls := (gs_calls s)(a := None) \<rparr>"

definition Procceed :: "(GrpcRequest \<Rightarrow> string) \<Rightarrow> nat \<Rightarrow> GrpcServer \<Rightarrow> (bool \<times> GrpcServer) res" where
  "Procceed ser a s = bind_res (Proceed ser a s) (\<lambda>(threw, s).
     if threw then Inr (True, destroy_call a s)
     else with_call a s (\<lambda>c. Inr (False, if Finished c then destroy_call a s else s)))"

text \<open>
  One turn of \<open>while (cq_->Next(&tag, &ok))\<close>. \<open>Next\<close> blocks on an empty queue, and returns false
  when it is closed and nothing is to come. An exception ends the loop.
\<close>

definition HandleRpcs :: "(GrpcRequest \<Rightarrow> string) \<Rightarrow> GrpcServer \<Rightarrow> GrpcServer res" where
  "HandleRpcs ser s =
     (case gs_queue s of
        [] \<Rightarrow> Inr (if gs_cq_closed s \<and> gs_waiting s = [] \<and> gs_sending s = [] then s\<lparr> gs_loop := LoopEnded \<rparr> else s)
      | (tag, ok) # q \<Rightarrow>
          if ok then bind_res (Procceed ser tag (s\<lparr> gs_queue := q \<rparr>)) (\<lambda>(threw, s).
            Inr (if threw then s\<lparr> gs_loop := LoopEnded \<rparr> else s))
          else Inr (s\<lparr> gs_queue := q \<rparr>))"

definition PrepareCallData :: "GrpcServer \<Rightarrow> GrpcServer res" where
  "PrepareCallData s =
     bind_res (CallDataManager_New Rpc_Propose (gs_callback s) s) (\<lambda>s.
     bind_res (CallDataManager_New Rpc_ProposeAck (gs_callback s) s) (\<lambda>s.
     bind_res (CallDataManager_New Rpc_Accept (gs_callback s) s) (\<lambda>s.
     bind_res (CallDataManager_New Rpc_AcceptAck (gs_callback s) s) (\<lambda>s.
     CallDataManager_New Rpc_NewValueChosen (gs_callback s) s))))"

text \<open>
  \<open>Start\<close> launches the loop on its own thread. gRPC lets a service be registered with one server
  only; \<open>bound\<close> says whether the address could be bound, otherwise \<open>BuildAndStart\<close> gives null.
\<close>

definition Grpc_Start :: "bool \<Rightarrow> bool \<Rightarrow> GrpcServer \<Rightarrow> GrpcServer res" where
  "Grpc_Start bound callback s =
     (if gs_registered s then Inl AssertFailed
      else Inr (s\<lparr> gs_registered := True, gs_server := bound, gs_callback := callback,
                  gs_loop := LoopLaunched, gs_running := True \<rparr>))"

text \<open>
  \<open>Shutdown\<close> is two steps, with the events of gRPC in between: the shutdown of the server, which
  returns when no matched call is unanswered, and the rest.
\<close>

definition Shutdown_begin :: "GrpcServer \<Rightarrow> GrpcServer res" where
  "Shutdown_begin s =
     (if \<not> gs_running s then Inr s
      else if \<not> gs_server s then Inl NullPointer
      else Inr (s\<lparr> gs_down := True, gs_queue := gs_queue s @ map (\<lambda>a. (a, False)) (gs_waiting s), gs_waiting := [] \<rparr>))"

definition status_at :: "GrpcServer \<Rightarrow> nat \<Rightarrow> CallStatus option" where
  "status_at s a = map_option cd_status (gs_calls s a)"

definition unanswered :: "GrpcServer \<Rightarrow> nat list" where
  "unanswered s = map fst (filter (\<lambda>(a, ok). ok \<and> status_at s a = Some INITIALIZED) (gs_queue s))"

definition Shutdown_end :: "GrpcServer \<Rightarrow> GrpcServer" where
  "Shutdown_end s =
     (if gs_running s \<and> gs_down s \<and> unanswered s = [] \<and> gs_sending s = []
      then s\<lparr> gs_cq_closed := True, gs_running := False \<rparr> else s)"

definition Grpc_Running :: "GrpcServer \<Rightarrow> bool" where
  "Grpc_Running s = gs_running s"

text \<open>gRPC matches a call with the first object that waits for its rpc.\<close>

definition waits_for :: "GrpcServer \<Rightarrow> Rpc \<Rightarrow> nat \<Rightarrow> bool" where
  "waits_for s rpc a \<longleftrightarrow> map_option cd_rpc (gs_calls s a) = Some rpc"

definition call_arrives :: "GrpcRequest \<Rightarrow> GrpcServer \<Rightarrow> GrpcServer" where
  "call_arrives r s =
     (case find (waits_for s (PrepareRequest r)) (gs_waiting s) of
        None \<Rightarrow> s
      | Some a \<Rightarrow> s\<lparr> gs_calls := (gs_calls s)(a := map_option (cd_request_update (\<lambda>_. r)) (gs_calls s a)),
                     gs_waiting := remove1 a (gs_waiting s), gs_queue := gs_queue s @ [(a, True)],
                     gs_trace := gs_trace s @ [RequestTaken r] \<rparr>)"

definition answer_sent :: "nat \<Rightarrow> bool \<Rightarrow> GrpcServer \<Rightarrow> GrpcServer" where
  "answer_sent a ok s =
     (if a \<in> set (gs_sending s)
      then s\<lparr> gs_sending := remove1 a (gs_sending s), gs_queue := gs_queue s @ [(a, ok)] \<rparr> else s)"

datatype grpc_event =
    LoopStarts | LoopTurns | CallArrives GrpcRequest | AnswerSent nat bool | ShutdownBegins | ShutdownEnds

text \<open>An event that is not enabled changes nothing.\<close>

fun grpc_step :: "(GrpcRequest \<Rightarrow> string) \<Rightarrow> grpc_event \<Rightarrow> GrpcServer \<Rightarrow> GrpcServer res" where
  "grpc_step ser LoopStarts s =
     (if gs_loop s = LoopLaunched
      then bind_res (PrepareCallData s) (\<lambda>s. Inr (s\<lparr> gs_loop := LoopHandling \<rparr>)) else Inr s)"
| "grpc_step ser LoopTurns s = (if gs_loop s = LoopHandling then HandleRpcs ser s else Inr s)"
| "grpc_step ser (CallArrives r) s = Inr (call_arrives r s)"
| "grpc_step ser (AnswerSent a ok) s = Inr (answer_sent a ok s)"
| "grpc_step ser ShutdownBegins s = Shutdown_begin s"
| "grpc_step ser ShutdownEnds s = Inr (Shutdown_end s)"

fun grpc_run :: "(GrpcRequest \<Rightarrow> string) \<Rightarrow> grpc_event list \<Rightarrow> GrpcServer \<Rightarrow> GrpcServer res" where
  "grpc_run ser [] s = Inr s"
| "grpc_run ser (e # es) s = bind_res (grpc_step ser e s) (grpc_run ser es)"

subsection \<open>What a server keeps\<close>

definition served_rpcs :: "Rpc list" where
  "served_rpcs = [Rpc_Propose, Rpc_ProposeAck, Rpc_Accept, Rpc_AcceptAck, Rpc_NewValueChosen]"

definition rpc_at :: "GrpcServer \<Rightarrow> nat \<Rightarrow> Rpc option" where
  "rpc_at s a = map_option cd_rpc (gs_calls s a)"

definition request_at :: "GrpcServer \<Rightarrow> nat \<Rightarrow> GrpcRequest option" where
  "request_at s a = map_option cd_request (gs_calls s a)"

text \<open>
  The typing of the state: every tag that gRPC holds is the address of an object, each address
  once, with the status that its place asks for, and the request of an object is of its rpc.
\<close>

definition well_typed :: "GrpcServer \<Rightarrow> bool" where
  "well_typed s \<longleftrightarrow>
     distinct (gs_waiting s @ gs_sending s @ map fst (gs_queue s)) \<and>
     (\<forall>a \<in> set (gs_waiting s). status_at s a = Some INITIALIZED) \<and>
     (\<forall>a \<in> set (gs_sending s). status_at s a = Some SERVED) \<and>
     (\<forall>a \<in> fst ` set (gs_queue s). status_at s a = Some INITIALIZED \<or> status_at s a = Some SERVED) \<and>
     (\<forall>a c. gs_calls s a = Some c \<longrightarrow>
        a < gs_next s \<and> PrepareRequest (cd_request c) = cd_rpc c \<and> cd_rpc c \<in> set served_rpcs \<and>
        cd_callback c = gs_callback s)"

definition in_order :: "GrpcServer \<Rightarrow> bool" where
  "in_order s \<longleftrightarrow> gs_server s \<and> gs_registered s \<and> (gs_down s \<longrightarrow> gs_waiting s = []) \<and>
     (gs_cq_closed s \<longrightarrow> gs_down s \<and> unanswered s = [] \<and> gs_sending s = [])"

text \<open>The objects that wait for a call or hold an unanswered one: one for each rpc that is served.\<close>

definition one_per_rpc :: "GrpcServer \<Rightarrow> bool" where
  "one_per_rpc s \<longleftrightarrow> (\<not> gs_down s \<longrightarrow>
     image_mset (rpc_at s) (mset (gs_waiting s @ unanswered s)) = mset (map Some served_rpcs))"

fun taken :: "GrpcAction list \<Rightarrow> GrpcRequest list" where
  "taken [] = []"
| "taken (RequestTaken r # as) = r # taken as"
| "taken (x # as) = taken as"

fun delivered :: "GrpcAction list \<Rightarrow> string list" where
  "delivered [] = []"
| "delivered (RequestDelivered d # as) = d # delivered as"
| "delivered (x # as) = delivered as"

fun answers :: "GrpcAction list \<Rightarrow> GrpcReply list" where
  "answers [] = []"
| "answers (RequestAnswered r # as) = r # answers as"
| "answers (x # as) = answers as"

lemma taken_append [simp]: "taken (xs @ ys) = taken xs @ taken ys"
  by (induction xs rule: taken.induct) simp_all

lemma delivered_append [simp]: "delivered (xs @ ys) = delivered xs @ delivered ys"
  by (induction xs rule: delivered.induct) simp_all

lemma answers_append [simp]: "answers (xs @ ys) = answers xs @ answers ys"
  by (induction xs rule: answers.induct) simp_all

text \<open>The requests taken are those that were delivered and answered, in order, and then the unanswered.\<close>

definition exactly_once :: "(GrpcRequest \<Rightarrow> string) \<Rightarrow> GrpcServer \<Rightarrow> bool" where
  "exactly_once ser s \<longleftrightarrow>
     (if gs_callback s
      then \<exists>served. map Some (taken (gs_trace s)) = map Some served @ map (request_at s) (unanswered s)
         \<and> delivered (gs_trace s) = map ser served
         \<and> answers (gs_trace s) = map (\<lambda>_. \<lparr> rp_ack = True, rp_sender_id = 0 \<rparr>) served
      else delivered (gs_trace s) = [] \<and> answers (gs_trace s) = [])"

lemmas state_at_defs = status_at_def rpc_at_def request_at_def

definition served_only :: "GrpcServer \<Rightarrow> bool" where
  "served_only s \<longleftrightarrow> (\<forall>r \<in> set (taken (gs_trace s)). PrepareRequest r \<in> set served_rpcs)"

definition sound :: "(GrpcRequest \<Rightarrow> string) \<Rightarrow> GrpcServer \<Rightarrow> bool" where
  "sound ser s \<longleftrightarrow> well_typed s \<and> in_order s \<and> one_per_rpc s \<and> exactly_once ser s \<and> served_only s"

lemma New_eq:
  assumes "rpc \<in> set served_rpcs" and "gs_server s" and "\<not> gs_cq_closed s"
  shows "CallDataManager_New rpc cb s = Inr (s\<lparr>
     gs_calls := (gs_calls s)(gs_next s \<mapsto> \<lparr> cd_rpc = rpc, cd_status = INITIALIZED, cd_request = empty_request rpc, cd_callback = cb \<rparr>),
     gs_next := Suc (gs_next s),
     gs_waiting := if gs_down s then gs_waiting s else gs_waiting s @ [gs_next s],
     gs_queue := if gs_down s then gs_queue s @ [(gs_next s, False)] else gs_queue s \<rparr>)"
  using assms
  by (simp add: CallDataManager_New_def CreateStatusFunc_def InitRequestState_def with_call_def set_status_def
      served_rpcs_def Let_def)

lemma PrepareRequest_empty [simp]: "PrepareRequest (empty_request rpc) = rpc"
  by (cases rpc) simp_all

text \<open>The state after a queued request was processed; \<open>b\<close> is the new object.\<close>

definition processed :: "(GrpcRequest \<Rightarrow> string) \<Rightarrow> nat \<Rightarrow> CallData \<Rightarrow> GrpcServer \<Rightarrow> GrpcServer" where
  "processed ser a c s =
     (let b = gs_next s;
          calls = (gs_calls s)(b \<mapsto> \<lparr> cd_rpc = cd_rpc c, cd_status = INITIALIZED,
                                 cd_request = empty_request (cd_rpc c), cd_callback = cd_callback c \<rparr>);
          t = s\<lparr> gs_next := Suc b,
                 gs_waiting := if gs_down s then gs_waiting s else gs_waiting s @ [b],
                 gs_queue := if gs_down s then gs_queue s @ [(b, False)] else gs_queue s \<rparr>
      in if cd_callback c
         then t\<lparr> gs_calls := calls(a \<mapsto> c\<lparr> cd_status := SERVED \<rparr>), gs_sending := gs_sending s @ [a],
                 gs_trace := gs_trace s @ [RequestDelivered (ser (cd_request c)),
                                           RequestAnswered \<lparr> rp_ack = True, rp_sender_id = 0 \<rparr>] \<rparr>
         else t\<lparr> gs_calls := calls(a := None), gs_loop := LoopEnded \<rparr>)"

lemma HandleRpcs_request:
  assumes "gs_queue s = (a, True) # q" and c: "gs_calls s a = Some c" "cd_status c = INITIALIZED"
    and "a < gs_next s" and "cd_rpc c \<in> set served_rpcs" and "gs_server s" and "\<not> gs_cq_closed s"
  shows "HandleRpcs ser s = Inr (processed ser a c (s\<lparr> gs_queue := q \<rparr>))"
proof -
  let ?s = "s\<lparr> gs_queue := q \<rparr>"
  have "a \<noteq> gs_next s" using assms(4) by simp
  have n: "CallDataManager_New (cd_rpc c) (cd_callback c) ?s = Inr (?s\<lparr>
     gs_calls := (gs_calls s)(gs_next s \<mapsto> \<lparr> cd_rpc = cd_rpc c, cd_status = INITIALIZED, cd_request = empty_request (cd_rpc c), cd_callback = cd_callback c \<rparr>),
     gs_next := Suc (gs_next s),
     gs_waiting := if gs_down s then gs_waiting s else gs_waiting s @ [gs_next s],
     gs_queue := if gs_down s then q @ [(gs_next s, False)] else q \<rparr>)"
    using assms New_eq [of "cd_rpc c" ?s "cd_callback c"] by simp
  then show ?thesis
    using assms \<open>a \<noteq> gs_next s\<close>
    by (simp add: HandleRpcs_def Procceed_def Proceed_def ProcessStatusFunc_def with_call_def HandleRequest_def
        responder_Finish_def set_status_def processed_def destroy_call_def Finished_def Let_def fun_upd_twist)
qed

lemma HandleRpcs_answered:
  assumes "gs_queue s = (a, True) # q" and c: "gs_calls s a = Some c" "cd_status c = SERVED"
  shows "HandleRpcs ser s = Inr (s\<lparr> gs_queue := q, gs_calls := (gs_calls s)(a := None) \<rparr>)"
  using assms
  by (simp add: HandleRpcs_def Procceed_def Proceed_def FinishStatusFunc_def with_call_def set_status_def
      destroy_call_def Finished_def)

lemma HandleRpcs_failed:
  "gs_queue s = (a, False) # q \<Longrightarrow> HandleRpcs ser s = Inr (s\<lparr> gs_queue := q \<rparr>)"
  by (simp add: HandleRpcs_def)

lemma unanswered_cong:
  assumes "gs_queue s = gs_queue t" and "\<And>x. x \<in> fst ` set (gs_queue s) \<Longrightarrow> status_at s x = status_at t x"
  shows "unanswered s = unanswered t"
proof -
  have "filter (\<lambda>(a, ok). ok \<and> status_at s a = Some INITIALIZED) q = filter (\<lambda>(a, ok). ok \<and> status_at t a = Some INITIALIZED) q"
    if "set q \<subseteq> set (gs_queue s)" for q
    using that assms(2) by (induction q) (auto split: prod.splits; force)+
  then show ?thesis using assms(1) by (simp add: unanswered_def)
qed

lemma set_unanswered: "set (unanswered s) \<subseteq> fst ` set (gs_queue s)"
  by (auto simp: unanswered_def)

subsection \<open>Every event keeps it\<close>

lemma at_update [simp]:
  "status_at (s\<lparr> gs_queue := q \<rparr>) = status_at s" "rpc_at (s\<lparr> gs_queue := q \<rparr>) = rpc_at s"
  "request_at (s\<lparr> gs_queue := q \<rparr>) = request_at s"
  by (auto simp: state_at_defs fun_eq_iff)

lemma exactly_once_frame:
  assumes "exactly_once ser s" and "gs_callback t = gs_callback s" and "gs_trace t = gs_trace s"
    and "map (request_at t) (unanswered t) = map (request_at s) (unanswered s)"
  shows "exactly_once ser t"
  using assms by (simp only: exactly_once_def)

lemma unanswered_simps:
  "unanswered (s\<lparr> gs_trace := tr \<rparr>) = unanswered s" "unanswered (s\<lparr> gs_loop := lp \<rparr>) = unanswered s"
  "unanswered (s\<lparr> gs_queue := [] \<rparr>) = []"
  "unanswered (s\<lparr> gs_queue := (a, ok) # q \<rparr>) =
     (if ok \<and> status_at s a = Some INITIALIZED then [a] else []) @ unanswered (s\<lparr> gs_queue := q \<rparr>)"
  "unanswered (s\<lparr> gs_queue := q @ q' \<rparr>) = unanswered (s\<lparr> gs_queue := q \<rparr>) @ unanswered (s\<lparr> gs_queue := q' \<rparr>)"
  by (simp_all add: unanswered_def status_at_def)

lemma unanswered_failed [simp]: "unanswered (s\<lparr> gs_queue := map (\<lambda>a. (a, False)) as \<rparr>) = []"
  by (induction as) (simp_all add: unanswered_simps)

lemma sound_failed:
  assumes "sound ser s" and "gs_queue s = (a, False) # q"
  shows "sound ser (s\<lparr> gs_queue := q \<rparr>)"
proof -
  have u: "unanswered (s\<lparr> gs_queue := q \<rparr>) = unanswered s" using assms(2) by (simp add: unanswered_def status_at_def)
  show ?thesis using assms by (auto simp: sound_def well_typed_def in_order_def one_per_rpc_def exactly_once_def served_only_def u)
qed

lemma sound_answered:
  assumes "sound ser s" and q: "gs_queue s = (a, True) # q" and c: "gs_calls s a = Some c" "cd_status c = SERVED"
  shows "sound ser (s\<lparr> gs_queue := q, gs_calls := (gs_calls s)(a := None) \<rparr>)"
    (is "sound ser ?t")
proof -
  from assms(1) have wt: "well_typed s" by (simp add: sound_def)
  then have a: "a \<notin> set (gs_waiting s)" "a \<notin> set (gs_sending s)" "a \<notin> fst ` set q" using q by (auto simp: well_typed_def)
  have at: "status_at ?t x = status_at s x" "rpc_at ?t x = rpc_at s x" "request_at ?t x = request_at s x" if "x \<noteq> a" for x
    using that by (simp_all add: state_at_defs)
  have "unanswered ?t = unanswered (s\<lparr> gs_queue := q \<rparr>)"
    using a at by (intro unanswered_cong) (auto simp: status_at_def)
  also have u: "\<dots> = unanswered s" using q c by (simp add: unanswered_def status_at_def)
  finally have u: "unanswered ?t = unanswered s" .
  have ua: "set (unanswered s) \<subseteq> fst ` set q" using set_unanswered [of ?t] u by simp
  have "x \<noteq> a" if "x \<in> set (gs_waiting s) \<or> x \<in> set (gs_sending s) \<or> x \<in> fst ` set q" for x using a that by blast
  then have wt': "well_typed ?t" using wt q at unfolding well_typed_def by (auto split: if_splits)
  have neq: "x \<noteq> a" if "x \<in> set (gs_waiting s) \<or> x \<in> set (unanswered s)" for x using ua a that by blast
  have "map (request_at ?t) (unanswered s) = map (request_at s) (unanswered s)"
    by (simp add: at(3) neq)
  moreover have "image_mset (rpc_at ?t) (mset (gs_waiting s @ unanswered s)) = image_mset (rpc_at s) (mset (gs_waiting s @ unanswered s))"
    using neq at(2) by (intro image_mset_cong) simp
  ultimately have "one_per_rpc ?t" and "exactly_once ser ?t"
    using assms(1) by (auto simp: sound_def one_per_rpc_def u intro: exactly_once_frame)
  then show ?thesis using assms(1) wt' by (auto simp: sound_def in_order_def served_only_def u)
qed

lemma sound_processed:
  assumes "sound ser s" and q: "gs_queue s = (a, True) # q" and c: "gs_calls s a = Some c" "cd_status c = INITIALIZED"
  shows "sound ser (processed ser a c (s\<lparr> gs_queue := q \<rparr>))" (is "sound ser ?t")
proof -
  let ?b = "gs_next s"
  from assms(1) have wt: "well_typed s" and io: "in_order s" and op: "one_per_rpc s" and eo: "exactly_once ser s"
    by (simp_all add: sound_def)
  have cc: "a < ?b" "PrepareRequest (cd_request c) = cd_rpc c" "cd_rpc c \<in> set served_rpcs" "cd_callback c = gs_callback s"
    using wt c(1) unfolding well_typed_def by blast+
  have a: "a \<notin> set (gs_waiting s)" "a \<notin> set (gs_sending s)" "a \<notin> fst ` set q" using wt q by (auto simp: well_typed_def)
  have ub: "status_at s ?b = None" using wt by (force simp: well_typed_def status_at_def)
  have held: "x \<noteq> ?b" if "x \<in> set (gs_waiting s) \<union> set (gs_sending s) \<union> fst ` set q" for x
  proof -
    from that wt q have "status_at s x \<noteq> None" unfolding well_typed_def by force
    with ub show ?thesis by auto
  qed
  have at: "status_at ?t x = status_at s x" "rpc_at ?t x = rpc_at s x" "request_at ?t x = request_at s x"
    if "x \<noteq> a" "x \<noteq> ?b" for x
    using that by (simp_all add: state_at_defs processed_def Let_def)
  have atb: "status_at ?t ?b = Some INITIALIZED" "rpc_at ?t ?b = Some (cd_rpc c)"
    using cc(1) by (simp_all add: state_at_defs processed_def Let_def)
  have ata: "status_at ?t a = (if cd_callback c then Some SERVED else None)" and ab: "a \<noteq> ?b"
    using cc(1) by (simp_all add: state_at_defs processed_def Let_def)
  have tq: "gs_queue ?t = q @ (if gs_down s then [(?b, False)] else [])" by (simp add: processed_def Let_def)
  let ?u = "unanswered (s\<lparr> gs_queue := q \<rparr>)"
  have u: "unanswered s = a # ?u" using q c by (simp add: unanswered_def status_at_def)
  have su: "set ?u \<subseteq> fst ` set q" using set_unanswered [of "s\<lparr> gs_queue := q \<rparr>"] by simp
  have nq: "x \<noteq> a" "x \<noteq> ?b" if "x \<in> fst ` set q" for x using that a held by blast+
  have ut: "unanswered ?t = ?u"
  proof -
    have "unanswered ?t = unanswered (?t\<lparr> gs_queue := q \<rparr>)" using tq by (simp add: unanswered_def status_at_def)
    also have "\<dots> = ?u" by (intro unanswered_cong) (simp_all add: at nq)
    finally show ?thesis .
  qed
  have neq: "x \<noteq> a" "x \<noteq> ?b" if "x \<in> set (gs_waiting s) \<union> set (gs_sending s) \<union> fst ` set q \<union> set ?u" for x
    using that a held su by blast+
  have "well_typed ?t"
  proof -
    have "distinct (gs_waiting ?t @ gs_sending ?t @ map fst (gs_queue ?t))"
      using wt q a held ab by (auto simp: well_typed_def processed_def Let_def)
    moreover have "\<forall>x \<in> set (gs_waiting ?t). status_at ?t x = Some INITIALIZED"
      using wt atb neq at by (auto simp: well_typed_def processed_def Let_def)
    moreover have "\<forall>x \<in> set (gs_sending ?t). status_at ?t x = Some SERVED"
      using wt neq at(1) ata by (auto simp: well_typed_def processed_def Let_def)
    moreover have "\<forall>x \<in> fst ` set (gs_queue ?t). status_at ?t x = Some INITIALIZED \<or> status_at ?t x = Some SERVED"
    proof
      fix x assume "x \<in> fst ` set (gs_queue ?t)"
      then have "x \<in> fst ` set q \<or> x = ?b" using tq by (auto split: if_splits)
      moreover have "status_at s x = Some INITIALIZED \<or> status_at s x = Some SERVED" if "x \<in> fst ` set q"
        using wt q that unfolding well_typed_def by auto
      ultimately show "status_at ?t x = Some INITIALIZED \<or> status_at ?t x = Some SERVED"
        using nq at(1) atb(1) by metis
    qed
    moreover have "\<forall>x d. gs_calls ?t x = Some d \<longrightarrow> x < gs_next ?t \<and> PrepareRequest (cd_request d) = cd_rpc d \<and>
        cd_rpc d \<in> set served_rpcs \<and> cd_callback d = gs_callback ?t"
      using wt cc by (auto simp: well_typed_def processed_def Let_def less_Suc_eq split: if_splits)
    ultimately show ?thesis unfolding well_typed_def by blast
  qed
  moreover have "in_order ?t" using io u ut by (auto simp: in_order_def processed_def Let_def)
  moreover have "one_per_rpc ?t"
  proof -
    have "rpc_at ?t x = rpc_at s x" if "x \<in># mset (gs_waiting s @ ?u)" for x
      using that neq [of x] at(2) [of x] by auto
    then have "image_mset (rpc_at ?t) (mset (gs_waiting s @ ?u)) = image_mset (rpc_at s) (mset (gs_waiting s @ ?u))"
      by (rule image_mset_cong)
    moreover have "rpc_at s a = Some (cd_rpc c)" using c by (simp add: rpc_at_def)
    ultimately show ?thesis using op u ut atb(2) by (auto simp: one_per_rpc_def processed_def Let_def)
  qed
  moreover have "exactly_once ser ?t"
  proof -
    have "map (request_at ?t) ?u = map (request_at s) ?u" by (simp add: at(3) neq)
    moreover have "request_at s a = Some (cd_request c)" using c by (simp add: request_at_def)
    moreover have "gs_callback s \<Longrightarrow> \<exists>served. map Some (taken (gs_trace s)) = map Some served @ map (request_at s) (unanswered s)
        \<and> delivered (gs_trace s) = map ser served
        \<and> answers (gs_trace s) = map (\<lambda>_. \<lparr> rp_ack = True, rp_sender_id = 0 \<rparr>) served"
      using eo by (simp add: exactly_once_def)
    then obtain served where "gs_callback s \<Longrightarrow> map Some (taken (gs_trace s)) = map Some served @ map (request_at s) (unanswered s)
        \<and> delivered (gs_trace s) = map ser served
        \<and> answers (gs_trace s) = map (\<lambda>_. \<lparr> rp_ack = True, rp_sender_id = 0 \<rparr>) served" by blast
    ultimately show ?thesis using eo u ut cc(4)
      by (auto simp: exactly_once_def processed_def Let_def intro!: exI [of _ "served @ [cd_request c]"])
  qed
  moreover have "served_only ?t" using assms(1) by (simp add: sound_def served_only_def processed_def Let_def)
  ultimately show ?thesis by (simp add: sound_def)
qed

lemma sound_call_arrives:
  assumes "sound ser s"
  shows "sound ser (call_arrives r s)"
proof (cases "find (waits_for s (PrepareRequest r)) (gs_waiting s)")
  case (Some a)
  let ?t = "call_arrives r s"
  from assms have wt: "well_typed s" and io: "in_order s" and op: "one_per_rpc s" and eo: "exactly_once ser s"
    by (simp_all add: sound_def)
  from Some have aw: "a \<in> set (gs_waiting s)" and "waits_for s (PrepareRequest r) a"
    by (auto simp: find_Some_iff)
  then obtain c where c: "gs_calls s a = Some c" "cd_rpc c = PrepareRequest r" by (auto simp: waits_for_def)
  have pr: "PrepareRequest r \<in> set served_rpcs" using wt c unfolding well_typed_def by metis
  have st: "status_at ?t = status_at s" "rpc_at ?t = rpc_at s" using Some c
    by (auto simp: call_arrives_def state_at_defs fun_eq_iff)
  have aq: "a \<notin> fst ` set (gs_queue s)" and ac: "status_at s a = Some INITIALIZED" using wt aw by (auto simp: well_typed_def)
  have u: "unanswered ?t = unanswered s @ [a]"
    using ac st(1) Some by (simp add: unanswered_def call_arrives_def)
  have ra: "request_at ?t x = (if x = a then Some r else request_at s x)" for x
    using Some c by (simp add: call_arrives_def request_at_def)
  have "a \<notin> set (unanswered s)" using set_unanswered [of s] aq by blast
  then have "map (request_at ?t) (unanswered s) = map (request_at s) (unanswered s)" by (auto simp: ra)
  moreover have "gs_trace ?t = gs_trace s @ [RequestTaken r]" "gs_callback ?t = gs_callback s"
    using Some by (simp_all add: call_arrives_def)
  ultimately have "exactly_once ser ?t" and "served_only ?t"
    using eo assms pr by (auto simp: exactly_once_def u ra served_only_def sound_def)
  moreover have "well_typed ?t"
  proof -
    have "distinct (gs_waiting ?t @ gs_sending ?t @ map fst (gs_queue ?t))"
      using wt Some aw aq by (auto simp: well_typed_def call_arrives_def distinct_remove1 dest: notin_set_remove1)
    moreover have "gs_waiting ?t = remove1 a (gs_waiting s)" "gs_sending ?t = gs_sending s"
      "gs_queue ?t = gs_queue s @ [(a, True)]" "gs_next ?t = gs_next s" "gs_callback ?t = gs_callback s"
      "gs_calls ?t = (gs_calls s)(a \<mapsto> c\<lparr> cd_request := r \<rparr>)"
      using Some c by (simp_all add: call_arrives_def)
    ultimately show ?thesis using wt aw ac c pr unfolding well_typed_def st
      by (auto dest: notin_set_remove1 in_set_remove1 [THEN iffD1, rotated])
  qed
  moreover have "in_order ?t" using io Some aw by (auto simp: in_order_def call_arrives_def)
  moreover have "one_per_rpc ?t"
  proof -
    have "mset (gs_waiting ?t @ unanswered ?t) = mset (gs_waiting s @ unanswered s)"
      using Some aw by (simp add: u) (simp add: call_arrives_def)
    moreover have "gs_down ?t = gs_down s" using Some by (simp add: call_arrives_def)
    ultimately show ?thesis using op by (simp only: one_per_rpc_def st)
  qed
  ultimately show ?thesis by (simp add: sound_def)
qed (use assms in \<open>simp add: call_arrives_def\<close>)

lemma sound_answer_sent:
  assumes "sound ser s"
  shows "sound ser (answer_sent a ok s)"
proof (cases "a \<in> set (gs_sending s)")
  case True
  let ?t = "answer_sent a ok s"
  from assms have wt: "well_typed s" by (simp add: sound_def)
  then have ac: "status_at s a = Some SERVED" using True by (simp add: well_typed_def)
  have st: "status_at ?t = status_at s" "rpc_at ?t = rpc_at s" "request_at ?t = request_at s"
    by (auto simp: answer_sent_def state_at_defs fun_eq_iff)
  have u: "unanswered ?t = unanswered s" using ac by (simp add: unanswered_def st) (simp add: answer_sent_def)
  have "distinct (gs_waiting ?t @ gs_sending ?t @ map fst (gs_queue ?t))"
    using wt True by (auto simp: well_typed_def answer_sent_def dest: notin_set_remove1)
  then have "well_typed ?t" using wt ac True
    unfolding well_typed_def by (auto simp: st) (auto simp: answer_sent_def dest: notin_set_remove1 split: if_splits)
  moreover have "in_order ?t" using assms u True by (auto simp: sound_def in_order_def answer_sent_def)
  moreover have "one_per_rpc ?t" using assms by (simp add: sound_def one_per_rpc_def u st) (simp add: answer_sent_def)
  moreover have "exactly_once ser ?t" using assms
    by (intro exactly_once_frame [of ser s ?t]) (simp_all add: sound_def u st, simp_all add: answer_sent_def)
  moreover have "served_only ?t" using assms by (simp add: sound_def served_only_def answer_sent_def)
  ultimately show ?thesis by (simp add: sound_def)
qed (use assms in \<open>simp add: answer_sent_def\<close>)

lemma sound_Shutdown_begin:
  assumes "sound ser s"
  shows "\<exists>t. Shutdown_begin s = Inr t \<and> sound ser t"
proof (cases "gs_running s")
  case True
  define t where "t = s\<lparr> gs_down := True, gs_queue := gs_queue s @ map (\<lambda>a. (a, False)) (gs_waiting s), gs_waiting := [] \<rparr>"
  have st: "status_at t = status_at s" "rpc_at t = rpc_at s" "request_at t = request_at s"
    by (auto simp: t_def state_at_defs fun_eq_iff)
  have u: "unanswered t = unanswered s"
    by (simp add: unanswered_def st) (simp add: t_def filter_map o_def)
  have f: "gs_waiting t = []" "gs_queue t = gs_queue s @ map (\<lambda>a. (a, False)) (gs_waiting s)" "gs_sending t = gs_sending s"
    "gs_calls t = gs_calls s" "gs_next t = gs_next s" "gs_callback t = gs_callback s" "gs_trace t = gs_trace s"
    "gs_down t" "gs_server t = gs_server s" "gs_registered t = gs_registered s" "gs_cq_closed t = gs_cq_closed s"
    by (simp_all add: t_def)
  have wt: "well_typed s" using assms by (simp add: sound_def)
  then have "distinct (gs_waiting t @ gs_sending t @ map fst (gs_queue t))" by (auto simp: well_typed_def f o_def)
  moreover have "fst ` set (gs_queue t) = fst ` set (gs_queue s) \<union> set (gs_waiting s)"
    by (simp add: f image_Un image_image)
  ultimately have "well_typed t" using wt unfolding well_typed_def st
    by (simp only: f(1,3,4,5,6) ball_Un list.set) simp
  moreover have "exactly_once ser s" using assms by (simp add: sound_def)
  then have "exactly_once ser t" by (rule exactly_once_frame [OF _ f(6,7)]) (simp only: u st)
  moreover have "in_order t" "one_per_rpc t" "served_only t" using assms
    by (simp_all add: sound_def in_order_def one_per_rpc_def served_only_def u f)
  ultimately have "sound ser t" by (simp add: sound_def)
  then show ?thesis using True assms by (simp add: Shutdown_begin_def sound_def in_order_def t_def)
qed (use assms in \<open>simp add: Shutdown_begin_def\<close>)

lemma sound_Shutdown_end:
  assumes "sound ser s"
  shows "sound ser (Shutdown_end s)"
proof (cases "gs_running s \<and> gs_down s \<and> unanswered s = [] \<and> gs_sending s = []")
  case True
  let ?t = "s\<lparr> gs_cq_closed := True, gs_running := False \<rparr>"
  have st: "status_at ?t = status_at s" "rpc_at ?t = rpc_at s" "request_at ?t = request_at s"
    by (auto simp: state_at_defs fun_eq_iff)
  then have u: "unanswered ?t = unanswered s" by (simp add: unanswered_def)
  have "well_typed ?t" using assms unfolding sound_def well_typed_def st by simp
  moreover have "exactly_once ser ?t" using assms by (auto simp: sound_def u st intro: exactly_once_frame)
  ultimately show ?thesis using assms True by (simp add: Shutdown_end_def sound_def in_order_def one_per_rpc_def served_only_def u st)
qed (use assms in \<open>auto simp: Shutdown_end_def\<close>)

lemma sound_loop [simp]: "sound ser (s\<lparr> gs_loop := l \<rparr>) = sound ser s"
proof -
  have st: "status_at (s\<lparr> gs_loop := l \<rparr>) = status_at s" "rpc_at (s\<lparr> gs_loop := l \<rparr>) = rpc_at s"
    "request_at (s\<lparr> gs_loop := l \<rparr>) = request_at s" by (auto simp: state_at_defs fun_eq_iff)
  show ?thesis
    by (simp add: sound_def well_typed_def in_order_def one_per_rpc_def exactly_once_def served_only_def st unanswered_simps)
qed

lemma sound_HandleRpcs:
  assumes "sound ser s"
  shows "\<exists>t. HandleRpcs ser s = Inr t \<and> sound ser t \<and> gs_callback t = gs_callback s \<and>
    (gs_loop t = gs_loop s \<or> gs_loop t = LoopEnded) \<and> taken (gs_trace t) = taken (gs_trace s) \<and>
    (\<exists>l. gs_queue t = tl (gs_queue s) @ l \<and> (\<forall>x \<in> set l. \<not> snd x)) \<and>
    (gs_callback s \<longrightarrow> gs_queue s \<noteq> [] \<longrightarrow> gs_loop t = gs_loop s) \<and>
    gs_cq_closed t = gs_cq_closed s \<and> (gs_callback s \<longrightarrow> gs_loop t = gs_loop s \<or> gs_cq_closed s)"
proof (cases "gs_queue s")
  case Nil
  then show ?thesis using assms by (simp add: HandleRpcs_def)
next
  case (Cons p q)
  obtain a ok where p: "p = (a, ok)" by (cases p)
  from assms have wt: "well_typed s" and io: "in_order s" by (simp_all add: sound_def)
  have "status_at s a = Some INITIALIZED \<or> status_at s a = Some SERVED"
    using wt Cons p by (simp add: well_typed_def)
  then obtain c where c: "gs_calls s a = Some c" and st: "cd_status c = INITIALIZED \<or> cd_status c = SERVED"
    by (auto simp: status_at_def)
  have q: "gs_queue s = (a, ok) # q" using Cons p by simp
  consider "\<not> ok" | "ok" "cd_status c = SERVED" | "ok" "cd_status c = INITIALIZED" using st by blast
  then show ?thesis
  proof cases
    case 1
    then show ?thesis using q assms sound_failed [of ser s a q] HandleRpcs_failed [of s a q] by simp
  next
    case 2
    then show ?thesis using q c assms sound_answered [of ser s a q c] HandleRpcs_answered [of s a q c] by simp
  next
    case 3
    then have "unanswered s \<noteq> []" using q c by (simp add: unanswered_def status_at_def)
    then have "\<not> gs_cq_closed s" "gs_server s" using io by (auto simp: in_order_def)
    moreover have "a < gs_next s" "cd_rpc c \<in> set served_rpcs" "cd_callback c = gs_callback s"
      using wt c unfolding well_typed_def by blast+
    ultimately show ?thesis
      using 3 q c assms sound_processed [of ser s a q c] HandleRpcs_request [of s a q c ser]
      by (auto simp: processed_def Let_def intro!: exI [of _ "if gs_down s then [(gs_next s, False)] else []"])
  qed
qed

definition alive :: "GrpcServer \<Rightarrow> bool" where
  "alive s \<longleftrightarrow> gs_loop s \<noteq> LoopLaunched \<and> (gs_callback s \<longrightarrow> gs_loop s = LoopHandling \<or> gs_cq_closed s)"

lemma sound_step:
  assumes "sound ser s" and "alive s"
  shows "\<exists>t. grpc_step ser e s = Inr t \<and> sound ser t \<and> alive t \<and> gs_callback t = gs_callback s"
proof (cases e)
  case LoopTurns
  obtain t where "HandleRpcs ser s = Inr t" "sound ser t" "gs_callback t = gs_callback s"
    "gs_loop t = gs_loop s \<or> gs_loop t = LoopEnded" "gs_cq_closed t = gs_cq_closed s"
    "gs_callback s \<longrightarrow> gs_loop t = gs_loop s \<or> gs_cq_closed s"
    using sound_HandleRpcs [OF assms(1)] by blast
  then show ?thesis using LoopTurns assms by (auto simp: alive_def)
next
  case (CallArrives r)
  then show ?thesis using assms sound_call_arrives by (simp add: alive_def call_arrives_def split: option.split)
next
  case (AnswerSent a ok)
  then show ?thesis using assms sound_answer_sent [OF assms(1), of a ok] by (simp add: alive_def answer_sent_def)
next
  case ShutdownBegins
  moreover have "Shutdown_begin s = Inr t \<Longrightarrow> gs_loop t = gs_loop s \<and> gs_callback t = gs_callback s \<and> gs_cq_closed t = gs_cq_closed s" for t
    by (auto simp: Shutdown_begin_def split: if_splits)
  ultimately show ?thesis using assms sound_Shutdown_begin [OF assms(1)] by (force simp: alive_def)
next
  case ShutdownEnds
  then show ?thesis using assms sound_Shutdown_end [OF assms(1)] by (auto simp: alive_def Shutdown_end_def)
qed (use assms in \<open>simp add: alive_def\<close>)

lemma sound_run:
  assumes "sound ser s" and "alive s"
  shows "\<exists>t. grpc_run ser evs s = Inr t \<and> sound ser t \<and> alive t \<and> gs_callback t = gs_callback s"
  using assms
proof (induction evs arbitrary: s)
  case (Cons e evs)
  from sound_step [OF Cons.prems, of e] obtain t where
    "grpc_step ser e s = Inr t" "sound ser t" "alive t" "gs_callback t = gs_callback s" by blast
  with Cons.IH [of t] show ?case by auto
qed simp

text \<open>The server after \<open>Start\<close> and the first step of its loop.\<close>

definition waiting_call :: "bool \<Rightarrow> Rpc \<Rightarrow> CallData" where
  "waiting_call cb rpc = \<lparr> cd_rpc = rpc, cd_status = INITIALIZED, cd_request = empty_request rpc, cd_callback = cb \<rparr>"

definition prepared :: "bool \<Rightarrow> GrpcServer" where
  "prepared cb = new_GrpcServer\<lparr> gs_registered := True, gs_server := True, gs_callback := cb, gs_loop := LoopHandling,
     gs_running := True, gs_next := 5, gs_waiting := [0, 1, 2, 3, 4],
     gs_calls := [0 \<mapsto> waiting_call cb Rpc_Propose, 1 \<mapsto> waiting_call cb Rpc_ProposeAck, 2 \<mapsto> waiting_call cb Rpc_Accept,
       3 \<mapsto> waiting_call cb Rpc_AcceptAck, 4 \<mapsto> waiting_call cb Rpc_NewValueChosen] \<rparr>"

lemma start_prepares:
  "\<exists>s. Grpc_Start True cb new_GrpcServer = Inr s \<and> grpc_step ser LoopStarts s = Inr (prepared cb)"
  by (simp add: Grpc_Start_def new_GrpcServer_def PrepareCallData_def New_eq served_rpcs_def prepared_def waiting_call_def
      numeral_eq_Suc)

lemma sound_prepared: "sound ser (prepared cb)"
proof -
  have "unanswered (prepared cb) = []" by (simp add: unanswered_def prepared_def new_GrpcServer_def)
  then show ?thesis
    by (auto simp: sound_def well_typed_def in_order_def one_per_rpc_def exactly_once_def served_only_def
        prepared_def new_GrpcServer_def state_at_defs waiting_call_def served_rpcs_def split: if_splits)
qed

lemma grpc_run_append: "grpc_run ser (es @ fs) s = bind_res (grpc_run ser es s) (grpc_run ser fs)"
proof (induction es arbitrary: s)
  case (Cons e es)
  then show ?case by (cases "grpc_step ser e s") simp_all
qed simp

text \<open>As many turns as the queue is long leave nothing unanswered.\<close>

lemma loop_drains:
  assumes "sound ser s" and "gs_callback s"
    and "gs_loop s = LoopHandling \<and> (\<forall>x \<in> set (drop n (gs_queue s)). \<not> snd x) \<or> gs_loop s \<noteq> LoopHandling \<and> unanswered s = []"
  shows "\<exists>t. grpc_run ser (replicate n LoopTurns) s = Inr t \<and> sound ser t \<and> gs_callback t \<and> unanswered t = [] \<and>
    taken (gs_trace t) = taken (gs_trace s)"
  using assms
proof (induction n arbitrary: s)
  case 0
  have "unanswered s = []" if "\<forall>x \<in> set (gs_queue s). \<not> snd x" using that by (auto simp: unanswered_def filter_empty_conv)
  with 0 show ?case by auto
next
  case (Suc n)
  show ?case
  proof (cases "gs_loop s = LoopHandling")
    case True
    from sound_HandleRpcs [OF Suc.prems(1)] obtain t l where t: "HandleRpcs ser s = Inr t" "sound ser t"
      "gs_callback t" "taken (gs_trace t) = taken (gs_trace s)" "gs_queue t = tl (gs_queue s) @ l" "\<forall>x \<in> set l. \<not> snd x"
      and lp: "gs_loop t = gs_loop s \<or> gs_loop t = LoopEnded" "gs_queue s \<noteq> [] \<longrightarrow> gs_loop t = gs_loop s"
      using Suc.prems(2) by auto
    have "gs_loop t = LoopHandling \<and> (\<forall>x \<in> set (drop n (gs_queue t)). \<not> snd x) \<or> gs_loop t \<noteq> LoopHandling \<and> unanswered t = []"
    proof (cases "gs_queue s")
      case Nil
      then have "\<forall>x \<in> set (gs_queue t). \<not> snd x" using t by simp
      then show ?thesis by (auto simp: unanswered_def filter_empty_conv dest: in_set_dropD)
    next
      case (Cons x q)
      then show ?thesis using t lp True Suc.prems(3) by (auto dest: in_set_dropD)
    qed
    from Suc.IH [OF t(2,3) this] t True show ?thesis by auto
  next
    case False
    with Suc.IH [of s] Suc.prems show ?thesis by auto
  qed
qed

lemma call_arrives_prepared:
  assumes "PrepareRequest r \<in> set served_rpcs"
  shows "\<exists>a c t. call_arrives r (prepared cb) = t \<and> gs_queue t = [(a, True)] \<and> gs_calls t a = Some c \<and> a < gs_next t \<and>
    cd_status c = INITIALIZED \<and> cd_callback c = cb \<and> cd_rpc c \<in> set served_rpcs \<and> gs_trace t = [RequestTaken r] \<and>
    gs_server t \<and> \<not> gs_cq_closed t \<and> gs_running t \<and> gs_loop t = LoopHandling"
  using assms
  by (auto simp: served_rpcs_def call_arrives_def prepared_def new_GrpcServer_def waits_for_def waiting_call_def)

lemma early_shutdown_aborts:
  "\<exists>s. Grpc_Start True cb new_GrpcServer = Inr s \<and> grpc_run ser [ShutdownBegins, ShutdownEnds, LoopStarts] s = Inl AssertFailed"
  by (simp add: Grpc_Start_def new_GrpcServer_def Shutdown_begin_def Shutdown_end_def unanswered_def PrepareCallData_def
      CallDataManager_New_def CreateStatusFunc_def InitRequestState_def with_call_def Let_def)

lemma second_start_aborts:
  "\<exists>s. Grpc_Start bound cb new_GrpcServer = Inr s \<and> Grpc_Start bound' cb' s = Inl AssertFailed"
  by (simp add: Grpc_Start_def new_GrpcServer_def)

subsection \<open>What a server does\<close>

text \<open>
  C12. The objects and tags of a started server stay typed. Whatever events come in whatever
  order, no operation touches an object that is gone: every tag that gRPC holds, or that waits
  in the completion queue, is the address of a live object of the status that is expected there,
  no tag is held twice, and every request is of its object's rpc; and until the shutdown exactly
  one object per served rpc waits for a call or holds an unanswered one.
\<close>

theorem grpc_tags_stay_typed:
  "\<exists>s t. Grpc_Start True cb new_GrpcServer = Inr s \<and> grpc_run ser (LoopStarts # evs) s = Inr t \<and>
     well_typed t \<and> one_per_rpc t"
proof -
  obtain s where "Grpc_Start True cb new_GrpcServer = Inr s" "grpc_step ser LoopStarts s = Inr (prepared cb)"
    using start_prepares by blast
  moreover have "alive (prepared cb)" by (simp add: prepared_def alive_def)
  ultimately show ?thesis using sound_run [OF sound_prepared, of cb ser evs] by (auto simp: sound_def)
qed

text \<open>
  C13. A server delivers every request once and in order. The requests that calls brought are
  at every moment those that were handed to the callback, serialised, and answered with an
  acknowledgement, in the order of the calls, followed by those still unanswered; and when the
  loop then turns once for each entry of the queue, nothing is left unanswered.
\<close>

theorem grpc_delivers_exactly_once:
  "\<exists>s t u. Grpc_Start True True new_GrpcServer = Inr s \<and> grpc_run ser (LoopStarts # evs) s = Inr t \<and> exactly_once ser t \<and>
     grpc_run ser (LoopStarts # evs @ replicate (length (gs_queue t)) LoopTurns) s = Inr u \<and>
     taken (gs_trace u) = taken (gs_trace t) \<and> delivered (gs_trace u) = map ser (taken (gs_trace t))"
proof -
  obtain s where s: "Grpc_Start True True new_GrpcServer = Inr s" "grpc_step ser LoopStarts s = Inr (prepared True)"
    using start_prepares by blast
  have p: "alive (prepared True)" "gs_callback (prepared True)" by (simp_all add: prepared_def alive_def)
  with sound_run [OF sound_prepared, of True ser evs] obtain t where
    t: "grpc_run ser evs (prepared True) = Inr t" "sound ser t" "gs_callback t" "alive t" by auto
  then have "gs_loop t = LoopHandling \<or> unanswered t = []" by (auto simp: alive_def sound_def in_order_def)
  then obtain u where u: "grpc_run ser (replicate (length (gs_queue t)) LoopTurns) t = Inr u" "sound ser u" "gs_callback u"
    "unanswered u = []" "taken (gs_trace u) = taken (gs_trace t)"
    using loop_drains [OF t(2,3), of "length (gs_queue t)"] by auto
  then have "delivered (gs_trace u) = map ser (taken (gs_trace t))"
    by (auto simp: sound_def exactly_once_def inj_map_eq_map)
  then show ?thesis using s t u by (auto simp: grpc_run_append sound_def)
qed

text \<open>
  A server without a callback dies of its first request: the first request of a served rpc ends the
  loop with the exception of the empty function, and whatever happens after it nothing is delivered
  and no call is answered, while the server still says that it runs until it is shut down.
\<close>

lemma grpc_dies_without_callback:
  assumes "PrepareRequest r \<in> set served_rpcs"
  shows "\<exists>s t u. Grpc_Start True False new_GrpcServer = Inr s \<and>
     grpc_run ser [LoopStarts, CallArrives r, LoopTurns] s = Inr t \<and> gs_loop t = LoopEnded \<and> Grpc_Running t \<and>
     grpc_run ser evs t = Inr u \<and> delivered (gs_trace u) = [] \<and> answers (gs_trace u) = []"
proof -
  obtain s where s: "Grpc_Start True False new_GrpcServer = Inr s" "grpc_step ser LoopStarts s = Inr (prepared False)"
    using start_prepares by blast
  have "alive (prepared False)" "gs_callback (prepared False) = False" by (simp_all add: prepared_def alive_def)
  with sound_run [OF sound_prepared, of False ser "[CallArrives r, LoopTurns]"] obtain t where
    t: "grpc_run ser [CallArrives r, LoopTurns] (prepared False) = Inr t" "sound ser t" "\<not> gs_callback t" "alive t" by auto
  obtain a c where c: "gs_queue (call_arrives r (prepared False)) = [(a, True)]" "gs_calls (call_arrives r (prepared False)) a = Some c"
    "cd_status c = INITIALIZED" "\<not> cd_callback c" "gs_running (call_arrives r (prepared False))"
    "HandleRpcs ser (call_arrives r (prepared False)) = Inr (processed ser a c (call_arrives r (prepared False)\<lparr> gs_queue := [] \<rparr>))"
    "gs_loop (call_arrives r (prepared False)) = LoopHandling"
    using call_arrives_prepared [OF assms, of False] HandleRpcs_request by force
  then have "gs_loop t = LoopEnded \<and> gs_running t" using t(1) by (auto simp: processed_def Let_def)
  moreover obtain u where "grpc_run ser evs t = Inr u" "sound ser u" "\<not> gs_callback u"
    using sound_run [OF t(2,4), of evs] t(3) by auto
  ultimately show ?thesis using s t by (auto simp: sound_def exactly_once_def Grpc_Running_def)
qed

lemma ack_request_without_round:
  assumes "pod_messageType m = PodMsgType_value kPOD_MSG_PROPOSE_ACK \<or> pod_messageType m = PodMsgType_value kPOD_MSG_ACCEPT_ACK"
  shows "GrpcClient_Send out (m\<lparr> pod_proposalId := x, pod_proposingNodeId := y \<rparr>) = GrpcClient_Send out m"
  using assms by (auto simp: GrpcClient_Send_def)

text \<open>In some run of a started server the request that a client sends for the message is taken.\<close>

definition gets_through :: "(GrpcRequest \<Rightarrow> string) \<Rightarrow> bool \<Rightarrow> PodMsg \<Rightarrow> bool" where
  "gets_through ser cb m \<longleftrightarrow> (\<exists>out k r evs s t. fst (GrpcClient_Send out m) = Some (k, r) \<and>
     Grpc_Start True cb new_GrpcServer = Inr s \<and> grpc_run ser (LoopStarts # evs) s = Inr t \<and>
     r \<in> set (taken (gs_trace t)))"

lemma taken_iff_served:
  assumes "Grpc_Start True cb new_GrpcServer = Inr s"
  shows "(\<exists>evs t. grpc_run ser (LoopStarts # evs) s = Inr t \<and> r \<in> set (taken (gs_trace t))) \<longleftrightarrow> PrepareRequest r \<in> set served_rpcs"
    (is "?l \<longleftrightarrow> ?r")
proof
  have s: "grpc_step ser LoopStarts s = Inr (prepared cb)" using start_prepares [of cb ser] assms by auto
  have al: "alive (prepared cb)" by (simp add: prepared_def alive_def)
  show ?r if ?l
  proof -
    from that s obtain evs t where "grpc_run ser evs (prepared cb) = Inr t" "r \<in> set (taken (gs_trace t))" by auto
    then show ?thesis using sound_run [OF sound_prepared al, of ser evs] by (auto simp: sound_def served_only_def)
  qed
  show ?l if ?r
  proof -
    from that have "gs_trace (call_arrives r (prepared cb)) = [RequestTaken r]" using call_arrives_prepared by blast
    then show ?thesis using s by (intro exI [of _ "[CallArrives r]"]) simp
  qed
qed

text \<open>
  C29. Of all messages only the two kinds of acknowledgements can get through gRPC. A request that
  the client sends for a message is taken by a started server, in some run, exactly when the
  message is the answer to a prepare or to an accept request: proposals, accept requests and chosen
  values, which the server would take, are never sent, and the learners' messages are
  sent and never taken. And what the network hands to its clients is of neither kind: \<open>Send\<close>
  sends nothing and returns false.
\<close>

theorem grpc_carries_only_acks:
  "(gets_through ser cb m \<longleftrightarrow> pod_messageType m = PodMsgType_value kPOD_MSG_PROPOSE_ACK \<or>
      pod_messageType m = PodMsgType_value kPOD_MSG_ACCEPT_ACK) \<and>
   GrpcClient_Send out (PODMessage p) = (None, Some (Inr False))"
proof -
  obtain s where s: "Grpc_Start True cb new_GrpcServer = Inr s" using start_prepares by blast
  have "gets_through ser cb m \<longleftrightarrow> (\<exists>out k r. fst (GrpcClient_Send out m) = Some (k, r) \<and>
      (\<exists>evs t. grpc_run ser (LoopStarts # evs) s = Inr t \<and> r \<in> set (taken (gs_trace t))))"
    using s unfolding gets_through_def by auto
  also have "\<dots> \<longleftrightarrow> (\<exists>out k r. fst (GrpcClient_Send out m) = Some (k, r) \<and> PrepareRequest r \<in> set served_rpcs)"
    by (simp only: taken_iff_served [OF s])
  also have "\<dots> \<longleftrightarrow> pod_messageType m = PodMsgType_value kPOD_MSG_PROPOSE_ACK \<or> pod_messageType m = PodMsgType_value kPOD_MSG_ACCEPT_ACK"
    by (auto simp: GrpcClient_Send_def AsyncCall_def served_rpcs_def Let_def)
  finally show ?thesis by (simp add: GrpcClient_Send_def PODMessage_def Let_def)
qed

end
