(* ===== verification/Io_Messages.thy ===== *)
theory Io_Messages
  imports Pax_Prelude
begin

section \<open>Messages, queue and handshake of the Asio templates (network/asio/include/io_client_server.hpp)\<close>

text \<open>
  A message is a header, an identifier and the size of the body, and a body of bytes that is used
  as a stack of plain objects; an object is its bytes. The templates are taken at an identifier
  that is an enumeration of 32 bits, so a header is eight bytes. \<open>tsqueue\<close> is a deque under a mutex,
  one call is one step; \<open>wait\<close> takes two mutexes in turn and is a step relation.
\<close>

record IoMessage =
  io_id :: u32
  io_size :: u32
  io_body :: string

definition message_size :: "IoMessage \<Rightarrow> nat" where
  "message_size m = length (io_body m)"

definition new_message :: "u32 \<Rightarrow> IoMessage" where
  "new_message i = \<lparr> io_id = i, io_size = 0, io_body = [] \<rparr>"

text \<open>\<open>operator<<\<close> copies the bytes of an object to the end, \<open>operator>>\<close> takes as many off the end.\<close>

definition push_object :: "string \<Rightarrow> IoMessage \<Rightarrow> IoMessage" where
  "push_object d m =
     (let m = m\<lparr> io_body := io_body m @ d \<rparr> in m\<lparr> io_size := of_nat (message_size m) \<rparr>)"

definition pop_object :: "nat \<Rightarrow> IoMessage \<Rightarrow> (string \<times> IoMessage) res" where
  "pop_object n m =
     (if length (io_body m) < n then Inl OutOfBounds
      else let i = length (io_body m) - n;
               d = drop i (io_body m);
               m = m\<lparr> io_body := take i (io_body m) \<rparr>
           in Inr (d, m\<lparr> io_size := of_nat (message_size m) \<rparr>))"

text \<open>A header that tells the size.\<close>

definition sized :: "IoMessage \<Rightarrow> bool" where
  "sized m \<longleftrightarrow> io_size m = of_nat (length (io_body m))"

lemma sized_new [simp]: "sized (new_message i)"
  by (simp add: sized_def new_message_def)

lemma sized_push [simp]: "sized (push_object d m)"
  by (simp add: sized_def push_object_def message_size_def Let_def)

lemma pop_push: "sized m \<Longrightarrow> pop_object (length d) (push_object d m) = Inr (d, m)"
  by (simp add: pop_object_def push_object_def message_size_def sized_def Let_def)

fun pop_objects :: "nat list \<Rightarrow> IoMessage \<Rightarrow> (string list \<times> IoMessage) res" where
  "pop_objects [] m = Inr ([], m)"
| "pop_objects (n # ns) m =
     bind_res (pop_object n m) (\<lambda>(d, m). bind_res (pop_objects ns m) (\<lambda>(ds, m). Inr (d # ds, m)))"

lemma pop_objects_push:
  "sized m \<Longrightarrow> pop_objects (map length (rev ds)) (fold push_object ds m) = Inr (rev ds, m)"
proof (induction ds rule: rev_induct)
  case (snoc d ds)
  have "sized (fold push_object ds m)" by (induction ds rule: rev_induct) (use snoc.prems in simp_all)
  with snoc show ?case by (simp add: pop_push)
qed simp

text \<open>
  The body of a message is a stack. Objects that are pushed come off in the opposite order with
  the bytes they had, the message is then what it was, and its header tells the
  size of the body all along; taking more off than there is reads outside of the body.
\<close>

theorem message_is_a_stack:
  "pop_objects (map length (rev ds)) (fold push_object ds (new_message i)) = Inr (rev ds, new_message i) \<and>
   sized (fold push_object ds (new_message i)) \<and>
   pop_object (Suc (length (concat ds))) (fold push_object ds (new_message i)) = Inl OutOfBounds"
proof -
  have "io_body (fold push_object ds m) = io_body m @ concat ds" for m
    by (induction ds arbitrary: m) (simp_all add: push_object_def Let_def)
  moreover have "sized (fold push_object ds (new_message i))"
    by (induction ds rule: rev_induct) simp_all
  ultimately show ?thesis using pop_objects_push [OF sized_new] by (simp add: pop_object_def new_message_def)
qed

subsection \<open>tsqueue\<close>

definition ts_front :: "'a list \<Rightarrow> 'a res" where
  "ts_front q = (case q of [] \<Rightarrow> Inl EmptyAccess | x # xs \<Rightarrow> Inr x)"

definition ts_back :: "'a list \<Rightarrow> 'a res" where
  "ts_back q = (if q = [] then Inl EmptyAccess else Inr (last q))"

definition ts_pop_front :: "'a list \<Rightarrow> ('a \<times> 'a list) res" where
  "ts_pop_front q = (case q of [] \<Rightarrow> Inl EmptyAccess | x # xs \<Rightarrow> Inr (x, xs))"

definition ts_pop_back :: "'a list \<Rightarrow> ('a \<times> 'a list) res" where
  "ts_pop_back q = (if q = [] then Inl EmptyAccess else Inr (last q, butlast q))"

definition ts_push_back :: "'a \<Rightarrow> 'a list \<Rightarrow> 'a list" where
  "ts_push_back x q = q @ [x]"

definition ts_push_front :: "'a \<Rightarrow> 'a list \<Rightarrow> 'a list" where
  "ts_push_front x q = x # q"

definition ts_empty :: "'a list \<Rightarrow> bool" where
  "ts_empty q \<longleftrightarrow> q = []"

definition ts_count :: "'a list \<Rightarrow> nat" where
  "ts_count q = length q"

definition ts_clear :: "'a list \<Rightarrow> 'a list" where
  "ts_clear q = []"

text \<open>
  \<open>while (empty()) { lock(muxBlocking); cvBlocking.wait }\<close> with one waiting thread. \<open>push_back\<close>
  notifies who waits at that moment; a wait may also end by itself.
\<close>

datatype waiter = Checking | SawEmpty | Waiting | Done

record 'a TsState =
  ts_queue :: "'a list"
  ts_waiter :: waiter

inductive ts_step :: "'a TsState \<Rightarrow> 'a TsState \<Rightarrow> bool" where
  check_empty: "ts_waiter s = Checking \<Longrightarrow> ts_empty (ts_queue s) \<Longrightarrow> ts_step s (s\<lparr> ts_waiter := SawEmpty \<rparr>)"
| check_full: "ts_waiter s = Checking \<Longrightarrow> \<not> ts_empty (ts_queue s) \<Longrightarrow> ts_step s (s\<lparr> ts_waiter := Done \<rparr>)"
| sleep: "ts_waiter s = SawEmpty \<Longrightarrow> ts_step s (s\<lparr> ts_waiter := Waiting \<rparr>)"
| push: "ts_step s (s\<lparr> ts_queue := ts_push_back x (ts_queue s),
            ts_waiter := if ts_waiter s = Waiting then Checking else ts_waiter s \<rparr>)"
| spurious: "ts_waiter s = Waiting \<Longrightarrow> ts_step s (s\<lparr> ts_waiter := Checking \<rparr>)"

inductive_cases ts_stepE: "ts_step s t"

definition ts_init :: "'a TsState" where
  "ts_init = \<lparr> ts_queue = [], ts_waiter = Checking \<rparr>"

lemma ts_reachable_done: "ts_step\<^sup>*\<^sup>* ts_init s \<Longrightarrow> ts_waiter s = Done \<Longrightarrow> ts_queue s \<noteq> []"
proof (induction rule: rtranclp_induct)
  case (step s t)
  then show ?case by (auto elim!: ts_stepE simp: ts_empty_def ts_push_back_def split: if_splits)
qed (simp add: ts_init_def)

text \<open>
  \<open>wait\<close> returns only when there is an element, but it can miss one: when an element is pushed
  between the look at the queue and the wait for a notification, the thread
  waits with an element in the queue; then only another push, or a wake-up without reason, ends the wait.
\<close>

theorem wait_can_miss_a_push:
  "(\<forall>s :: 'a TsState. ts_step\<^sup>*\<^sup>* ts_init s \<and> ts_waiter s = Done \<longrightarrow> ts_queue s \<noteq> []) \<and>
   (\<exists>s :: 'a TsState. ts_step\<^sup>*\<^sup>* ts_init s \<and> ts_queue s = [x] \<and> ts_waiter s = Waiting \<and>
      (\<forall>t. ts_step s t \<longrightarrow> t = s\<lparr> ts_waiter := Checking \<rparr> \<or> (\<exists>y. ts_queue t = [x, y] \<and> ts_waiter t = Checking)))"
proof -
  let ?e = "ts_init\<lparr> ts_waiter := SawEmpty \<rparr> :: 'a TsState"
  let ?p = "?e\<lparr> ts_queue := [x] \<rparr>"
  let ?s = "?p\<lparr> ts_waiter := Waiting \<rparr>"
  have "ts_step ts_init ?e" by (rule check_empty) (simp_all add: ts_init_def ts_empty_def)
  moreover have "ts_step ?e ?p" using ts_step.push [of ?e x] by (simp add: ts_push_back_def ts_init_def)
  moreover have "ts_step ?p ?s" by (rule sleep) simp
  ultimately have "ts_step\<^sup>*\<^sup>* ts_init ?s" by (meson converse_rtranclp_into_rtranclp rtranclp.rtrancl_refl)
  moreover have "t = ?s\<lparr> ts_waiter := Checking \<rparr> \<or> (\<exists>y. ts_queue t = [x, y] \<and> ts_waiter t = Checking)" if "ts_step ?s t" for t
    using that by (auto elim!: ts_stepE simp: ts_push_back_def)
  ultimately show ?thesis using ts_reachable_done by (intro conjI exI [of _ ?s]) auto
qed

lemma wait_can_miss_a_push_witness:
  "\<exists>s :: nat TsState. ts_step\<^sup>*\<^sup>* ts_init s \<and> ts_queue s = [7] \<and> ts_waiter s = Waiting"
  using wait_can_miss_a_push [of 7] by blast

subsection \<open>The handshake\<close>

text \<open>\<open>scramble\<close>: two exclusive ors around an exchange of the halves of each byte.\<close>

definition swap_halves :: "u64 \<Rightarrow> u64" where
  "swap_halves out = or (drop_bit 4 (and out 0xF0F0F0F0F0F0F0)) (push_bit 4 (and out 0x0F0F0F0F0F0F0F))"

definition scramble :: "u64 \<Rightarrow> u64" where
  "scramble nInput =
     (let out = xor nInput 0xDEADBEEFC0DECAFE;
          out = swap_halves out
      in xor out 0xC0DEFACE12345678)"

text \<open>Words that agree in the bits of a list of all positions agree.\<close>

lemma word64_eqI: "list_all (\<lambda>n. bit v n \<longleftrightarrow> bit w n) [0..<64] \<Longrightarrow> v = (w :: u64)"
  by (rule bit_word_eqI) (simp add: list_all_iff)

lemma swap_swap: "swap_halves (swap_halves w) = take_bit 56 w"
  by (rule word64_eqI)
    (simp add: upt_rec [of _ "numeral _"] swap_halves_def bit_simps, simp add: numeral_eq_Suc)

lemma swap_take: "swap_halves (take_bit 56 w) = swap_halves w"
  by (rule word64_eqI) (simp add: upt_rec [of _ "numeral _"] swap_halves_def bit_simps)

lemma xor_cancel: "xor a k = xor b k \<longleftrightarrow> a = (b :: u64)"
proof
  assume "xor a k = xor b k"
  then have "xor (xor a k) k = xor (xor b k) k" by (simp only:)
  then show "a = b" by (simp add: xor.assoc)
qed simp

text \<open>
  The handshake proves 56 bits. Two challenges have the same answer exactly when they agree in
  their lower 56 bits: the masks of \<open>scramble\<close> have seven bytes, so the uppermost
  byte of a challenge does not count; below it no two challenges are confused.
\<close>

theorem scramble_forgets_a_byte:
  "scramble x = scramble y \<longleftrightarrow> take_bit 56 x = take_bit 56 y"
proof -
  let ?k = "0xDEADBEEFC0DECAFE :: u64"
  have "scramble x = scramble y \<longleftrightarrow> swap_halves (xor x ?k) = swap_halves (xor y ?k)"
    by (simp only: scramble_def Let_def xor_cancel)
  also have "\<dots> \<longleftrightarrow> take_bit 56 (xor x ?k) = take_bit 56 (xor y ?k)"
    by (metis swap_swap swap_take)
  also have "\<dots> \<longleftrightarrow> xor (take_bit 56 x) (take_bit 56 ?k) = xor (take_bit 56 y) (take_bit 56 ?k)"
    by (simp only: take_bit_xor)
  also have "\<dots> \<longleftrightarrow> take_bit 56 x = take_bit 56 y"
    by (rule xor_cancel)
  finally show ?thesis .
qed

end
