(* ===== verification/Io_Connection.thy ===== *)
theory Io_Connection
  imports Io_Messages
begin

section \<open>Connections of the Asio templates (network/asio/include/io_client_server.hpp)\<close>

text \<open>
  A connection writes the messages of its queue one after the other, header and then body, and
  reads messages into a temporary one that is then queued. \<open>async_write\<close> and \<open>async_read\<close> move the
  bytes of a buffer in pieces of any size and complete when the buffer is done, or with an error;
  posted tasks and completion handlers run one at a time. An operation in flight is the value
  of \<open>cn_writing\<close> with what is left to write, of \<open>cn_reading\<close> with what has arrived.
\<close>

datatype owner = server | client

datatype WriteOp = WritesHeader string | WritesBody string | WritesValidation string

datatype ReadOp = ReadsHeader string | ReadsBody string

datatype Task = SendTask IoMessage | CloseTask

record Connection =
  cn_owner :: owner
  cn_id :: u32
  cn_address :: nat                   \<comment> \<open>the object, for \<open>shared_from_this\<close>\<close>
  cn_open :: bool                     \<comment> \<open>the socket is open\<close>
  cn_tasks :: "Task list"             \<comment> \<open>posted to the context\<close>
  cn_out :: "IoMessage list"
  cn_writing :: "WriteOp option"
  cn_reading :: "ReadOp option"
  cn_tmp :: IoMessage
  cn_handshake_out :: u64
  cn_handshake_in :: u64
  cn_handshake_check :: u64

type_synonym Incoming = "(nat option \<times> IoMessage) list"

definition new_connection :: "owner \<Rightarrow> u64 \<Rightarrow> nat \<Rightarrow> bool \<Rightarrow> Connection" where
  "new_connection parent now address opened =
     \<lparr> cn_owner = parent, cn_id = 0, cn_address = address, cn_open = opened, cn_tasks = [], cn_out = [],
       cn_writing = None, cn_reading = None, cn_tmp = new_message 0,
       cn_handshake_out = (if parent = server then now else 0), cn_handshake_in = 0,
       cn_handshake_check = (if parent = server then scramble now else 0) \<rparr>"

definition GetID :: "Connection \<Rightarrow> u32" where
  "GetID c = cn_id c"

definition IsConnected :: "Connection \<Rightarrow> bool" where
  "IsConnected c = cn_open c"

text \<open>\<open>opened\<close> is how \<open>async_connect\<close> leaves the socket; its handler does nothing.\<close>

definition ConnectToServer :: "bool \<Rightarrow> Connection \<Rightarrow> Connection" where
  "ConnectToServer opened c = (if cn_owner c = client then c\<lparr> cn_open := opened \<rparr> else c)"

definition Disconnect :: "Connection \<Rightarrow> Connection" where
  "Disconnect c = (if IsConnected c then c\<lparr> cn_tasks := cn_tasks c @ [CloseTask] \<rparr> else c)"

definition StartListening :: "Connection \<Rightarrow> Connection" where
  "StartListening c = c"

definition Connection_Send :: "IoMessage \<Rightarrow> Connection \<Rightarrow> Connection" where
  "Connection_Send m c = c\<lparr> cn_tasks := cn_tasks c @ [SendTask m] \<rparr>"

definition close_socket :: "Connection \<Rightarrow> Connection" where
  "close_socket c = c\<lparr> cn_open := False \<rparr>"

subsection \<open>Writing\<close>

definition header_bytes :: "IoMessage \<Rightarrow> string" where
  "header_bytes m = word_bytes 4 (io_id m) @ word_bytes 4 (io_size m)"

definition WriteHeader :: "Connection \<Rightarrow> Connection res" where
  "WriteHeader c = bind_res (ts_front (cn_out c)) (\<lambda>m. Inr (c\<lparr> cn_writing := Some (WritesHeader (header_bytes m)) \<rparr>))"

definition WriteBody :: "Connection \<Rightarrow> Connection res" where
  "WriteBody c = bind_res (ts_front (cn_out c)) (\<lambda>m. Inr (c\<lparr> cn_writing := Some (WritesBody (io_body m)) \<rparr>))"

text \<open>The end of a message in both handlers: it is popped, the next one started.\<close>

definition message_written :: "Connection \<Rightarrow> Connection res" where
  "message_written c =
     bind_res (ts_pop_front (cn_out c)) (\<lambda>(m, out).
       let c = c\<lparr> cn_out := out \<rparr> in if \<not> ts_empty (cn_out c) then WriteHeader c else Inr c)"

definition header_written :: "bool \<Rightarrow> Connection \<Rightarrow> Connection res" where
  "header_written ec c =
     (if \<not> ec then
        bind_res (ts_front (cn_out c)) (\<lambda>m.
          if length (io_body m) > 0 then WriteBody c else message_written c)
      else Inr (close_socket c))"

definition body_written :: "bool \<Rightarrow> Connection \<Rightarrow> Connection res" where
  "body_written ec c = (if \<not> ec then message_written c else Inr (close_socket c))"

text \<open>The task that \<open>Send\<close> posts.\<close>

definition send_task :: "IoMessage \<Rightarrow> Connection \<Rightarrow> Connection res" where
  "send_task m c =
     (let bWritingMessage = \<not> ts_empty (cn_out c);
          c = c\<lparr> cn_out := ts_push_back m (cn_out c) \<rparr>
      in if \<not> bWritingMessage then WriteHeader c else Inr c)"

subsection \<open>Reading\<close>

definition ReadHeader :: "Connection \<Rightarrow> Connection" where
  "ReadHeader c = c\<lparr> cn_reading := Some (ReadsHeader []) \<rparr>"

definition ReadBody :: "Connection \<Rightarrow> Connection" where
  "ReadBody c = c\<lparr> cn_reading := Some (ReadsBody []) \<rparr>"

definition AddToIncomingMessageQueue :: "Connection \<times> Incoming \<Rightarrow> Connection \<times> Incoming" where
  "AddToIncomingMessageQueue cq =
     (let (c, q) = cq;
          remote = (if cn_owner c = server then Some (cn_address c) else None)
      in (ReadHeader c, ts_push_back (remote, cn_tmp c) q))"

definition resize :: "nat \<Rightarrow> string \<Rightarrow> string" where
  "resize n bs = take n bs @ replicate (n - length bs) (char_of (0 :: nat))"

text \<open>The handlers; what was read is in the temporary message.\<close>

definition header_read :: "bool \<Rightarrow> string \<Rightarrow> Connection \<times> Incoming \<Rightarrow> Connection \<times> Incoming" where
  "header_read ec got cq =
     (let (c, q) = cq;
          c = c\<lparr> cn_tmp := (cn_tmp c)\<lparr> io_id := word_of_bytes (take 4 got), io_size := word_of_bytes (drop 4 got) \<rparr> \<rparr>
      in if \<not> ec then
           if io_size (cn_tmp c) > 0 then
             (ReadBody (c\<lparr> cn_tmp := (cn_tmp c)\<lparr> io_body := resize (unat (io_size (cn_tmp c))) (io_body (cn_tmp c)) \<rparr> \<rparr>), q)
           else AddToIncomingMessageQueue (c, q)
         else (close_socket c, q))"

definition body_read :: "bool \<Rightarrow> string \<Rightarrow> Connection \<times> Incoming \<Rightarrow> Connection \<times> Incoming" where
  "body_read ec got cq =
     (let (c, q) = cq; c = c\<lparr> cn_tmp := (cn_tmp c)\<lparr> io_body := got \<rparr> \<rparr>
      in if \<not> ec then AddToIncomingMessageQueue (c, q) else (close_socket c, q))"

subsection \<open>The handshake\<close>

definition WriteValidation :: "Connection \<Rightarrow> Connection" where
  "WriteValidation c = c\<lparr> cn_writing := Some (WritesValidation (word_bytes 8 (cn_handshake_out c))) \<rparr>"

definition validation_written :: "bool \<Rightarrow> Connection \<Rightarrow> Connection" where
  "validation_written ec c =
     (if \<not> ec then if cn_owner c = client then ReadHeader c else c else close_socket c)"

subsection \<open>Events of one connection\<close>

fun op_rest :: "WriteOp \<Rightarrow> string" where
  "op_rest (WritesHeader r) = r"
| "op_rest (WritesBody r) = r"
| "op_rest (WritesValidation r) = r"

fun op_after :: "nat \<Rightarrow> WriteOp \<Rightarrow> WriteOp" where
  "op_after n (WritesHeader r) = WritesHeader (drop n r)"
| "op_after n (WritesBody r) = WritesBody (drop n r)"
| "op_after n (WritesValidation r) = WritesValidation (drop n r)"

definition run_task :: "Connection \<Rightarrow> Connection res" where
  "run_task c = (case cn_tasks c of
       [] \<Rightarrow> Inr c
     | SendTask m # ts \<Rightarrow> send_task m (c\<lparr> cn_tasks := ts \<rparr>)
     | CloseTask # ts \<Rightarrow> Inr (close_socket (c\<lparr> cn_tasks := ts \<rparr>)))"

text \<open>Up to \<open>n\<close> bytes of the write in flight leave for the other side.\<close>

definition transmit :: "nat \<Rightarrow> Connection \<Rightarrow> string \<times> Connection" where
  "transmit n c = (case cn_writing c of
       Some wr \<Rightarrow> if cn_open c then (take n (op_rest wr), c\<lparr> cn_writing := Some (op_after n wr) \<rparr>) else ([], c)
     | None \<Rightarrow> ([], c))"

definition write_ends :: "bool \<Rightarrow> Connection \<Rightarrow> Connection res" where
  "write_ends ec c = (case cn_writing c of
       None \<Rightarrow> Inr c
     | Some wr \<Rightarrow>
         if \<not> ec \<and> op_rest wr \<noteq> [] then Inr c
         else (let c = c\<lparr> cn_writing := None \<rparr> in
           case wr of WritesHeader r \<Rightarrow> header_written ec c | WritesBody r \<Rightarrow> body_written ec c
                    | WritesValidation r \<Rightarrow> Inr (validation_written ec c)))"

text \<open>How many bytes the read in flight still asks for.\<close>

definition wanted :: "Connection \<Rightarrow> nat" where
  "wanted c = (case cn_reading c of
       Some (ReadsHeader got) \<Rightarrow> 8 - length got
     | Some (ReadsBody got) \<Rightarrow> unat (io_size (cn_tmp c)) - length got
     | None \<Rightarrow> 0)"

definition receive :: "string \<Rightarrow> Connection \<Rightarrow> Connection" where
  "receive bs c = (case cn_reading c of
       Some (ReadsHeader got) \<Rightarrow> c\<lparr> cn_reading := Some (ReadsHeader (got @ bs)) \<rparr>
     | Some (ReadsBody got) \<Rightarrow> c\<lparr> cn_reading := Some (ReadsBody (got @ bs)) \<rparr>
     | None \<Rightarrow> c)"

definition read_ends :: "bool \<Rightarrow> Connection \<times> Incoming \<Rightarrow> Connection \<times> Incoming" where
  "read_ends ec cq = (let (c, q) = cq in
     if \<not> ec \<and> wanted c \<noteq> 0 then (c, q)
     else (case cn_reading c of
         None \<Rightarrow> (c, q)
       | Some (ReadsHeader got) \<Rightarrow> header_read ec got (c\<lparr> cn_reading := None \<rparr>, q)
       | Some (ReadsBody got) \<Rightarrow> body_read ec got (c\<lparr> cn_reading := None \<rparr>, q)))"

subsection \<open>Two connections and the stream between them\<close>

record Link =
  lk_writer :: Connection
  lk_stream :: string
  lk_reader :: Connection
  lk_incoming :: Incoming

datatype link_event =
    Posts IoMessage | Disconnects | RunsTask | Transmits nat | WriteEnds bool
  | Receives nat | ReadEnds bool

fun link_step :: "link_event \<Rightarrow> Link \<Rightarrow> Link res" where
  "link_step (Posts m) l = Inr (l\<lparr> lk_writer := Connection_Send m (lk_writer l) \<rparr>)"
| "link_step Disconnects l = Inr (l\<lparr> lk_writer := Disconnect (lk_writer l) \<rparr>)"
| "link_step RunsTask l = bind_res (run_task (lk_writer l)) (\<lambda>c. Inr (l\<lparr> lk_writer := c \<rparr>))"
| "link_step (Transmits n) l =
     (let (bs, c) = transmit n (lk_writer l) in Inr (l\<lparr> lk_writer := c, lk_stream := lk_stream l @ bs \<rparr>))"
| "link_step (WriteEnds ec) l = bind_res (write_ends ec (lk_writer l)) (\<lambda>c. Inr (l\<lparr> lk_writer := c \<rparr>))"
| "link_step (Receives n) l =
     (let k = min n (wanted (lk_reader l))
      in Inr (l\<lparr> lk_reader := receive (take k (lk_stream l)) (lk_reader l), lk_stream := drop k (lk_stream l) \<rparr>))"
| "link_step (ReadEnds ec) l =
     (let (c, q) = read_ends ec (lk_reader l, lk_incoming l) in Inr (l\<lparr> lk_reader := c, lk_incoming := q \<rparr>))"

fun link_run :: "link_event list \<Rightarrow> Link \<Rightarrow> Link res" where
  "link_run [] l = Inr l"
| "link_run (e # es) l = bind_res (link_step e l) (link_run es)"

text \<open>Both sockets are open and the reader waits for its first header.\<close>

definition new_link :: "owner \<Rightarrow> owner \<Rightarrow> u64 \<Rightarrow> nat \<Rightarrow> nat \<Rightarrow> Link" where
  "new_link wo ro now wa ra =
     \<lparr> lk_writer = new_connection wo now wa True, lk_stream = [],
       lk_reader = ReadHeader (new_connection ro now ra True), lk_incoming = [] \<rparr>"

fun posted :: "link_event list \<Rightarrow> IoMessage list" where
  "posted [] = []"
| "posted (Posts m # es) = m # posted es"
| "posted (e # es) = posted es"

definition frame :: "IoMessage \<Rightarrow> string" where
  "frame m = header_bytes m @ io_body m"

text \<open>
  What a sequence of messages looks like to the reader: the body of the temporary message is
  only replaced when a body follows the header, so a message without a body has the last one.
\<close>

fun arrivals :: "string \<Rightarrow> IoMessage list \<Rightarrow> IoMessage list" where
  "arrivals left_body [] = []"
| "arrivals left_body (m # ms) =
     (if io_body m = [] then m\<lparr> io_body := left_body \<rparr> # arrivals left_body ms
      else m # arrivals (io_body m) ms)"

fun left_body :: "string \<Rightarrow> IoMessage list \<Rightarrow> string" where
  "left_body b [] = b"
| "left_body b (m # ms) = left_body (if io_body m = [] then b else io_body m) ms"

lemma arrivals_append: "arrivals b (ms @ ns) = arrivals b ms @ arrivals (left_body b ms) ns"
  by (induction b ms rule: arrivals.induct) simp_all

lemma left_body_append [simp]: "left_body b (ms @ ns) = left_body (left_body b ms) ns"
  by (induction b ms rule: left_body.induct) simp_all

lemma length_arrivals [simp]: "length (arrivals b ms) = length ms"
  by (induction b ms rule: arrivals.induct) simp_all

lemma arrivals_bodies: "list_all (\<lambda>m. io_body m \<noteq> []) ms \<Longrightarrow> arrivals b ms = ms"
  by (induction b ms rule: arrivals.induct) simp_all

lemma length_header [simp]: "length (header_bytes m) = 8"
  by (simp add: header_bytes_def)

lemma header_fields [simp]:
  "word_of_bytes (take 4 (header_bytes m)) = io_id m" "word_of_bytes (drop 4 (header_bytes m)) = io_size m"
  by (simp_all add: header_bytes_def word_of_bytes_word_bytes)

subsection \<open>The invariant of a link\<close>

text \<open>Messages that a header can describe.\<close>

definition framed :: "IoMessage \<Rightarrow> bool" where
  "framed m \<longleftrightarrow> length (io_body m) = unat (io_size m)"

lemma framed_sized: "framed m \<longleftrightarrow> sized m \<and> length (io_body m) < 2 ^ 32"
proof
  assume f: "framed m"
  have "unat (io_size m) < 2 ^ LENGTH(32)" by (rule unsigned_less)
  moreover have "io_size m = of_nat (unat (io_size m))" by simp
  ultimately show "sized m \<and> length (io_body m) < 2 ^ 32" using f by (simp add: framed_def sized_def)
qed (simp add: framed_def sized_def unat_of_nat)

definition frames :: "IoMessage list \<Rightarrow> string" where
  "frames ms = concat (map frame ms)"

lemma frames_simps [simp]: "frames [] = []" "frames (m # ms) = header_bytes m @ io_body m @ frames ms"
  "frames (ms @ ns) = frames ms @ frames ns"
  by (simp_all add: frames_def frame_def)

definition sends :: "Task list \<Rightarrow> IoMessage list" where
  "sends ts = concat (map (\<lambda>t. case t of SendTask m \<Rightarrow> [m] | CloseTask \<Rightarrow> []) ts)"

lemma sends_simps [simp]: "sends [] = []" "sends (SendTask m # ts) = m # sends ts" "sends (CloseTask # ts) = sends ts"
  "sends (ts @ us) = sends ts @ sends us"
  by (simp_all add: sends_def)

text \<open>The bytes that the writer has still to hand over.\<close>

definition unwritten :: "Connection \<Rightarrow> string" where
  "unwritten c = (case cn_writing c of
       Some (WritesHeader r) \<Rightarrow> r @ io_body (hd (cn_out c)) @ frames (tl (cn_out c))
     | Some (WritesBody r) \<Rightarrow> r @ frames (tl (cn_out c))
     | Some (WritesValidation r) \<Rightarrow> []
     | None \<Rightarrow> [])"

definition writer_ok :: "Connection \<Rightarrow> bool" where
  "writer_ok c \<longleftrightarrow>
     (case cn_writing c of
        Some (WritesValidation r) \<Rightarrow> False
      | Some _ \<Rightarrow> cn_out c \<noteq> []
      | None \<Rightarrow> cn_open c \<longrightarrow> cn_out c = [])"

text \<open>What the reader has of the message it reads, the first of \<open>todo\<close>.\<close>

definition reader_ok :: "Connection \<Rightarrow> IoMessage list \<Rightarrow> IoMessage list \<Rightarrow> string \<Rightarrow> bool" where
  "reader_ok c got_before todo have_bytes \<longleftrightarrow>
     (case cn_reading c of
        Some (ReadsHeader got) \<Rightarrow> have_bytes = got \<and> length got \<le> 8 \<and> io_body (cn_tmp c) = left_body [] got_before
      | Some (ReadsBody got) \<Rightarrow>
          todo \<noteq> [] \<and> have_bytes = header_bytes (hd todo) @ got \<and> length got \<le> unat (io_size (hd todo)) \<and>
          io_size (hd todo) > 0 \<and> io_id (cn_tmp c) = io_id (hd todo) \<and> io_size (cn_tmp c) = io_size (hd todo)
      | None \<Rightarrow> True)"

definition remote_of :: "Connection \<Rightarrow> nat option" where
  "remote_of c = (if cn_owner c = server then Some (cn_address c) else None)"

definition linked :: "IoMessage list \<Rightarrow> Link \<Rightarrow> IoMessage list \<Rightarrow> IoMessage list \<Rightarrow> string \<Rightarrow> string \<Rightarrow> bool" where
  "linked sent l got_before todo have_bytes left_bytes \<longleftrightarrow>
     sent = got_before @ todo @ sends (cn_tasks (lk_writer l)) \<and> list_all framed sent \<and>
     have_bytes @ lk_stream l @ left_bytes = frames todo \<and>
     (cn_open (lk_writer l) \<longrightarrow> left_bytes = unwritten (lk_writer l)) \<and>
     writer_ok (lk_writer l) \<and> reader_ok (lk_reader l) got_before todo have_bytes \<and>
     lk_incoming l = map (Pair (remote_of (lk_reader l))) (arrivals [] got_before)"

lemma linked_new: "linked [] (new_link wo ro now wa ra) [] [] [] []"
  by (simp add: linked_def new_link_def new_connection_def writer_ok_def reader_ok_def unwritten_def ReadHeader_def
      new_message_def)

subsection \<open>Every event keeps it\<close>

text \<open>What an operation of the writer leaves as it is, and the bytes that are still to come.\<close>

definition writes :: "Connection \<Rightarrow> string \<Rightarrow> Connection res \<Rightarrow> bool" where
  "writes c bs r \<longleftrightarrow> (\<exists>c'. r = Inr c' \<and> writer_ok c' \<and> cn_tasks c' = cn_tasks c \<and>
     (cn_open c' \<longrightarrow> cn_open c \<and> unwritten c' = bs))"

lemma writes_WriteHeader: "cn_out c \<noteq> [] \<Longrightarrow> writes c (frames (cn_out c)) (WriteHeader c)"
  by (cases "cn_out c") (simp_all add: writes_def WriteHeader_def ts_front_def writer_ok_def unwritten_def)

lemma writes_message_written:
  assumes "cn_out c = m # ms" and "cn_writing c = None"
  shows "writes c (frames ms) (message_written c)"
proof (cases ms)
  case Nil
  then show ?thesis using assms
    by (simp add: writes_def message_written_def ts_pop_front_def ts_empty_def writer_ok_def unwritten_def)
next
  case (Cons k ks)
  then show ?thesis using assms writes_WriteHeader [of "c\<lparr> cn_out := ms \<rparr>"]
    by (simp add: message_written_def ts_pop_front_def ts_empty_def writes_def)
qed

lemma writes_send_task:
  assumes "writer_ok c"
  shows "writes c (unwritten c @ frame m) (send_task m c)"
proof (cases "cn_out c")
  case Nil
  then have "cn_writing c = None" using assms by (auto simp: writer_ok_def split: option.splits WriteOp.splits)
  then show ?thesis using Nil writes_WriteHeader [of "c\<lparr> cn_out := [m] \<rparr>"]
    by (simp add: send_task_def ts_empty_def ts_push_back_def writes_def unwritten_def frame_def)
next
  case (Cons k ks)
  then show ?thesis using assms
    by (auto simp: send_task_def ts_empty_def ts_push_back_def writes_def unwritten_def writer_ok_def frame_def
        split: option.splits WriteOp.splits)
qed

lemma writes_close: "writer_ok c \<Longrightarrow> cn_tasks c' = cn_tasks c \<Longrightarrow> cn_writing c' = cn_writing c \<Longrightarrow> cn_out c' = cn_out c \<Longrightarrow>
    writes c bs (Inr (close_socket c'))"
  by (auto simp: writes_def close_socket_def writer_ok_def split: option.splits WriteOp.splits)

lemma writes_write_ends:
  assumes "writer_ok c"
  shows "writes c (unwritten c) (write_ends ec c)"
proof (cases "cn_writing c")
  case None
  then show ?thesis using assms by (simp add: write_ends_def writes_def)
next
  case (Some wr)
  let ?c = "c\<lparr> cn_writing := None \<rparr>"
  obtain m ms where out: "cn_out c = m # ms" and "\<And>r. wr \<noteq> WritesValidation r"
    using assms Some by (cases "cn_out c") (auto simp: writer_ok_def split: WriteOp.splits)
  then consider "\<not> ec" "op_rest wr \<noteq> []" | "ec" "op_rest wr \<noteq> [] \<or> op_rest wr = []" | "\<not> ec" "wr = WritesHeader []" | "\<not> ec" "wr = WritesBody []"
    by (cases wr) auto
  then show ?thesis
  proof cases
    case 1
    then show ?thesis using assms Some by (simp add: write_ends_def writes_def)
  next
    case 2
    then have "write_ends ec c = Inr (close_socket ?c)"
      using Some \<open>\<And>r. wr \<noteq> WritesValidation r\<close> by (cases wr) (simp_all add: write_ends_def header_written_def body_written_def validation_written_def)
    then show ?thesis by (simp add: writes_def close_socket_def writer_ok_def)
  next
    case 3
    show ?thesis
    proof (cases "io_body m = []")
      case True
      then show ?thesis using 3 Some out writes_message_written [of ?c m ms]
        by (simp add: write_ends_def header_written_def ts_front_def writes_def unwritten_def)
    next
      case False
      then show ?thesis using 3 Some out
        by (simp add: write_ends_def header_written_def ts_front_def WriteBody_def writes_def unwritten_def writer_ok_def)
    qed
  next
    case 4
    then show ?thesis using Some out writes_message_written [of ?c m ms]
      by (simp add: write_ends_def body_written_def writes_def unwritten_def)
  qed
qed

lemma writesE:
  assumes "writes c bs r"
  obtains c' where "r = Inr c'" "writer_ok c'" "cn_tasks c' = cn_tasks c" "cn_open c' \<longrightarrow> cn_open c \<and> unwritten c' = bs"
  using assms by (auto simp: writes_def)

lemma linked_RunsTask:
  assumes "linked sent l g t h b"
  shows "\<exists>l' t' b'. link_step RunsTask l = Inr l' \<and> linked sent l' g t' h b' \<and> lk_reader l' = lk_reader l"
proof (cases "cn_tasks (lk_writer l)")
  case Nil
  then show ?thesis using assms by (auto simp: run_task_def)
next
  case (Cons k ts)
  let ?c = "(lk_writer l)\<lparr> cn_tasks := ts \<rparr>"
  have w: "writer_ok ?c" using assms by (auto simp: linked_def writer_ok_def split: option.splits WriteOp.splits)
  show ?thesis
  proof (cases k)
    case (SendTask m)
    from writes_send_task [OF w, of m] obtain c' where c': "send_task m ?c = Inr c'" "writer_ok c'" "cn_tasks c' = ts"
      "cn_open c' \<longrightarrow> cn_open (lk_writer l) \<and> unwritten c' = unwritten ?c @ frame m"
      by (auto elim: writesE)
    have "unwritten ?c = unwritten (lk_writer l)" by (simp add: unwritten_def split: option.split WriteOp.split)
    moreover have "reader_ok (lk_reader l) g (t @ [m]) h" using assms
      by (auto simp: linked_def reader_ok_def split: option.splits ReadOp.splits)
    ultimately have "linked sent (l\<lparr> lk_writer := c' \<rparr>) g (t @ [m]) h (b @ frame m)"
      using assms c' Cons SendTask by (auto simp: linked_def frame_def)
    then show ?thesis using c'(1) Cons SendTask by (auto simp: run_task_def)
  next
    case CloseTask
    then have "linked sent (l\<lparr> lk_writer := close_socket ?c \<rparr>) g t h b"
      using assms Cons by (auto simp: linked_def close_socket_def writer_ok_def split: option.splits WriteOp.splits)
    then show ?thesis using Cons CloseTask by (auto simp: run_task_def)
  qed
qed

lemma linked_WriteEnds:
  assumes "linked sent l g t h b"
  shows "\<exists>l'. link_step (WriteEnds ec) l = Inr l' \<and> linked sent l' g t h b \<and> lk_reader l' = lk_reader l"
proof -
  have "writer_ok (lk_writer l)" using assms by (simp add: linked_def)
  from writes_write_ends [OF this, of ec] obtain c' where c': "write_ends ec (lk_writer l) = Inr c'" "writer_ok c'"
    "cn_tasks c' = cn_tasks (lk_writer l)" "cn_open c' \<longrightarrow> cn_open (lk_writer l) \<and> unwritten c' = unwritten (lk_writer l)"
    by (auto elim: writesE)
  then have "linked sent (l\<lparr> lk_writer := c' \<rparr>) g t h b" using assms by (auto simp: linked_def)
  then show ?thesis using c'(1) by auto
qed

lemma linked_Transmits:
  assumes "linked sent l g t h b"
  shows "\<exists>l' b'. link_step (Transmits n) l = Inr l' \<and> linked sent l' g t h b' \<and> lk_reader l' = lk_reader l"
proof (cases "cn_writing (lk_writer l)")
  case (Some wr)
  show ?thesis
  proof (cases "cn_open (lk_writer l)")
    case True
    let ?c = "(lk_writer l)\<lparr> cn_writing := Some (op_after n wr) \<rparr>"
    have "unwritten (lk_writer l) = take n (op_rest wr) @ unwritten ?c" "writer_ok ?c"
      using assms Some by (cases wr; auto simp: linked_def unwritten_def writer_ok_def)+
    then have "linked sent (l\<lparr> lk_writer := ?c, lk_stream := lk_stream l @ take n (op_rest wr) \<rparr>) g t h (unwritten ?c)"
      using assms True by (auto simp: linked_def)
    then show ?thesis using Some True by (auto simp: transmit_def)
  next
    case False
    then show ?thesis using assms Some by (auto simp: transmit_def)
  qed
qed (use assms in \<open>auto simp: transmit_def\<close>)

lemma stream_pieces [simp]: "take k xs @ drop k xs @ ys = xs @ ys"
  by (simp flip: append_assoc)

lemma linked_Receives:
  assumes "linked sent l g t h b"
  shows "\<exists>l' h'. link_step (Receives n) l = Inr l' \<and> linked sent l' g t h' b \<and>
    cn_owner (lk_reader l') = cn_owner (lk_reader l) \<and> cn_address (lk_reader l') = cn_address (lk_reader l)"
proof -
  let ?bs = "take (min n (wanted (lk_reader l))) (lk_stream l)" and ?r = "drop (min n (wanted (lk_reader l))) (lk_stream l)"
  show ?thesis
  proof (cases "cn_reading (lk_reader l)")
    case None
    then show ?thesis using assms by (auto simp: wanted_def receive_def Let_def)
  next
    case (Some rd)
    have "linked sent (l\<lparr> lk_reader := receive ?bs (lk_reader l), lk_stream := ?r \<rparr>) g t (h @ ?bs) b"
    proof -
      have "h @ lk_stream l @ b = (h @ ?bs) @ ?r @ b" by simp
      moreover have "reader_ok (receive ?bs (lk_reader l)) g t (h @ ?bs)"
        using assms Some by (cases rd) (auto simp: linked_def reader_ok_def receive_def wanted_def)
      moreover have "remote_of (receive ?bs (lk_reader l)) = remote_of (lk_reader l)"
        using Some by (cases rd) (simp_all add: receive_def remote_of_def)
      ultimately show ?thesis using assms by (auto simp: linked_def)
    qed
    then show ?thesis using Some by (cases rd) (auto simp: Let_def receive_def)
  qed
qed

lemma arrivals_snoc: "arrivals b (ms @ [m]) = arrivals b ms @ [if io_body m = [] then m\<lparr> io_body := left_body b ms \<rparr> else m]"
  by (simp add: arrivals_append)

lemma read_ends_incomplete: "\<not> ec \<Longrightarrow> wanted c \<noteq> 0 \<Longrightarrow> read_ends ec (c, q) = (c, q)"
  by (simp add: read_ends_def)

text \<open>A message is read to its end: it goes to the queue and the next header is awaited.\<close>

lemma linked_message_read:
  assumes "linked sent l g (m # t) (frame m) b" and "cn_tmp c = (if io_body m = [] then m\<lparr> io_body := left_body [] g \<rparr> else m)"
    and "cn_owner c = cn_owner (lk_reader l)" and "cn_address c = cn_address (lk_reader l)"
    and "AddToIncomingMessageQueue (c, lk_incoming l) = (c', q)"
  shows "linked sent (l\<lparr> lk_reader := c', lk_incoming := q \<rparr>) (g @ [m]) t [] b"
  using assms
  by (auto simp: linked_def AddToIncomingMessageQueue_def ReadHeader_def reader_ok_def remote_of_def ts_push_back_def
      arrivals_snoc frame_def)

lemma linked_header_read:
  assumes "linked sent l g t h b" and rd: "cn_reading (lk_reader l) = Some (ReadsHeader got)" and "length got = 8"
    and "header_read False got ((lk_reader l)\<lparr> cn_reading := None \<rparr>, lk_incoming l) = (c, q)"
  shows "\<exists>g' t' h'. linked sent (l\<lparr> lk_reader := c, lk_incoming := q \<rparr>) g' t' h' b \<and>
    cn_owner c = cn_owner (lk_reader l) \<and> cn_address c = cn_address (lk_reader l)"
proof -
  have h: "h = got" and eq: "got @ lk_stream l @ b = frames t" and lb: "io_body (cn_tmp (lk_reader l)) = left_body [] g"
    using assms(1) rd by (auto simp: linked_def reader_ok_def)
  then obtain m ms where t: "t = m # ms" using assms(3) by (cases t) auto
  have f: "framed m" using assms(1) t by (auto simp: linked_def)
  have got: "got = header_bytes m" using eq t assms(3) by simp
  let ?c = "(lk_reader l)\<lparr> cn_reading := None, cn_tmp := (cn_tmp (lk_reader l))\<lparr> io_id := io_id m, io_size := io_size m \<rparr> \<rparr>"
  show ?thesis
  proof (cases "io_size m = 0")
    case True
    then have body: "io_body m = []" using f by (simp add: framed_def)
    have "AddToIncomingMessageQueue (?c, lk_incoming l) = (c, q)"
      using assms(4) True by (simp add: header_read_def got)
    moreover have "linked sent l g (m # ms) (frame m) b" using assms(1) t h got body by (simp add: frame_def)
    moreover have "cn_tmp ?c = (if io_body m = [] then m\<lparr> io_body := left_body [] g \<rparr> else m)"
      using body lb by simp
    ultimately have "linked sent (l\<lparr> lk_reader := c, lk_incoming := q \<rparr>) (g @ [m]) ms [] b"
      by (intro linked_message_read [of sent l g m ms b ?c]) simp_all
    moreover have "cn_owner c = cn_owner (lk_reader l) \<and> cn_address c = cn_address (lk_reader l)"
      using assms(4) True by (auto simp: header_read_def got AddToIncomingMessageQueue_def ReadHeader_def)
    ultimately show ?thesis by blast
  next
    case False
    then have "0 < io_size m" by (simp add: word_gt_0)
    then have c: "c = ReadBody (?c\<lparr> cn_tmp := (cn_tmp ?c)\<lparr> io_body := resize (unat (io_size m)) (io_body (cn_tmp (lk_reader l))) \<rparr> \<rparr>)"
      and q: "q = lk_incoming l"
      using assms(4) by (simp_all add: header_read_def got)
    have "linked sent (l\<lparr> lk_reader := c, lk_incoming := q \<rparr>) g t (header_bytes m) b"
      using assms(1) h got t \<open>0 < io_size m\<close>
      by (auto simp: linked_def reader_ok_def c q ReadBody_def remote_of_def)
    moreover have "cn_owner c = cn_owner (lk_reader l) \<and> cn_address c = cn_address (lk_reader l)"
      by (simp add: c ReadBody_def)
    ultimately show ?thesis by blast
  qed
qed

lemma linked_body_read:
  assumes "linked sent l g t h b" and rd: "cn_reading (lk_reader l) = Some (ReadsBody got)"
    and "unat (io_size (cn_tmp (lk_reader l))) \<le> length got"
    and "body_read False got ((lk_reader l)\<lparr> cn_reading := None \<rparr>, lk_incoming l) = (c, q)"
  shows "\<exists>g' t' h'. linked sent (l\<lparr> lk_reader := c, lk_incoming := q \<rparr>) g' t' h' b \<and>
    cn_owner c = cn_owner (lk_reader l) \<and> cn_address c = cn_address (lk_reader l)"
proof -
  let ?r = "lk_reader l"
  obtain m ms where t: "t = m # ms" and h: "h = header_bytes m @ got" and f: "framed m"
    and sz: "io_size m > 0" "io_id (cn_tmp ?r) = io_id m" "io_size (cn_tmp ?r) = io_size m" "length got \<le> unat (io_size m)"
    and eq: "h @ lk_stream l @ b = frames t"
    using assms(1) rd by (cases t) (auto simp: linked_def reader_ok_def)
  have len: "length got = length (io_body m)" using f sz assms(3) by (simp add: framed_def)
  then have got: "got = io_body m" using eq h t by simp
  have "io_body m \<noteq> []" using f sz(1) by (auto simp: framed_def word_gt_0 simp flip: unat_eq_zero)
  let ?c = "?r\<lparr> cn_reading := None, cn_tmp := (cn_tmp ?r)\<lparr> io_body := got \<rparr> \<rparr>"
  have add: "AddToIncomingMessageQueue (?c, lk_incoming l) = (c, q)"
    using assms(4) by (simp add: body_read_def)
  moreover have "linked sent l g (m # ms) (frame m) b" using assms(1) t h got by (simp add: frame_def)
  moreover have "cn_tmp ?c = (if io_body m = [] then m\<lparr> io_body := left_body [] g \<rparr> else m)"
    using \<open>io_body m \<noteq> []\<close> got sz by simp
  ultimately have "linked sent (l\<lparr> lk_reader := c, lk_incoming := q \<rparr>) (g @ [m]) ms [] b"
    by (intro linked_message_read [of sent l g m ms b ?c]) simp_all
  moreover have "cn_owner c = cn_owner ?r \<and> cn_address c = cn_address ?r"
    using add by (auto simp: AddToIncomingMessageQueue_def ReadHeader_def)
  ultimately show ?thesis by blast
qed

lemma linked_ReadEnds:
  assumes "linked sent l g t h b"
  shows "\<exists>l' g' t' h'. link_step (ReadEnds ec) l = Inr l' \<and> linked sent l' g' t' h' b \<and>
    cn_owner (lk_reader l') = cn_owner (lk_reader l) \<and> cn_address (lk_reader l') = cn_address (lk_reader l)"
proof (cases "cn_reading (lk_reader l)")
  case None
  then show ?thesis using assms by (auto simp: read_ends_def)
next
  case (Some rd)
  obtain c q where cq: "read_ends ec (lk_reader l, lk_incoming l) = (c, q)" by (cases "read_ends ec (lk_reader l, lk_incoming l)")
  have "\<exists>g' t' h'. linked sent (l\<lparr> lk_reader := c, lk_incoming := q \<rparr>) g' t' h' b \<and>
      cn_owner c = cn_owner (lk_reader l) \<and> cn_address c = cn_address (lk_reader l)"
  proof -
    consider "\<not> ec" "wanted (lk_reader l) \<noteq> 0" | "ec" "True" | "\<not> ec" "wanted (lk_reader l) = 0" by blast
    then show ?thesis
    proof cases
      case 1
      then have "c = lk_reader l" "q = lk_incoming l" using cq read_ends_incomplete [OF 1] by simp_all
      then show ?thesis using assms by (intro exI [of _ g] exI [of _ t] exI [of _ h]) simp
    next
      case 2
      then have "q = lk_incoming l \<and> cn_reading c = None \<and> cn_owner c = cn_owner (lk_reader l) \<and> cn_address c = cn_address (lk_reader l)"
        using cq Some by (cases rd) (auto simp: read_ends_def header_read_def body_read_def close_socket_def Let_def)
      then have "linked sent (l\<lparr> lk_reader := c, lk_incoming := q \<rparr>) g t h b"
        using assms by (auto simp: linked_def reader_ok_def remote_of_def)
      then show ?thesis using \<open>q = _ \<and> _\<close> by blast
    next
      case 3
      show ?thesis
      proof (cases rd)
        case (ReadsHeader got)
        then have "length got = 8" using 3 Some assms by (auto simp: wanted_def linked_def reader_ok_def)
        moreover have "header_read False got ((lk_reader l)\<lparr> cn_reading := None \<rparr>, lk_incoming l) = (c, q)"
          using cq 3 Some ReadsHeader by (simp add: read_ends_def)
        ultimately show ?thesis using linked_header_read assms Some ReadsHeader by blast
      next
        case (ReadsBody got)
        then have "unat (io_size (cn_tmp (lk_reader l))) \<le> length got" using 3 Some by (simp add: wanted_def)
        moreover have "body_read False got ((lk_reader l)\<lparr> cn_reading := None \<rparr>, lk_incoming l) = (c, q)"
          using cq 3 Some ReadsBody by (simp add: read_ends_def)
        ultimately show ?thesis using linked_body_read assms Some ReadsBody by blast
      qed
    qed
  qed
  then show ?thesis using cq by auto
qed

lemma linked_step:
  assumes "linked sent l g t h b" and "list_all framed (posted [e])"
  shows "\<exists>l' g' t' h' b'. link_step e l = Inr l' \<and> linked (sent @ posted [e]) l' g' t' h' b' \<and>
    cn_owner (lk_reader l') = cn_owner (lk_reader l) \<and> cn_address (lk_reader l') = cn_address (lk_reader l)"
proof (cases e)
  case (Posts m)
  then have "linked (sent @ [m]) (l\<lparr> lk_writer := Connection_Send m (lk_writer l) \<rparr>) g t h b"
    using assms by (auto simp: linked_def Connection_Send_def unwritten_def writer_ok_def split: option.split WriteOp.split)
  then show ?thesis using Posts by auto
next
  case Disconnects
  have "linked sent (l\<lparr> lk_writer := Disconnect (lk_writer l) \<rparr>) g t h b"
    using assms by (auto simp: linked_def Disconnect_def unwritten_def writer_ok_def split: option.split WriteOp.split)
  then show ?thesis using Disconnects by auto
next
  case RunsTask
  then show ?thesis using linked_RunsTask [OF assms(1)] by fastforce
next
  case (Transmits n)
  then show ?thesis using linked_Transmits [OF assms(1), of n] by fastforce
next
  case (WriteEnds ec)
  then show ?thesis using linked_WriteEnds [OF assms(1), of ec] by fastforce
next
  case (Receives n)
  then show ?thesis using linked_Receives [OF assms(1), of n] by fastforce
next
  case (ReadEnds ec)
  then show ?thesis using linked_ReadEnds [OF assms(1), of ec] by fastforce
qed

lemma posted_Cons: "posted (e # es) = posted [e] @ posted es"
  by (cases e) simp_all

lemma linked_run:
  assumes "linked sent l g t h b" and "list_all framed (posted evs)"
  shows "\<exists>l' g' t' h' b'. link_run evs l = Inr l' \<and> linked (sent @ posted evs) l' g' t' h' b' \<and>
    cn_owner (lk_reader l') = cn_owner (lk_reader l) \<and> cn_address (lk_reader l') = cn_address (lk_reader l)"
  using assms
proof (induction evs arbitrary: sent l g t h b)
  case (Cons e evs)
  then have "list_all framed (posted [e])" "list_all framed (posted evs)" by (simp_all add: posted_Cons [of e evs])
  with linked_step [OF Cons.prems(1)] obtain l' g' t' h' b' where l': "link_step e l = Inr l'"
    "linked (sent @ posted [e]) l' g' t' h' b'" "cn_owner (lk_reader l') = cn_owner (lk_reader l)"
    "cn_address (lk_reader l') = cn_address (lk_reader l)" by blast
  from Cons.IH [OF this(2) \<open>list_all framed (posted evs)\<close>] l' show ?case
    by (simp only: link_run.simps bind_res_Inr posted_Cons [of e evs] append_assoc)
qed auto



subsection \<open>A connection by its public interface\<close>

datatype connection_event =
    CallsConnect bool | CallsDisconnect | CallsListen | CallsSend IoMessage
  | TaskRuns | BytesLeave nat | WriteCompletes bool | BytesArrive string | ReadCompletes bool

fun connection_step :: "connection_event \<Rightarrow> Connection \<times> Incoming \<Rightarrow> (Connection \<times> Incoming) res" where
  "connection_step (CallsConnect opened) (c, q) = Inr (ConnectToServer opened c, q)"
| "connection_step CallsDisconnect (c, q) = Inr (Disconnect c, q)"
| "connection_step CallsListen (c, q) = Inr (StartListening c, q)"
| "connection_step (CallsSend m) (c, q) = Inr (Connection_Send m c, q)"
| "connection_step TaskRuns (c, q) = bind_res (run_task c) (\<lambda>c. Inr (c, q))"
| "connection_step (BytesLeave n) (c, q) = Inr (snd (transmit n c), q)"
| "connection_step (WriteCompletes ec) (c, q) = bind_res (write_ends ec c) (\<lambda>c. Inr (c, q))"
| "connection_step (BytesArrive bs) (c, q) = Inr (receive (take (wanted c) bs) c, q)"
| "connection_step (ReadCompletes ec) (c, q) = Inr (read_ends ec (c, q))"

fun connection_run :: "connection_event list \<Rightarrow> Connection \<times> Incoming \<Rightarrow> (Connection \<times> Incoming) res" where
  "connection_run [] cq = Inr cq"
| "connection_run (e # es) cq = bind_res (connection_step e cq) (connection_run es)"

definition only_writes :: "Connection \<Rightarrow> bool" where
  "only_writes c \<longleftrightarrow> cn_reading c = None \<and>
     (case cn_writing c of
        Some (WritesValidation r) \<Rightarrow> False
      | Some _ \<Rightarrow> cn_out c \<noteq> []
      | None \<Rightarrow> True)"

lemma only_writes_WriteHeader:
  "cn_out c \<noteq> [] \<Longrightarrow> cn_reading c = None \<Longrightarrow> \<exists>c'. WriteHeader c = Inr c' \<and> only_writes c'"
  by (cases "cn_out c") (auto simp: WriteHeader_def ts_front_def only_writes_def)

lemma only_writes_message_written:
  assumes "cn_out c \<noteq> []" and "cn_reading c = None" and "cn_writing c = None"
  shows "\<exists>c'. message_written c = Inr c' \<and> only_writes c'"
proof -
  obtain m ms where out: "cn_out c = m # ms" using assms(1) by (cases "cn_out c") auto
  then show ?thesis using assms only_writes_WriteHeader [of "c\<lparr> cn_out := ms \<rparr>"]
    by (cases ms) (auto simp: message_written_def ts_pop_front_def ts_empty_def only_writes_def)
qed

lemma only_writes_send_task:
  assumes "only_writes c"
  shows "\<exists>c'. send_task m c = Inr c' \<and> only_writes c'"
proof (cases "cn_out c")
  case Nil
  then show ?thesis using assms only_writes_WriteHeader [of "c\<lparr> cn_out := [m] \<rparr>"]
    by (simp add: send_task_def ts_empty_def ts_push_back_def only_writes_def)
next
  case (Cons k ks)
  then show ?thesis using assms
    by (auto simp: send_task_def ts_empty_def ts_push_back_def only_writes_def split: option.splits WriteOp.splits)
qed

lemma only_writes_run_task:
  assumes "only_writes c"
  shows "\<exists>c'. run_task c = Inr c' \<and> only_writes c'"
proof (cases "cn_tasks c")
  case (Cons k ts)
  show ?thesis
  proof (cases k)
    case (SendTask m)
    moreover have "only_writes (c\<lparr> cn_tasks := ts \<rparr>)"
      using assms by (auto simp: only_writes_def split: option.splits WriteOp.splits)
    ultimately show ?thesis using Cons only_writes_send_task by (simp add: run_task_def)
  next
    case CloseTask
    then show ?thesis using Cons assms
      by (auto simp: run_task_def close_socket_def only_writes_def split: option.splits WriteOp.splits)
  qed
qed (use assms in \<open>simp add: run_task_def\<close>)

lemma only_writes_write_ends:
  assumes "only_writes c"
  shows "\<exists>c'. write_ends ec c = Inr c' \<and> only_writes c'"
proof (cases "cn_writing c")
  case (Some wr)
  let ?c = "c\<lparr> cn_writing := None \<rparr>"
  obtain m ms where out: "cn_out c = m # ms" and rd: "cn_reading c = None" and nv: "\<And>r. wr \<noteq> WritesValidation r"
    using assms Some by (cases "cn_out c") (auto simp: only_writes_def split: WriteOp.splits)
  note mw = only_writes_message_written [of ?c]
  have ws: "only_writes (close_socket ?c)" using rd by (simp add: only_writes_def close_socket_def)
  have wb: "\<exists>c'. WriteBody ?c = Inr c' \<and> only_writes c'"
    using out rd by (simp add: WriteBody_def ts_front_def only_writes_def)
  show ?thesis using Some assms out rd nv mw ws wb
    by (cases wr; cases ec) (auto simp: write_ends_def header_written_def body_written_def ts_front_def Let_def)
qed (use assms in \<open>simp add: write_ends_def\<close>)

text \<open>
  A connection never receives a message. Whatever is called of its public operations, and
  whatever the network does, no read is ever started, and nothing gets to the incoming queue: the
  only calls of \<open>ReadHeader\<close> follow a validation that no code starts. The operations never fail.
\<close>

theorem connection_never_receives:
  "\<exists>c. connection_run evs (new_connection parent now address opened, []) = Inr (c, []) \<and> cn_reading c = None"
proof -
  have step: "\<exists>c'. connection_step e (c, q) = Inr (c', q) \<and> only_writes c'" if ow: "only_writes c" for e c q
  proof (cases e)
    case TaskRuns
    then show ?thesis using only_writes_run_task [OF ow] by auto
  next
    case (WriteCompletes ec)
    then show ?thesis using only_writes_write_ends [OF ow, of ec] by auto
  next
    case (BytesLeave n)
    have "only_writes (snd (transmit n c))"
      using ow by (auto simp: only_writes_def transmit_def split: option.splits WriteOp.splits)
    then show ?thesis using BytesLeave by auto
  qed (use ow in \<open>auto simp: only_writes_def ConnectToServer_def Disconnect_def StartListening_def Connection_Send_def
      receive_def read_ends_def wanted_def split: option.splits WriteOp.splits\<close>)
  have run: "\<exists>c'. connection_run evs (c, q) = Inr (c', q) \<and> only_writes c'" if "only_writes c" for c q
    using that
  proof (induction evs arbitrary: c)
    case (Cons e evs)
    from step [OF Cons.prems, of e q] obtain c' where "connection_step e (c, q) = Inr (c', q)" "only_writes c'" by blast
    with Cons.IH [of c'] show ?case by simp
  qed simp
  have "only_writes (new_connection parent now address opened)" by (simp add: only_writes_def new_connection_def)
  from run [OF this, of "[]"] show ?thesis by (auto simp: only_writes_def)
qed

end
