(* ===== verification/Io_Server.thy ===== *)
theory Io_Server
  imports Io_Connection
begin

section \<open>Client and server of the Asio templates (network/asio/include/io_client_server.hpp)\<close>

text \<open>
  The client owns one connection, the server a deque of shared pointers to connections, which live
  in a heap; a pointer is an address or null. The context of Asio is stopped for good by \<open>stop\<close>.
  \<open>AsioServer::WaitForClientConnection\<close>, and so \<open>Start\<close>, calls \<open>ConnectToClient\<close>, which is commented
  out: no instance of them compiles, so the connections of a server are given here.
\<close>

subsection \<open>client_interface\<close>

record ClientInterface =
  ci_connection :: "Connection option"
  ci_thread :: bool                     \<comment> \<open>\<open>thrContext\<close> is joinable\<close>
  ci_stopped :: bool
  ci_incoming :: Incoming
  ci_released :: "Connection list"      \<comment> \<open>objects that \<open>release\<close> gave up without destroying them\<close>

definition new_client :: ClientInterface where
  "new_client = \<lparr> ci_connection = None, ci_thread = False, ci_stopped = False, ci_incoming = [], ci_released = [] \<rparr>"

text \<open>Assigning to a thread that is joinable terminates the program.\<close>

definition Client_Connect :: "bool \<Rightarrow> bool \<Rightarrow> nat \<Rightarrow> ClientInterface \<Rightarrow> (bool \<times> ClientInterface) res" where
  "Client_Connect resolved opened address ci =
     (if \<not> resolved then Inr (False, ci)
      else let c = ConnectToServer opened (new_connection client 0 address False);
               ci = ci\<lparr> ci_connection := Some c \<rparr>
           in if ci_thread ci then Inl UncaughtError else Inr (True, ci\<lparr> ci_thread := True \<rparr>))"

definition Client_IsConnected :: "ClientInterface \<Rightarrow> bool" where
  "Client_IsConnected ci = (case ci_connection ci of None \<Rightarrow> False | Some c \<Rightarrow> IsConnected c)"

fun run_tasks :: "nat \<Rightarrow> Connection \<Rightarrow> Connection res" where
  "run_tasks 0 c = Inr c"
| "run_tasks (Suc n) c = bind_res (run_task c) (run_tasks n)"

text \<open>Between the posting and the stop the thread of the context runs some number of tasks.\<close>

definition Client_Disconnect :: "nat \<Rightarrow> ClientInterface \<Rightarrow> ClientInterface res" where
  "Client_Disconnect n ci =
     (let ci = (if Client_IsConnected ci then ci\<lparr> ci_connection := map_option Disconnect (ci_connection ci) \<rparr> else ci)
      in case ci_connection ci of
           None \<Rightarrow> Inr (ci\<lparr> ci_stopped := True, ci_thread := False \<rparr>)
         | Some c \<Rightarrow> bind_res (if ci_thread ci \<and> \<not> ci_stopped ci then run_tasks n c else Inr c) (\<lambda>c.
             Inr (ci\<lparr> ci_connection := None, ci_stopped := True, ci_thread := False, ci_released := ci_released ci @ [c] \<rparr>)))"

definition Client_Send :: "IoMessage \<Rightarrow> ClientInterface \<Rightarrow> ClientInterface" where
  "Client_Send m ci =
     (if Client_IsConnected ci then ci\<lparr> ci_connection := map_option (Connection_Send m) (ci_connection ci) \<rparr> else ci)"

definition Client_Incoming :: "ClientInterface \<Rightarrow> Incoming" where
  "Client_Incoming ci = ci_incoming ci"

text \<open>
  When the stop comes before the posted task, \<open>Disconnect\<close> gives up the connection with an open
  socket.
\<close>

lemma disconnect_leaks_the_socket:
  assumes "Client_IsConnected ci"
  shows "\<exists>ci' c. Client_Disconnect 0 ci = Inr ci' \<and> ci_connection ci' = None \<and> ci_released ci' = ci_released ci @ [c] \<and> cn_open c"
  using assms
  by (auto simp: Client_Disconnect_def Client_IsConnected_def IsConnected_def Disconnect_def Let_def split: option.splits)

subsection \<open>AsioServer\<close>

datatype ServerAction = OnClientDisconnect "nat option" | OnMessage "nat option" IoMessage

record AsioServer =
  sv_heap :: "nat \<Rightarrow> Connection option"
  sv_connections :: "nat option list"
  sv_incoming :: Incoming
  sv_trace :: "ServerAction list"
  sv_thread :: bool
  sv_stopped :: bool

definition Server_Stop :: "AsioServer \<Rightarrow> AsioServer" where
  "Server_Stop s = s\<lparr> sv_stopped := True, sv_thread := False \<rparr>"

text \<open>\<open>client && client->IsConnected()\<close>\<close>

definition client_live :: "AsioServer \<Rightarrow> nat option \<Rightarrow> bool" where
  "client_live s p = (case p of None \<Rightarrow> False
     | Some a \<Rightarrow> (case sv_heap s a of None \<Rightarrow> False | Some c \<Rightarrow> IsConnected c))"

definition client_send :: "IoMessage \<Rightarrow> nat option \<Rightarrow> AsioServer \<Rightarrow> AsioServer" where
  "client_send m p s = (case p of None \<Rightarrow> s
     | Some a \<Rightarrow> s\<lparr> sv_heap := (sv_heap s)(a := map_option (Connection_Send m) (sv_heap s a)) \<rparr>)"

definition report :: "ServerAction \<Rightarrow> AsioServer \<Rightarrow> AsioServer" where
  "report x s = s\<lparr> sv_trace := sv_trace s @ [x] \<rparr>"

text \<open>The pointer is reset before the pointers equal to it are removed.\<close>

definition MessageClient :: "nat option \<Rightarrow> IoMessage \<Rightarrow> AsioServer \<Rightarrow> AsioServer" where
  "MessageClient p m s =
     (if client_live s p then client_send m p s
      else let s = report (OnClientDisconnect p) s; p = None
           in s\<lparr> sv_connections := removeAll p (sv_connections s) \<rparr>)"

fun message_loop :: "IoMessage \<Rightarrow> nat option \<Rightarrow> nat option list \<Rightarrow> AsioServer \<Rightarrow> nat option list \<times> bool \<times> AsioServer" where
  "message_loop m ignore [] s = ([], False, s)"
| "message_loop m ignore (p # ps) s =
     (if client_live s p then
        (let s = (if p \<noteq> ignore then client_send m p s else s); (ps, invalid, s) = message_loop m ignore ps s
         in (p # ps, invalid, s))
      else
        (let s = report (OnClientDisconnect p) s; (ps, invalid, s) = message_loop m ignore ps s
         in (None # ps, True, s)))"

definition MessageAllClients :: "IoMessage \<Rightarrow> nat option \<Rightarrow> AsioServer \<Rightarrow> AsioServer" where
  "MessageAllClients m pIgnoreClient s =
     (let (ps, bInvalidClientExists, s) = message_loop m pIgnoreClient (sv_connections s) s
      in s\<lparr> sv_connections := if bInvalidClientExists then removeAll None ps else ps \<rparr>)"

text \<open>\<open>Update\<close>: \<open>None\<close> when it waits. \<open>OnMessage\<close> does nothing here.\<close>

fun update_loop :: "u64 \<Rightarrow> u64 \<Rightarrow> Incoming \<Rightarrow> ServerAction list \<Rightarrow> Incoming \<times> ServerAction list" where
  "update_loop nMaxMessages nMessageCount [] tr = ([], tr)"
| "update_loop nMaxMessages nMessageCount ((remote, m) # q) tr =
     (if nMessageCount < nMaxMessages
      then update_loop nMaxMessages (nMessageCount + 1) q (tr @ [OnMessage remote m])
      else ((remote, m) # q, tr))"

definition Server_Update :: "u64 \<Rightarrow> bool \<Rightarrow> AsioServer \<Rightarrow> AsioServer option" where
  "Server_Update nMaxMessages bWait s =
     (if bWait \<and> ts_empty (sv_incoming s) then None
      else let (q, tr) = update_loop nMaxMessages 0 (sv_incoming s) (sv_trace s)
           in Some (s\<lparr> sv_incoming := q, sv_trace := tr \<rparr>))"

lemma update_loop_take:
  "cnt \<le> n \<Longrightarrow> update_loop n cnt q tr =
     (drop (unat n - unat cnt) q, tr @ map (\<lambda>(r, m). OnMessage r m) (take (unat n - unat cnt) q))"
proof (induction q arbitrary: cnt tr)
  case (Cons x q)
  obtain r m where x: "x = (r, m)" by (cases x)
  show ?case
  proof (cases "cnt < n")
    case True
    then have lt: "unat cnt < unat n" by (simp add: word_less_nat_alt)
    have "unat n < 2 ^ LENGTH(64)" by (rule unsigned_less)
    with lt have "unat (cnt + 1) = Suc (unat cnt)" by (simp add: unat_word_ariths)
    moreover note lt
    moreover have "cnt + 1 \<le> n" using calculation by (simp add: word_le_nat_alt)
    ultimately show ?thesis using Cons.IH [of "cnt + 1" "tr @ [OnMessage r m]"] True x
      by (simp add: take_Cons' drop_Cons' flip: Suc_diff_Suc)
  next
    case False
    then show ?thesis using Cons.prems x by simp
  qed
qed simp

text \<open>One call of \<open>Update\<close> hands over the first messages, at most as many as it is told, in their order.\<close>

lemma Update_takes:
  "sv_incoming s \<noteq> [] \<or> \<not> bWait \<Longrightarrow> Server_Update n bWait s = Some (s\<lparr> sv_incoming := drop (unat n) (sv_incoming s),
     sv_trace := sv_trace s @ map (\<lambda>(r, m). OnMessage r m) (take (unat n) (sv_incoming s)) \<rparr>)"
  by (auto simp: Server_Update_def ts_empty_def update_loop_take)

lemma client_live_send [simp]: "client_live (client_send m p s) = client_live s"
  by (auto simp: client_live_def client_send_def IsConnected_def Connection_Send_def fun_eq_iff split: option.splits)

lemma client_send_frame [simp]:
  "sv_trace (client_send m p s) = sv_trace s" "(client_send m p s)\<lparr> sv_heap := h \<rparr> = s\<lparr> sv_heap := h \<rparr>"
  by (simp_all add: client_send_def split: option.split)

lemma report_frame [simp]:
  "sv_trace (report x s) = sv_trace s @ [x]" "(report x s)\<lparr> sv_heap := h, sv_trace := tr \<rparr> = s\<lparr> sv_heap := h, sv_trace := tr \<rparr>"
  by (simp_all add: report_def)

lemma client_live_report [simp]: "client_live (report x s) = client_live s"
  by (auto simp: client_live_def report_def fun_eq_iff split: option.splits)

definition sent_to :: "IoMessage \<Rightarrow> nat option set \<Rightarrow> AsioServer \<Rightarrow> nat \<Rightarrow> Connection option" where
  "sent_to m ps s a = (if Some a \<in> ps \<and> client_live s (Some a) then map_option (Connection_Send m) (sv_heap s a) else sv_heap s a)"

lemma message_loop_effect:
  assumes "distinct (filter (\<lambda>p. p \<noteq> None) ps)"
  shows "message_loop m ignore ps s =
    (map (\<lambda>p. if client_live s p then p else None) ps, list_ex (\<lambda>p. \<not> client_live s p) ps,
     s\<lparr> sv_heap := sent_to m (set ps - {ignore}) s,
        sv_trace := sv_trace s @ map OnClientDisconnect (filter (\<lambda>p. \<not> client_live s p) ps) \<rparr>)"
  using assms
proof (induction ps arbitrary: s)
  case Nil
  have "sent_to m ({} - {ignore}) s = sv_heap s" by (simp add: sent_to_def fun_eq_iff)
  then show ?case by simp
next
  case (Cons p ps)
  show ?case
  proof (cases "client_live s p")
    case True
    then obtain a where p: "p = Some a" by (auto simp: client_live_def split: option.splits)
    with Cons.prems have np: "p \<notin> set ps" by auto
    have "sent_to m (set ps - {ignore}) (client_send m p s) = sent_to m (set (p # ps) - {ignore}) s" if "p \<noteq> ignore"
    proof -
      have "sv_heap (client_send m p s) = (sv_heap s)(a := map_option (Connection_Send m) (sv_heap s a))"
        by (simp add: client_send_def p)
      then show ?thesis using that np p True by (auto simp: sent_to_def fun_eq_iff)
    qed
    moreover have "sent_to m (set ps - {ignore}) s = sent_to m (set (p # ps) - {ignore}) s" if "p = ignore"
      using that by (auto simp: sent_to_def fun_eq_iff)
    ultimately show ?thesis using Cons.IH [of s] Cons.IH [of "client_send m p s"] Cons.prems True p
      by (cases "p = ignore") (auto simp: Let_def)
  next
    case False
    then have "sent_to m (set ps - {ignore}) (report (OnClientDisconnect p) s) = sent_to m (set (p # ps) - {ignore}) s"
      by (auto simp: sent_to_def fun_eq_iff report_def client_live_def)
    then show ?thesis using Cons.IH [of "report (OnClientDisconnect p) s"] Cons.prems False
      by (cases p) (auto simp: Let_def)
  qed
qed

text \<open>
  A message for all clients is posted once to every connected client but the ignored one;
  every other client is reported and leaves the deque, and nobody else does. A message for a
  single client that is no longer connected is reported too, but the client stays: what is
  removed are the null pointers, since its pointer was reset before the comparison.
\<close>

theorem dead_clients_leave_only_on_broadcast:
  assumes "distinct (filter (\<lambda>p. p \<noteq> None) (sv_connections s))"
  shows "MessageAllClients m ignore s = s\<lparr>
       sv_connections := filter (client_live s) (sv_connections s),
       sv_heap := sent_to m (set (sv_connections s) - {ignore}) s,
       sv_trace := sv_trace s @ map OnClientDisconnect (filter (\<lambda>p. \<not> client_live s p) (sv_connections s)) \<rparr> \<and>
    MessageClient p m s =
      (if client_live s p then client_send m p s
       else s\<lparr> sv_connections := filter (\<lambda>q. q \<noteq> None) (sv_connections s), sv_trace := sv_trace s @ [OnClientDisconnect p] \<rparr>)"
proof -
  have "removeAll None (map (\<lambda>p. if client_live s p then p else None) ps) = filter (client_live s) ps" for ps
    by (induction ps) (auto simp: client_live_def)
  moreover have "map (\<lambda>p. if client_live s p then p else None) ps = filter (client_live s) ps" if "\<not> list_ex (\<lambda>p. \<not> client_live s p) ps" for ps
    using that by (induction ps) auto
  moreover have "removeAll None (sv_connections s) = filter (\<lambda>q. q \<noteq> None) (sv_connections s)"
    by (simp add: removeAll_filter_not_eq eq_commute)
  ultimately show ?thesis
    by (auto simp: MessageAllClients_def message_loop_effect [OF assms] MessageClient_def report_def Let_def)
qed

lemma dead_clients_leave_only_on_broadcast_witness:
  "sv_connections (MessageAllClients (new_message 1) None
     \<lparr> sv_heap = [7 \<mapsto> new_connection server 0 7 True, 8 \<mapsto> new_connection server 0 8 False],
       sv_connections = [Some 7, Some 8], sv_incoming = [], sv_trace = [], sv_thread = True, sv_stopped = False \<rparr>) = [Some 7]"
  using dead_clients_leave_only_on_broadcast [of "\<lparr> sv_heap = [7 \<mapsto> new_connection server 0 7 True, 8 \<mapsto> new_connection server 0 8 False],
       sv_connections = [Some 7, Some 8], sv_incoming = [], sv_trace = [], sv_thread = True, sv_stopped = False \<rparr>" "new_message 1" None None]
  by (simp add: client_live_def IsConnected_def new_connection_def)

end
