(* ===== verification/Unit_Harness.thy ===== *)
theory Unit_Harness
  imports Pax_Prelude
begin

section \<open>The harness of the unit tests, and the strings of include/common.hpp\<close>

text \<open>
  The repository's own tests (src/unittest) are definitions of the model that run the modelled
  operations and end in a verdict: \<open>None\<close> is a test that does not end, \<open>Inl\<close> a test whose
  program faults, and \<open>Inr\<close> says whether all assertions held. \<open>ASSERT\<close> leaves the test at once,
  \<open>EXPECT\<close> goes on. A test is a chain of calls in the order of the source, each passing its
  results and the new state to the rest of the test.
\<close>

type_synonym verdict = "bool res option"

definition passed :: verdict where "passed = Some (Inr True)"
definition failed :: verdict where "failed = Some (Inr False)"

definition ASSERT :: "bool \<Rightarrow> verdict \<Rightarrow> verdict" where
  "ASSERT b rest = (if b then rest else failed)"

definition EXPECT :: "bool \<Rightarrow> verdict \<Rightarrow> verdict" where
  "EXPECT b rest = (if b then rest else map_option (map_sum id (\<lambda>_. False)) rest)"

definition call :: "'a res \<Rightarrow> ('a \<Rightarrow> verdict) \<Rightarrow> verdict" where
  "call r rest = (case r of Inl e \<Rightarrow> Some (Inl e) | Inr x \<Rightarrow> rest x)"

definition run :: "'a res option \<Rightarrow> ('a \<Rightarrow> verdict) \<Rightarrow> verdict" where
  "run r rest = (case r of None \<Rightarrow> None | Some r \<Rightarrow> call r rest)"

named_theorems test_simps \<open>evaluation of the unit tests\<close>

lemma test_steps [test_simps]:
  "ASSERT True rest = rest" "ASSERT False rest = failed" "EXPECT True rest = rest"
  "call (Inr x) f = f x" "call (Inl e) f = Some (Inl e)"
  "run (Some r) f = call r f" "run None f = None"
  by (simp_all add: ASSERT_def EXPECT_def call_def run_def)

lemma ASSERT_mono [partial_function_mono]:
  "mono_option F \<Longrightarrow> mono_option (\<lambda>f. ASSERT b (F f))"
  by (cases b) (simp_all add: test_simps option.const_mono)

lemma call_mono [partial_function_mono]:
  "(\<And>x. mono_option (\<lambda>f. F x f)) \<Longrightarrow> mono_option (\<lambda>f. call r (\<lambda>x. F x f))"
  by (cases r) (simp_all add: test_simps option.const_mono)

subsection \<open>SizeString (include/common.hpp)\<close>

text \<open>
  An unsigned integer of \<open>k\<close> bytes as \<open>2 k\<close> hexadecimal digits or \<open>8 k\<close> binary ones: the digits
  a stream prints, filled with zeros on the left to the width.
\<close>

definition digit_char :: "nat \<Rightarrow> char" where
  "digit_char d = (if d < 10 then char_of (48 + d) else char_of (87 + d))"

fun base_digits :: "nat \<Rightarrow> nat \<Rightarrow> string" where
  "base_digits b n = (if n < b \<or> b < 2 then [digit_char n] else base_digits b (n div b) @ [digit_char (n mod b)])"

declare base_digits.simps [simp del]

definition setw :: "nat \<Rightarrow> string \<Rightarrow> string" where
  "setw w s = replicate (w - length s) (CHR ''0'') @ s"

definition HexStringSize :: "nat \<Rightarrow> nat" where "HexStringSize k = k * 2"
definition BitStringSize :: "nat \<Rightarrow> nat" where "BitStringSize k = k * 8"

definition ToHexString :: "u64 \<Rightarrow> string" where
  "ToHexString t = setw (HexStringSize 8) (base_digits 16 (unat t))"

definition ToBitString :: "u64 \<Rightarrow> string" where
  "ToBitString t = setw (BitStringSize 8) (base_digits 2 (unat t))"

lemma length_base_digits: "n < b ^ d \<Longrightarrow> 2 \<le> b \<Longrightarrow> 0 < d \<Longrightarrow> length (base_digits b n) \<le> d"
proof (induction b n arbitrary: d rule: base_digits.induct)
  case (1 b n)
  show ?case
  proof (cases "n < b")
    case True
    with 1 show ?thesis by (subst base_digits.simps) simp
  next
    case False
    obtain d' where d: "d = Suc d'" using 1(4) by (cases d) auto
    have "0 < d'" using False 1(2) d by (cases d') auto
    moreover from this have "n div b < b ^ d'" using 1(2,3) d by (simp add: less_mult_imp_div_less mult.commute)
    ultimately show ?thesis using 1(1) [of d'] 1(3) False d by (subst base_digits.simps) simp
  qed
qed

lemma length_ToHexString [simp]: "length (ToHexString t) = 16"
proof -
  have "unat t < 16 ^ 16" using unat_u64_less [of t] by simp
  from length_base_digits [OF this] show ?thesis by (simp add: ToHexString_def setw_def HexStringSize_def)
qed

lemma length_ToBitString [simp]: "length (ToBitString t) = 64"
proof -
  have "unat t < 2 ^ 64" using unat_u64_less [of t] by simp
  from length_base_digits [OF this] show ?thesis by (simp add: ToBitString_def setw_def BitStringSize_def)
qed

text \<open>The digits determine the number: different instances have different keys.\<close>

definition digit_val :: "char \<Rightarrow> nat" where
  "digit_val c = (if of_char c < (58 :: nat) then of_char c - 48 else of_char c - 87)"

definition base_val :: "nat \<Rightarrow> string \<Rightarrow> nat" where
  "base_val b s = foldl (\<lambda>acc c. b * acc + digit_val c) 0 s"

lemma digit_val_char [simp]: "d < 16 \<Longrightarrow> digit_val (digit_char d) = d"
  by (simp add: digit_val_def digit_char_def)

lemma base_val_digits: "2 \<le> b \<Longrightarrow> b \<le> 16 \<Longrightarrow> base_val b (base_digits b n) = n"
proof (induction b n rule: base_digits.induct)
  case (1 b n)
  show ?case
  proof (cases "n < b")
    case True
    with 1 show ?thesis by (subst base_digits.simps) (simp add: base_val_def)
  next
    case False
    have "n mod b < 16" using 1(2,3) by (metis mod_less_divisor not_numeral_le_zero order_less_le_trans zero_less_iff_neq_zero)
    with 1 False show ?thesis by (subst base_digits.simps) (simp add: base_val_def)
  qed
qed

lemma base_val_setw: "base_val b (setw w s) = base_val b s"
proof -
  have "foldl (\<lambda>acc c. b * acc + digit_val c) 0 (replicate n (CHR ''0'')) = 0" for n
    by (induction n) (simp_all add: digit_val_def)
  then show ?thesis by (simp add: base_val_def setw_def)
qed

lemma ToHexString_inject [simp]: "ToHexString a = ToHexString b \<longleftrightarrow> a = b"
  by (metis ToHexString_def base_val_digits base_val_setw numeral_le_iff order_refl semiring_norm(68,69,71) unsigned_word_eqI)

lemma ToBitString_inject [simp]: "ToBitString a = ToBitString b \<longleftrightarrow> a = b"
  by (metis ToBitString_def base_val_digits base_val_setw numeral_le_iff order_refl semiring_norm(68,69,71) unsigned_word_eqI)

subsection \<open>Decimal numbers\<close>

lemma length_nat_digits: "n < 10 ^ d \<Longrightarrow> 0 < d \<Longrightarrow> length (nat_digits n) \<le> d"
proof (induction n arbitrary: d rule: nat_digits.induct)
  case (1 n)
  show ?case
  proof (cases "n < 10")
    case True
    with 1 show ?thesis by (subst nat_digits.simps) simp
  next
    case False
    obtain d' where d: "d = Suc d'" using 1(3) by (cases d) auto
    have "0 < d'" using False 1(2) d by (cases d') auto
    moreover from this have "n div 10 < 10 ^ d'" using 1(2) d by (simp add: less_mult_imp_div_less mult.commute)
    ultimately show ?thesis using 1(1) [of d'] False d by (subst nat_digits.simps) simp
  qed
qed

lemma length_to_string: "length (to_string w) \<le> 20" "0 < length (to_string w)"
proof -
  have "unat w < 10 ^ 20" using unat_u64_less [of w] by simp
  then show "length (to_string w) \<le> 20" unfolding to_string_def by (rule length_nat_digits) simp
  show "0 < length (to_string w)" by (simp add: to_string_def nat_digits_nonempty)
qed

end
