(* ===== verification/Segment_Positions.thy ===== *)
theory Segment_Positions
  imports Segment_Sessions
begin

section \<open>Where a record goes\<close>

text \<open>
  The index that \<open>Append\<close> returns names the current segment and offset or, where the record does
  not fit, the start of the next segment. After the first change of segment the metadata file
  holds an identity and a checksum for good, whatever is appended later.
\<close>

lemma Padding_frame:
  "PaddingIfNewSegment (s, fs) = (r, s', fs') \<Longrightarrow> \<exists>z. s' = s\<lparr> sg_file_size := z \<rparr>"
  by (auto simp: PaddingIfNewSegment_def Let_def split: prod.splits if_splits)
    (metis SegmentStore.surjective SegmentStore.update_convs(6))+

lemma NewSegment_frame:
  assumes "NewSegment crc (s, fs) = Inr (True, s', fs')"
  shows "sg_cur_id s' = sg_cur_id s + 1" and "sg_scheduler s' = sg_scheduler s"
proof -
  have "sg_cur_id s' = sg_cur_id s + 1 \<and> sg_scheduler s' = sg_scheduler s"
    using assms
    by (auto simp: NewSegment_def Let_def bind_res_eq_Inr split: prod.splits if_splits dest!: Padding_frame)
  then show "sg_cur_id s' = sg_cur_id s + 1" and "sg_scheduler s' = sg_scheduler s" by simp_all
qed

definition rec_len :: "string \<Rightarrow> string \<Rightarrow> nat" where
  "rec_len k v = 8 + length k + length v"

definition goes_on :: "SegmentStore \<Rightarrow> string \<Rightarrow> string \<Rightarrow> bool" where
  "goes_on s k v \<longleftrightarrow> unat (sg_cur_offset s) + rec_len k v \<le> unat (sg_file_size s)"

lemma full_goes_on:
  assumes i: "seg_inv (s, fs)" and k: "length key = unat (sg_key_len s)"
    and v: "rec_len key val \<le> unat (sg_max_size s)"
  shows "sg_cur_offset s + (8 + (sg_key_len s + of_nat (length val))) > sg_file_size s \<longleftrightarrow> \<not> goes_on s key val"
proof -
  let ?len = "8 + (sg_key_len s + of_nat (length val)) :: u64"
  have "?len = of_nat (rec_len key val)" using k by (simp add: rec_len_def)
  then have ul: "unat ?len = rec_len key val"
    using v seg_invD(8) [OF i] by (simp only:) (rule unat_of_nat_u64, simp add: rec_len_def)
  have "unat (sg_cur_offset s) < 2 ^ 62" using seg_invD(6,7) [OF i] by (simp add: word_le_nat_alt)
  then have "unat (sg_cur_offset s) + unat ?len < 2 ^ 64" using ul v seg_invD(8) [OF i] by simp
  then have "unat (sg_cur_offset s + ?len) = unat (sg_cur_offset s) + rec_len key val"
    using ul by (subst unat_add_lem [THEN iffD1]) simp_all
  then show ?thesis by (simp add: goes_on_def word_less_nat_alt not_le)
qed

lemma Append_position:
  assumes i: "seg_inv (s, fs)" and k: "length key = unat (sg_key_len s)"
    and v: "rec_len key val \<le> unat (sg_max_size s)"
    and a: "Append crc key val (s, fs) = Inr (Some idx, s', fs')"
  shows "idx = (if goes_on s key val then ToSegmentIndex (sg_cur_id s) (sg_cur_offset s) (ucast (crc (key @ val)))
                else ToSegmentIndex (sg_cur_id s + 1) 0 (ucast (crc (key @ val))))"
    and "sg_cur_id s' = (if goes_on s key val then sg_cur_id s else sg_cur_id s + 1)"
    and "unat (sg_cur_offset s') = (if goes_on s key val then unat (sg_cur_offset s) else 0) + rec_len key val"
    and "sg_file_size s' = (if goes_on s key val then sg_file_size s else sg_max_size s)"
    and "sg_scheduler s' = sg_scheduler s"
proof -
  let ?len = "8 + (sg_key_len s + of_nat (length val)) :: u64"
  have kv: "length key + length val < 2 ^ 62" using v seg_invD(8) [OF i] by (simp add: rec_len_def)
  have "?len = of_nat (rec_len key val)" using k by (simp add: rec_len_def)
  then have ul: "unat ?len = rec_len key val"
    using kv by (simp only:) (rule unat_of_nat_u64, simp add: rec_len_def)
  have off: "unat (sg_cur_offset s) < 2 ^ 62" using seg_invD(6,7) [OF i] by (simp add: word_le_nat_alt)
  have "unat (sg_cur_offset s) + unat ?len < 2 ^ 64" using off ul kv by (simp add: rec_len_def)
  then have us: "unat (sg_cur_offset s + ?len) = unat (sg_cur_offset s) + rec_len key val"
    using ul by (subst unat_add_lem [THEN iffD1]) simp_all
  have full: "sg_cur_offset s + ?len > sg_file_size s \<longleftrightarrow> \<not> goes_on s key val"
    using us by (simp add: goes_on_def word_less_nat_alt not_le)
  have big: "\<not> ?len > sg_max_size s" using v ul by (simp add: word_less_nat_alt)
  obtain s1 fs1 where room: "append_room crc ?len (s, fs) = Inr (True, s1, fs1)"
    and idx: "idx = ToSegmentIndex (sg_cur_id s1) (sg_cur_offset s1) (ucast (crc (key @ val)))"
    and s': "s' = s1\<lparr> sg_cur_offset := sg_cur_offset s1 + ?len \<rparr>" and kl: "sg_key_len s1 = sg_key_len s"
  proof -
    obtain ok s1 fs1 where room: "append_room crc ?len (s, fs) = Inr (ok, s1, fs1)" and ok
      using a big by (auto simp: Append_def Let_def bind_res_eq_Inr split: if_splits)
    have kl: "sg_key_len s1 = sg_key_len s"
      using append_room_keeps [OF i room] big by (simp add: keeps_def)
    have "copied_key (sg_key_len s1) key = Inr key" using k kl by (simp add: copied_key_def)
    with a big room \<open>ok\<close> kl that show thesis
      by (auto simp: Append_def Let_def split: prod.splits if_splits)
  qed
  have c: "sg_cur_id s1 = (if goes_on s key val then sg_cur_id s else sg_cur_id s + 1) \<and>
      sg_cur_offset s1 = (if goes_on s key val then sg_cur_offset s else 0) \<and>
      sg_file_size s1 = (if goes_on s key val then sg_file_size s else sg_max_size s) \<and>
      sg_scheduler s1 = sg_scheduler s"
  proof (cases "goes_on s key val")
    case True
    then show ?thesis using room full by (simp add: append_room_def)
  next
    case False
    then obtain t fs0 s2 where t: "sys_ftruncate (sg_cur_fd s) (sint (sg_cur_offset s)) fs = (t, fs0)"
      and n: "NewSegment crc (s, sys_close (sg_cur_fd s) fs0) = Inr (True, s2, fs1)"
      and s1: "s1 = s2\<lparr> sg_cur_offset := 0 \<rparr>"
      using room full by (auto simp: append_room_def Let_def bind_res_eq_Inr split: prod.splits if_splits)
    have "keeps crc (s, fs) (s, fs0)"
    proof (cases "fd_at (sg_cur_fd s) fs")
      case None
      with t have "quiet fs fs0" using ftruncate_without_fd by blast
      then show ?thesis by (rule quiet_keeps [OF i])
    next
      case (Some f)
      then obtain ino p where f: "fd_at (sg_cur_fd s) fs = Some (ino, p)" by (cases f) auto
      have "touches ino (unat (sg_cur_offset s)) fs fs0"
        using touches_ftruncate [OF t f] off by (simp add: sint_small)
      then show ?thesis using f by (intro touches_keeps [OF i]) auto
    qed
    then have i0: "seg_inv (s, fs0)" by (simp add: keeps_def)
    have i2: "seg_inv (s, sys_close (sg_cur_fd s) fs0)" using close_keeps(1) [OF i0] by (simp add: keeps_def)
    from NewSegment_keeps [OF i2 close_keeps(2) [OF i0] n] NewSegment_frame [OF n] False show ?thesis
      by (simp add: s1)
  qed
  show "idx = (if goes_on s key val then ToSegmentIndex (sg_cur_id s) (sg_cur_offset s) (ucast (crc (key @ val)))
                else ToSegmentIndex (sg_cur_id s + 1) 0 (ucast (crc (key @ val))))"
    and "sg_cur_id s' = (if goes_on s key val then sg_cur_id s else sg_cur_id s + 1)"
    and "sg_file_size s' = (if goes_on s key val then sg_file_size s else sg_max_size s)"
    and "sg_scheduler s' = sg_scheduler s"
    using c idx s' by simp_all
  show "unat (sg_cur_offset s') = (if goes_on s key val then unat (sg_cur_offset s) else 0) + rec_len key val"
    using c s' us ul by (simp split: if_splits)
qed

subsection \<open>A store at work\<close>

text \<open>
  A store that can append, with its directory and its metadata file; \<open>b\<close> says that the segment
  was changed, after which the metadata file holds twelve bytes.
\<close>

definition running :: "LogStorageOptions \<Rightarrow> bool \<Rightarrow> SegmentStore \<times> FS \<Rightarrow> bool" where
  "running options b sf \<longleftrightarrow> (case sf of (s, fs) \<Rightarrow>
     seg_ready (s, fs) \<and> lo_dbPath options \<noteq> [] \<and> lo_indexKeyLength options \<noteq> 0 \<and>
     sg_db_path s = store_dir (lo_dbPath options) \<and> sg_key_len s = lo_indexKeyLength options \<and>
     sg_max_size s = lo_segmentMaxSize options \<and> store_dir (lo_dbPath options) \<in> set (fs_dirs fs) \<and>
     meta_path (lo_dbPath options) \<notin> set (fs_dirs fs) \<and>
     (\<exists>mino mp. fd_at (sg_meta_fd s) fs = Some (mino, mp) \<and>
        map_of (fs_files fs) (meta_path (lo_dbPath options)) = Some mino \<and>
        (b \<longrightarrow> 12 \<le> length (fs_data fs mino))))"

lemma restartable_running: "restartable options rs (s, fs) \<Longrightarrow> running options False (s, fs)"
  unfolding restartable_def running_def prod.case by blast

lemma running_restart:
  assumes "running options True (s, fs)" and "sg_db_path s0 = []"
  shows "Segment_Init crc options (s0, fs) = Some (Inl OutOfBounds)"
proof -
  obtain mino where "map_of (fs_files fs) (meta_path (lo_dbPath options)) = Some mino"
    "12 \<le> length (fs_data fs mino)"
    using assms(1) unfolding running_def prod.case by blast
  with assms show ?thesis
    by (intro Segment_Init_overflow) (auto simp: running_def seg_ready_def)
qed

lemma running_write:
  assumes r: "running options b (s, fs)" and a: "Append crc key val (s, fs) = Inr (Some idx, s', fs')"
    and v: "rec_len key val \<le> unat (sg_max_size s)" and k: "length key = unat (sg_key_len s)"
    and sr: "seg_ready (s', fs')" and ks: "keeps crc (s, fs) (s', fs')"
  shows "running options (b \<or> \<not> goes_on s key val) (s', fs')"
proof -
  let ?len = "8 + (sg_key_len s + of_nat (length val)) :: u64"
  let ?mp = "meta_path (lo_dbPath options)"
  have rdy: "seg_ready (s, fs)" and c: "lo_dbPath options \<noteq> []" "lo_indexKeyLength options \<noteq> 0"
      "sg_db_path s = store_dir (lo_dbPath options)" "sg_key_len s = lo_indexKeyLength options"
      "sg_max_size s = lo_segmentMaxSize options"
      "store_dir (lo_dbPath options) \<in> set (fs_dirs fs)" "?mp \<notin> set (fs_dirs fs)"
    using r by (auto simp: running_def)
  obtain mino mp where m: "fd_at (sg_meta_fd s) fs = Some (mino, mp)" "map_of (fs_files fs) ?mp = Some mino"
      "b \<Longrightarrow> 12 \<le> length (fs_data fs mino)"
    using r by (auto simp: running_def)
  have i: "seg_inv (s, fs)" and e: "fs_faults fs = []" using rdy by (simp_all add: seg_ready_def)
  obtain ino p where cur: "fd_at (sg_cur_fd s) fs = Some (ino, p)" using rdy by (auto simp: seg_ready_def)
  have big: "\<not> ?len > sg_max_size s" using a by (auto simp: Append_def Let_def)
  obtain s1 fs1 where room: "append_room crc ?len (s, fs) = Inr (True, s1, fs1)"
    using a big by (auto simp: Append_def Let_def bind_res_eq_Inr split: if_splits)
  have k1: "keeps crc (s, fs) (s1, fs1)" using append_room_keeps [OF i room] big by simp
  then have i1: "seg_inv (s1, fs1)" and e1: "fs_faults fs1 = []" and c1: "sg_db_path s1 = store_dir (lo_dbPath options)"
      "sg_meta_fd s1 = sg_meta_fd s" "sg_key_len s1 = sg_key_len s"
    using e c(3) by (simp_all add: keeps_def)
  note full = full_goes_on [OF i k v]
  have fs1: "fs_dirs fs1 = fs_dirs fs \<and> map_of (fs_files fs1) ?mp = Some mino \<and>
      (\<exists>mp. fd_at (sg_meta_fd s) fs1 = Some (mino, mp)) \<and>
      (b \<or> \<not> goes_on s key val \<longrightarrow> 12 \<le> length (fs_data fs1 mino))"
  proof (cases "goes_on s key val")
    case True
    with full room have "fs1 = fs" by (simp add: append_room_def)
    with m True show ?thesis by simp
  next
    case False
    with full have f: "sg_cur_offset s + ?len > sg_file_size s" by simp
    note rm = append_room_metadata [OF i e m(1) cur f room]
    then obtain sid j where "fs_files fs1 = (ToSegmentPath sid s, j) # fs_files fs" by blast
    with rm m(2) meta_path_no_segment [OF c(3), of sid] show ?thesis by simp
  qed
  then have m1: "map_of (fs_files fs1) ?mp = Some mino" by simp
  have mno: "\<forall>sid. map_of (fs_files fs1) (ToSegmentPath sid s1) \<noteq> Some mino"
    using seg_invD(1) [OF i1 m1] meta_path_no_segment [OF c1(1)] by metis
  obtain kb where ck: "copied_key (sg_key_len s1) key = Inr kb"
    using a big room by (auto simp: Append_def Let_def bind_res_eq_Inr)
  obtain q fs2 where l: "sys_lseek_set (sg_cur_fd s1) (sint (sg_cur_offset s1)) fs1 = (q, fs2)" by force
  obtain n fs3 where w: "sys_write (sg_cur_fd s1) (word_bytes 8 (sg_key_len s + of_nat (length val)) @ kb @ val) fs2
      = (n, fs3)" by force
  have "fs' = fs3" using a big room ck l w by (auto simp: Append_def Let_def split: if_splits)
  with append_write_touches [OF i1 mno [rule_format] l w]
  have f: "fs_files fs' = fs_files fs1" "fs_dirs fs' = fs_dirs fs1" "fs_data fs' mino = fs_data fs1 mino"
      "map_option fst (fd_at (sg_meta_fd s) fs') = map_option fst (fd_at (sg_meta_fd s) fs1)"
    by simp_all
  obtain mp' where "fd_at (sg_meta_fd s) fs' = Some (mino, mp')" using fs1 f(4) by auto
  with sr ks c f fs1 show ?thesis by (auto simp: running_def keeps_def)
qed

text \<open>A segment that is left is cut at its last record.\<close>

lemma left_segment_is_cut:
  assumes r: "running options b (s, fs)" and a: "Append crc key val (s, fs) = Inr (Some idx, s', fs')"
    and v: "rec_len key val \<le> unat (sg_max_size s)" and k: "length key = unat (sg_key_len s)"
    and n: "\<not> goes_on s key val"
  shows "\<exists>ino. map_of (fs_files fs') (ToSegmentPath (sg_cur_id s) s) = Some ino \<and>
    length (fs_data fs' ino) = unat (sg_cur_offset s)"
proof -
  let ?len = "8 + (sg_key_len s + of_nat (length val)) :: u64"
  have rdy: "seg_ready (s, fs)" using r by (simp add: running_def)
  obtain mino mp where m: "fd_at (sg_meta_fd s) fs = Some (mino, mp)" using r by (auto simp: running_def)
  have i: "seg_inv (s, fs)" and e: "fs_faults fs = []" using rdy by (simp_all add: seg_ready_def)
  obtain ino p where cur: "fd_at (sg_cur_fd s) fs = Some (ino, p)" using rdy by (auto simp: seg_ready_def)
  have ino: "map_of (fs_files fs) (ToSegmentPath (sg_cur_id s) s) = Some ino" using seg_invD(3) [OF i cur] by simp
  have big: "\<not> ?len > sg_max_size s" using a by (auto simp: Append_def Let_def)
  obtain s1 fs1 where room: "append_room crc ?len (s, fs) = Inr (True, s1, fs1)"
    using a big by (auto simp: Append_def Let_def bind_res_eq_Inr split: if_splits)
  have full: "sg_cur_offset s + ?len > sg_file_size s" using full_goes_on [OF i k v] n by simp
  note rm = append_room_metadata [OF i e m cur full room]
  then obtain sid j where "fs_files fs1 = (ToSegmentPath sid s, j) # fs_files fs"
    "map_of (fs_files fs) (ToSegmentPath sid s) = None" by blast
  with ino have ino1: "map_of (fs_files fs1) (ToSegmentPath (sg_cur_id s) s) = Some ino"
    by (cases "ToSegmentPath sid s = ToSegmentPath (sg_cur_id s) s") simp_all
  have k1: "keeps crc (s, fs) (s1, fs1)" using append_room_keeps [OF i room] big by simp
  then have i1: "seg_inv (s1, fs1)" and db1: "sg_db_path s1 = sg_db_path s" by (simp_all add: keeps_def)
  obtain kb where ck: "copied_key (sg_key_len s1) key = Inr kb"
    using a big room by (auto simp: Append_def Let_def bind_res_eq_Inr)
  obtain q fs2 where l: "sys_lseek_set (sg_cur_fd s1) (sint (sg_cur_offset s1)) fs1 = (q, fs2)" by force
  obtain w fs3 where w: "sys_write (sg_cur_fd s1) (word_bytes 8 (sg_key_len s + of_nat (length val)) @ kb @ val) fs2
      = (w, fs3)" by force
  have f: "fs' = fs3" using a big room ck l w by (auto simp: Append_def Let_def split: if_splits)
  have "sg_cur_id s' = sg_cur_id s1" using a big room ck l w by (auto simp: Append_def Let_def split: if_splits)
  then have "sg_cur_id s1 = sg_cur_id s + 1" using Append_position(2) [OF i k v a] n by simp
  then have "ToSegmentPath (sg_cur_id s1) s1 \<noteq> ToSegmentPath (sg_cur_id s) s"
    using ToSegmentPath_inject [of "sg_cur_id s + 1" s "sg_cur_id s"] ToSegmentPath_cong [OF db1] by auto
  then have "map_of (fs_files fs1) (ToSegmentPath (sg_cur_id s1) s1) \<noteq> Some ino"
    using seg_invD(1) [OF i1 ino1, of "ToSegmentPath (sg_cur_id s1) s1"] by metis
  note wt = append_write_touches [OF i1 this l w]
  have "length (fs_data fs1 ino) = unat (sg_cur_offset s)" using rm by blast
  moreover have "fs_files fs' = fs_files fs1" "fs_data fs' ino = fs_data fs1 ino" using wt f by simp_all
  ultimately show ?thesis using ino1 by simp
qed

text \<open>One append of a store at work, with everything the later proofs need.\<close>

lemma running_Append:
  assumes r: "running options b (s, fs)" and o: "sint (sg_cur_id s) \<noteq> 2 ^ 31 - 1"
    and k: "length key = unat (sg_key_len s)" and v: "rec_len key val \<le> unat (sg_max_size s)"
  shows "\<exists>idx s' fs'. Append crc key val (s, fs) = Inr (Some idx, s', fs') \<and>
    running options (b \<or> \<not> goes_on s key val) (s', fs') \<and> keeps crc (s, fs) (s', fs') \<and>
    stored crc (s', fs') idx key val \<and>
    idx = (if goes_on s key val then ToSegmentIndex (sg_cur_id s) (sg_cur_offset s) (ucast (crc (key @ val)))
           else ToSegmentIndex (sg_cur_id s + 1) 0 (ucast (crc (key @ val)))) \<and>
    sg_cur_id s' = (if goes_on s key val then sg_cur_id s else sg_cur_id s + 1) \<and>
    unat (sg_cur_offset s') = (if goes_on s key val then unat (sg_cur_offset s) else 0) + rec_len key val \<and>
    sg_file_size s' = (if goes_on s key val then sg_file_size s else sg_max_size s) \<and>
    sg_scheduler s' = sg_scheduler s"
proof -
  have rdy: "seg_ready (s, fs)" using r by (simp add: running_def)
  then have i: "seg_inv (s, fs)" by (simp add: seg_ready_def)
  obtain idx s' fs' where a: "Append crc key val (s, fs) = Inr (Some idx, s', fs')" and sr: "seg_ready (s', fs')"
    using Append_succeeds [OF rdy o k, of val crc] v by (auto simp: rec_len_def)
  have kv: "length key + length val < 2 ^ 62" using v seg_invD(8) [OF i] by (simp add: rec_len_def)
  note ks = Append_keeps [OF i k kv a]
  show ?thesis
    using a running_write [OF r a v k sr] ks Append_position [OF i k v a]
    by (intro exI [of _ idx] exI [of _ s'] exI [of _ fs'] conjI) (simp_all only:)
qed

lemma running_append_all:
  assumes "running options b (s, fs)"
    and "list_all (\<lambda>r. length (fst r) = unat (sg_key_len s) \<and> rec_len (fst r) (snd r) \<le> unat (sg_max_size s)) rs"
    and "sint (sg_cur_id s) + int (length rs) < 2 ^ 31 - 1"
  shows "\<exists>is s' fs'. append_all crc rs (s, fs) = Inr (map Some is, s', fs') \<and> length is = length rs \<and>
    sint (sg_cur_id s) \<le> sint (sg_cur_id s') \<and>
    running options (b \<or> sg_cur_id s' \<noteq> sg_cur_id s) (s', fs') \<and> keeps crc (s, fs) (s', fs') \<and>
    (\<forall>i < length rs. stored crc (s', fs') (is ! i) (fst (rs ! i)) (snd (rs ! i)))"
  using assms
proof (induction rs arbitrary: b s fs)
  case Nil
  then have "seg_inv (s, fs)" by (simp add: running_def seg_ready_def)
  with Nil show ?case
    by (intro exI [of _ "[]"] exI [of _ s] exI [of _ fs]) (simp add: keeps_refl)
next
  case (Cons r rs)
  obtain k v where r: "r = (k, v)" by force
  have kv: "length k = unat (sg_key_len s)" "rec_len k v \<le> unat (sg_max_size s)"
    and o: "sint (sg_cur_id s) \<noteq> 2 ^ 31 - 1" using Cons.prems(2,3) r by auto
  obtain idx s1 fs1 where a: "Append crc k v (s, fs) = Inr (Some idx, s1, fs1)"
    and r1: "running options (b \<or> \<not> goes_on s k v) (s1, fs1)" and k1: "keeps crc (s, fs) (s1, fs1)"
    and st: "stored crc (s1, fs1) idx k v"
    and id1: "sg_cur_id s1 = (if goes_on s k v then sg_cur_id s else sg_cur_id s + 1)"
    using running_Append [OF Cons.prems(1) o kv, of crc] by blast
  have same: "sg_key_len s1 = sg_key_len s" "sg_max_size s1 = sg_max_size s" using k1 by (simp_all add: keeps_def)
  have si: "sint (sg_cur_id s1) = sint (sg_cur_id s) + (if goes_on s k v then 0 else 1)"
    using id1 sint_plus_one [OF o] by simp
  obtain "is" s' fs' where all: "append_all crc rs (s1, fs1) = Inr (map Some is, s', fs')" "length is = length rs"
      "sint (sg_cur_id s1) \<le> sint (sg_cur_id s')"
    and r2: "running options ((b \<or> \<not> goes_on s k v) \<or> sg_cur_id s' \<noteq> sg_cur_id s1) (s', fs')"
    and k2: "keeps crc (s1, fs1) (s', fs')"
    and st2: "\<forall>i < length rs. stored crc (s', fs') (is ! i) (fst (rs ! i)) (snd (rs ! i))"
    using Cons.IH [OF r1] Cons.prems(2,3) same si by (auto split: if_splits)
  have "b \<or> sg_cur_id s' \<noteq> sg_cur_id s \<longleftrightarrow> (b \<or> \<not> goes_on s k v) \<or> sg_cur_id s' \<noteq> sg_cur_id s1"
    using id1 si all(3) by (auto split: if_splits)
  with r2 have r2: "running options (b \<or> sg_cur_id s' \<noteq> sg_cur_id s) (s', fs')" by simp
  have "stored crc (s', fs') idx k v" using st k2 by (simp add: keeps_def)
  with st2 have "\<forall>i < length (r # rs). stored crc (s', fs') ((idx # is) ! i) (fst ((r # rs) ! i)) (snd ((r # rs) ! i))"
    using r by (auto simp: nth_Cons split: nat.splits)
  moreover have "sint (sg_cur_id s) \<le> sint (sg_cur_id s')" using si all(3) by (simp split: if_splits)
  moreover have "append_all crc (r # rs) (s, fs) = Inr (map Some (idx # is), s', fs')" using a all(1) r by simp
  ultimately show ?case using r2 keeps_trans [OF k1 k2] all(2)
    by (intro exI [of _ "idx # is"] exI [of _ s'] exI [of _ fs']) simp
qed

subsection \<open>Properties\<close>

text \<open>
  C33. No restart after a change of segment: a store is started in a directory of its own on a file
  system that does not fail, and takes any records that fit a segment. All of them are readable
  in that session; but if the current segment is no longer the first, every later \<open>Init\<close> ends in
  a memory fault, the eight bytes of the stored checksum being read into an object of four.
\<close>

theorem session_past_first_segment_cannot_restart:
  assumes "sg_db_path s = []" and "sg_db_path s0 = []" and "lo_indexKeyLength options \<noteq> 0"
    and "lo_dbPath options \<noteq> []" and "fs_faults fs = []" and "fresh_fs (lo_dbPath options) fs"
    and "unat (lo_segmentMaxSize options) < 2 ^ 62" and "rs \<noteq> []" and "int (length rs) < 2 ^ 31 - 1"
    and "list_all (\<lambda>r. length (fst r) = unat (lo_indexKeyLength options) \<and>
           8 + length (fst r) + length (snd r) \<le> unat (lo_segmentMaxSize options)) rs"
  shows "\<exists>b s1 fs1 is s2 fs2. Segment_Init crc options (s, fs) = Some (Inr (True, b, s1, fs1)) \<and>
    append_all crc rs (s1, fs1) = Inr (map Some is, s2, fs2) \<and>
    (\<forall>i < length rs. \<exists>fs3. Segment_Read crc (is ! i) (s2, fs2) = Inr (Some (rs ! i), fs3)) \<and>
    (GetLastSegmentId s2 \<noteq> 0 \<longrightarrow> Segment_Init crc options (s0, fs2) = Some (Inl OutOfBounds))"
proof -
  obtain k v rs' where rs: "rs = (k, v) # rs'" using assms(8) by (cases rs) auto
  have len: "0 < unat (lo_segmentMaxSize options)" "unat (lo_indexKeyLength options) < 2 ^ 62"
    using assms(7,10) rs by auto
  obtain s1 fs1 where 1: "Segment_Init crc options (s, fs) = Some (Inr (True, lo_removeAsync options, s1, fs1))"
    and r1: "restartable options [] (s1, fs1)"
    using Segment_Init_fresh [OF assms(1,3) len(2) assms(4-6) len(1) assms(7)] by blast
  have c: "sg_key_len s1 = lo_indexKeyLength options" "sg_max_size s1 = lo_segmentMaxSize options" "sg_cur_id s1 = 0"
    using r1 by (simp_all add: restartable_def)
  have fits: "list_all (\<lambda>r. length (fst r) = unat (sg_key_len s1) \<and>
      rec_len (fst r) (snd r) \<le> unat (sg_max_size s1)) rs"
    using assms(10) by (simp add: c rec_len_def)
  have n: "sint (sg_cur_id s1) + int (length rs) < 2 ^ 31 - 1" using assms(9) c(3) by simp
  obtain "is" s2 fs2 where 2: "append_all crc rs (s1, fs1) = Inr (map Some is, s2, fs2)"
    and r2: "running options (False \<or> sg_cur_id s2 \<noteq> sg_cur_id s1) (s2, fs2)"
    and st: "\<forall>i < length rs. stored crc (s2, fs2) (is ! i) (fst (rs ! i)) (snd (rs ! i))"
    using running_append_all [OF restartable_running [OF r1] fits n, of crc] by blast
  have i2: "seg_inv (s2, fs2)" and e2: "fs_faults fs2 = []" using r2 by (simp_all add: running_def seg_ready_def)
  have "\<exists>fs3. Segment_Read crc (is ! i) (s2, fs2) = Inr (Some (rs ! i), fs3)" if "i < length rs" for i
    using Read_stored [OF i2, of crc "is ! i" "fst (rs ! i)" "snd (rs ! i)"] st that e2 by auto
  moreover have "Segment_Init crc options (s0, fs2) = Some (Inl OutOfBounds)" if "GetLastSegmentId s2 \<noteq> 0"
    using running_restart [OF _ assms(2)] r2 c(3) that by (simp add: GetLastSegmentId_def)
  ultimately show ?thesis using 1 2 by blast
qed

text \<open>The witness: of two records the second opens a new segment.\<close>

lemma session_past_first_segment_cannot_restart_witness:
  "\<exists>s1 fs1 i j s2 fs2. Segment_Init sample_crc sample_lo (sample_store, empty_fs) = Some (Inr (True, False, s1, fs1)) \<and>
     append_all sample_crc [(''a'', ''12345678''), (''b'', ''y'')] (s1, fs1) = Inr ([Some i, Some j], s2, fs2) \<and>
     GetLastSegmentId s2 = 1 \<and> Segment_Init sample_crc sample_lo (sample_store, fs2) = Some (Inl OutOfBounds)"
proof -
  let ?rs = "[(''a'', ''12345678''), (''b'', ''y'')]"
  have f: "fresh_fs (lo_dbPath sample_lo) empty_fs" by (simp add: fresh_fs_def empty_fs_def)
  have db: "sg_db_path sample_store = []" by (simp add: sample_store_def new_SegmentStore_def)
  have lo: "lo_indexKeyLength sample_lo \<noteq> 0" "lo_dbPath sample_lo \<noteq> []"
    "unat (lo_segmentMaxSize sample_lo) < 2 ^ 62" by (simp_all add: sample_lo_def)
  have e: "fs_faults empty_fs = []" by (simp add: empty_fs_def)
  have rs: "?rs \<noteq> []" "int (length ?rs) < 2 ^ 31 - 1"
    "list_all (\<lambda>r. length (fst r) = unat (lo_indexKeyLength sample_lo) \<and>
       8 + length (fst r) + length (snd r) \<le> unat (lo_segmentMaxSize sample_lo)) ?rs"
    by (simp_all add: sample_lo_def)
  obtain b s1 fs1 "is" s2 fs2 where
    1: "Segment_Init sample_crc sample_lo (sample_store, empty_fs) = Some (Inr (True, b, s1, fs1))"
    and 2: "append_all sample_crc ?rs (s1, fs1) = Inr (map Some is, s2, fs2)"
    and 3: "GetLastSegmentId s2 \<noteq> 0 \<longrightarrow> Segment_Init sample_crc sample_lo (sample_store, fs2) = Some (Inl OutOfBounds)"
    using session_past_first_segment_cannot_restart [OF db db lo(1,2) e f lo(3) rs, of sample_crc] by blast
  obtain s1' fs1' where s: "Segment_Init sample_crc sample_lo (sample_store, empty_fs) = Some (Inr (True, False, s1', fs1'))"
    and r1: "restartable sample_lo [] (s1', fs1')" and c: "sg_file_size s1' = 20" "sg_key_len s1' = 1" "sg_max_size s1' = 20"
      "sg_cur_id s1' = 0" "sg_cur_offset s1' = 0"
    using sample_start by blast
  have eq: "s1 = s1'" "fs1 = fs1'" "b = False" using 1 s by simp_all
  obtain i s3 fs3 where a: "Append sample_crc ''a'' ''12345678'' (s1, fs1) = Inr (Some i, s3, fs3)"
    and r3: "running sample_lo False (s3, fs3)" and k3: "keeps sample_crc (s1, fs1) (s3, fs3)"
    and id3: "sg_cur_id s3 = 0" "unat (sg_cur_offset s3) = 17" "sg_file_size s3 = 20"
    using running_Append [OF restartable_running [OF r1], of "''a''" "''12345678''" sample_crc] c eq
    by (auto simp: rec_len_def goes_on_def)
  have c3: "sg_key_len s3 = 1" "sg_max_size s3 = 20" using k3 c eq by (simp_all add: keeps_def)
  obtain j s4 fs4 where b: "Append sample_crc ''b'' ''y'' (s3, fs3) = Inr (Some j, s4, fs4)" and "sg_cur_id s4 = 1"
    using running_Append [OF r3, of "''b''" "''y''" sample_crc] c3 id3 by (auto simp: rec_len_def goes_on_def)
  then have "append_all sample_crc ?rs (s1, fs1) = Inr ([Some i, Some j], s4, fs4)" "GetLastSegmentId s4 = 1"
    using a by (simp_all add: GetLastSegmentId_def)
  with 1 2 3 eq show ?thesis by auto
qed

end
