(* ===== verification/Unit_Segments.thy ===== *)
theory Unit_Segments
  imports Unit_Harness Segment_Positions
begin

section \<open>The tests of the segment store (unittest/storage/segment_test_cases.cpp)\<close>

text \<open>
  The tests on a file system that does not fail and where nothing lies in the directory of the
  test, for any checksum function. The members that the constructor of the store leaves
  uninitialised are those of the parameter \<open>s0\<close>. The \<open>do\<close> loops are partial functions, whose
  end the theorems show; a \<open>for\<close> loop is a recursion over the values of its counter.
\<close>

subsection \<open>FSHelper (unittest/storage/fs_helper.cpp)\<close>

definition FileSize :: "string \<Rightarrow> FS \<Rightarrow> nat" where
  "FileSize path fs = (case map_of (fs_files fs) path of None \<Rightarrow> 0 | Some ino \<Rightarrow> length (fs_data fs ino))"

definition DirExists :: "string \<Rightarrow> FS \<Rightarrow> bool \<times> FS" where
  "DirExists path fs = (case sys_stat path fs of (info, fs) \<Rightarrow> (info \<noteq> None, fs))"

definition DirExistsOrCreate :: "string \<Rightarrow> FS \<Rightarrow> bool \<times> FS" where
  "DirExistsOrCreate path fs =
     (case sys_stat path fs of
        (None, fs) \<Rightarrow> (case sys_mkdir path fs of (r, fs) \<Rightarrow> (r \<noteq> - 1, fs))
      | (Some dir, fs) \<Rightarrow> (dir, fs))"

subsection \<open>The fixture (unittest/storage/segment_test_helper.hpp)\<close>

definition SegmentPath :: string where "SegmentPath = ''/tmp/segment_test''"

definition SetUp :: "FS \<Rightarrow> FS" where
  "SetUp fs = snd (DirExistsOrCreate SegmentPath fs)"

definition segment_options :: "string \<Rightarrow> bool \<Rightarrow> LogStorageOptions" where
  "segment_options path remove_async = \<lparr> lo_dbPath = path, lo_segmentMaxSize = 1024,
     lo_indexKeyLength = of_nat (HexStringSize 8), lo_removeAsync = remove_async \<rparr>"

subsection \<open>Init\<close>

definition SegmentStoreInit :: "(string \<Rightarrow> u32) \<Rightarrow> SegmentStore \<Rightarrow> FS \<Rightarrow> verdict" where
  "SegmentStoreInit crc s0 fs =
     run (Segment_Init crc (segment_options SegmentPath False) (s0, SetUp fs)) (\<lambda>(initResult, _, segmentStore, fs).
     ASSERT initResult
     (let dbPath = SegmentPath @ ''/'' @ SEGMENT_STORE_DIR; (dirExists, fs) = DirExists dbPath fs in
      ASSERT dirExists
      (let metaPath = dbPath @ ''/'' @ METADATA_FILE; (dirExists, fs) = DirExists metaPath fs in
       ASSERT dirExists
       (let segmentPath = dbPath @ ''/0''; (dirExists, fs) = DirExists segmentPath fs in
        ASSERT dirExists
        (let segmentSize = FileSize segmentPath fs in ASSERT (1024 = segmentSize) passed)))))"

definition SegmentStoreInitDirPathNotExists :: "(string \<Rightarrow> u32) \<Rightarrow> SegmentStore \<Rightarrow> FS \<Rightarrow> verdict" where
  "SegmentStoreInitDirPathNotExists crc s0 fs =
     run (Segment_Init crc (segment_options ''/tmp/segment_dir'' False) (s0, fs))
       (\<lambda>(initResult, _, segmentStore, fs). ASSERT (\<not> initResult) passed)"

definition SegmentStoreInitWithZeroKeyLength :: "(string \<Rightarrow> u32) \<Rightarrow> SegmentStore \<Rightarrow> FS \<Rightarrow> verdict" where
  "SegmentStoreInitWithZeroKeyLength crc s0 fs =
     run (Segment_Init crc ((segment_options SegmentPath False)\<lparr> lo_indexKeyLength := 0 \<rparr>) (s0, SetUp fs))
       (\<lambda>(initResult, _, segmentStore, fs). ASSERT (\<not> initResult) passed)"

definition SegmentStoreInitEmptyDirPath :: "(string \<Rightarrow> u32) \<Rightarrow> SegmentStore \<Rightarrow> FS \<Rightarrow> verdict" where
  "SegmentStoreInitEmptyDirPath crc s0 fs =
     run (Segment_Init crc (segment_options [] False) (s0, SetUp fs))
       (\<lambda>(initResult, _, segmentStore, fs). ASSERT (\<not> initResult) passed)"

subsection \<open>Appending and reading\<close>

definition test_value :: "u64 \<Rightarrow> string" where
  "test_value i = ''test-value'' @ to_string i"

text \<open>The strings after a \<open>Read\<close>, which were empty before it.\<close>

definition read_strings :: "(string \<times> string) option \<Rightarrow> string \<times> string" where
  "read_strings kv = (case kv of None \<Rightarrow> ([], []) | Some kv \<Rightarrow> kv)"

text \<open>
  The loop of \<open>InitWithSegmentAndReadWriteInFirstSegment\<close>, which has a line more than that of
  \<open>ReadWriteInMultiSegments\<close>: the flag \<open>strict\<close>.
\<close>

partial_function (option) first_segment_loop ::
  "bool \<Rightarrow> (string \<Rightarrow> u32) \<Rightarrow> u64 \<Rightarrow> SEGMENT_ID \<Rightarrow> SegmentIndex list \<Rightarrow> SegmentStore \<times> FS
     \<Rightarrow> (u64 \<Rightarrow> SegmentIndex list \<Rightarrow> SegmentStore \<times> FS \<Rightarrow> verdict) \<Rightarrow> verdict" where
  "first_segment_loop strict crc i segmentId segmentIndexs sf rest =
     ASSERT (0 = segmentId)
     (let value = test_value i; key = ToHexString i in
      call (Append crc key value sf) (\<lambda>(appended, sf).
      (let segmentIndex = (case appended of None \<Rightarrow> [] | Some index \<Rightarrow> index);
           segmentIndexs = segmentIndexs @ [segmentIndex] in
      ASSERT (appended \<noteq> None) (ASSERT (segmentIndex \<noteq> [])
      (call (Segment_Read crc segmentIndex sf) (\<lambda>(kv, fs).
      (let (readKey, readValue) = read_strings kv in
      ASSERT (strict \<longrightarrow> kv \<noteq> None) (ASSERT (key = readKey) (ASSERT (value = readValue)
      (call (ParseSegmentIndex segmentIndex) (\<lambda>(segmentId, offset, checkSum).
      (if offset + scast segmentId * 1024 < 1024
       then first_segment_loop strict crc (i + 1) segmentId segmentIndexs (fst sf, fs) rest
       else rest (i + 1) segmentIndexs (fst sf, fs)))))))))))))"

fun read_backwards :: "(string \<Rightarrow> u32) \<Rightarrow> SegmentIndex list \<Rightarrow> nat \<Rightarrow> SegmentStore \<times> FS \<Rightarrow> verdict" where
  "read_backwards crc segmentIndexs 0 sf = passed"
| "read_backwards crc segmentIndexs (Suc n) sf =
     (let i = of_nat (Suc n); value = test_value i; key = ToHexString i in
      call (Segment_Read crc (segmentIndexs ! n) sf) (\<lambda>(kv, fs).
      let (readKey, readValue) = read_strings kv in
      ASSERT (kv \<noteq> None) (ASSERT (key = readKey) (ASSERT (value = readValue)
      (read_backwards crc segmentIndexs n (fst sf, fs))))))"

definition InitWithSegmentAndReadWriteInFirstSegment :: "(string \<Rightarrow> u32) \<Rightarrow> SegmentStore \<Rightarrow> FS \<Rightarrow> verdict" where
  "InitWithSegmentAndReadWriteInFirstSegment crc s0 fs =
     run (Segment_Init crc (segment_options SegmentPath False) (s0, SetUp fs)) (\<lambda>(initResult, _, sf).
     ASSERT initResult
     (first_segment_loop True crc 1 0 [] sf (\<lambda>i segmentIndexs sf.
      read_backwards crc segmentIndexs (length segmentIndexs - 1) sf)))"

definition ReadWriteInMultiSegments :: "(string \<Rightarrow> u32) \<Rightarrow> SegmentStore \<Rightarrow> FS \<Rightarrow> verdict" where
  "ReadWriteInMultiSegments crc s0 fs =
     run (Segment_Init crc (segment_options SegmentPath False) (s0, SetUp fs)) (\<lambda>(initResult, _, sf).
     ASSERT initResult
     (first_segment_loop False crc 1 0 [] sf (\<lambda>i segmentIndexs sf.
      (let value = test_value i; key = ToHexString i in
       call (Append crc key value sf) (\<lambda>(appended, sf).
       ASSERT (appended \<noteq> None)
       (let segmentIndex = the appended in
        ASSERT (segmentIndex \<noteq> [])
        (call (Segment_Read crc segmentIndex sf) (\<lambda>(kv, fs).
        let (readKey, readValue) = read_strings kv in
        ASSERT (key = readKey) (ASSERT (value = readValue)
        (call (ParseSegmentIndex segmentIndex) (\<lambda>(segmentId, offset, checkSum).
        ASSERT (1 = segmentId) passed)))))))))))"

subsection \<open>The start of a test\<close>

lemma SetUp_fresh:
  assumes "fs_faults fs = []" and "fresh_fs SegmentPath fs"
  shows "fs_faults (SetUp fs) = []" and "fresh_fs SegmentPath (SetUp fs)"
proof -
  have "store_dir SegmentPath @ p \<noteq> SegmentPath" for p
  proof
    assume "store_dir SegmentPath @ p = SegmentPath"
    from arg_cong [OF this, of length] show False by (simp add: store_dir_def SEGMENT_STORE_DIR_def)
  qed
  then have ne: "(store_dir SegmentPath @ p = SegmentPath) = False" for p by simp
  show "fs_faults (SetUp fs) = []" and "fresh_fs SegmentPath (SetUp fs)"
    using assms ne
    by (auto simp: SetUp_def DirExistsOrCreate_def sys_stat_def sys_mkdir_def fresh_fs_def split: option.splits)
qed

lemma segment_start:
  assumes "sg_db_path s0 = []" and "fs_faults fs = []" and "fresh_fs SegmentPath fs"
  shows "\<exists>s fs'. Segment_Init crc (segment_options SegmentPath b) (s0, SetUp fs) = Some (Inr (True, b, s, fs')) \<and>
    restartable (segment_options SegmentPath b) [] (s, fs') \<and> sg_file_size s = 1024 \<and>
    sg_key_len s = 16 \<and> sg_max_size s = 1024 \<and> sg_cur_id s = 0 \<and> sg_cur_offset s = 0 \<and>
    sg_scheduler s = sg_scheduler s0 \<and>
    (\<exists>ino. map_of (fs_files fs') (ToSegmentPath 0 s) = Some ino \<and> length (fs_data fs' ino) = 1024)"
proof -
  let ?o = "segment_options SegmentPath b"
  have o: "lo_indexKeyLength ?o = 16" "lo_segmentMaxSize ?o = 1024" "lo_dbPath ?o = SegmentPath" "lo_removeAsync ?o = b"
    by (simp_all add: segment_options_def HexStringSize_def)
  have "SegmentPath \<noteq> []" by (simp add: SegmentPath_def)
  then obtain s fs' where 1: "Segment_Init crc ?o (s0, SetUp fs) = Some (Inr (True, b, s, fs'))"
    and r: "restartable ?o [] (s, fs')" and f: "sg_file_size s = 1024" "sg_scheduler s = sg_scheduler s0"
      "\<exists>ino. map_of (fs_files fs') (ToSegmentPath 0 s) = Some ino \<and> length (fs_data fs' ino) = 1024"
    using Segment_Init_fresh [of s0 ?o "SetUp fs" crc] assms(1) SetUp_fresh [OF assms(2,3)] o by auto
  with o show ?thesis by (auto simp: restartable_def)
qed

theorem init_test_passes:
  assumes "sg_db_path s0 = []" and "fs_faults fs = []" and "fresh_fs SegmentPath fs"
  shows "SegmentStoreInit crc s0 fs = passed"
proof -
  let ?o = "segment_options SegmentPath False"
  obtain s fs' ino where 1: "Segment_Init crc ?o (s0, SetUp fs) = Some (Inr (True, False, s, fs'))"
    and r: "restartable ?o [] (s, fs')"
    and l: "map_of (fs_files fs') (ToSegmentPath 0 s) = Some ino" "length (fs_data fs' ino) = 1024"
    using segment_start [OF assms, of crc False] by blast
  have db: "lo_dbPath ?o = SegmentPath" by (simp add: segment_options_def)
  have d: "SegmentPath @ ''/'' @ SEGMENT_STORE_DIR = store_dir SegmentPath"
    "store_dir SegmentPath @ ''/'' @ METADATA_FILE = meta_path SegmentPath"
    by (simp_all add: store_dir_def meta_path_def slash_def SegmentPath_def)
  have e: "fs_faults fs' = []" and sp: "sg_db_path s = store_dir SegmentPath"
    and dir: "store_dir SegmentPath \<in> set (fs_dirs fs')"
    and m: "map_of (fs_files fs') (meta_path SegmentPath) \<noteq> None"
    using r db by (auto simp: restartable_def seg_ready_def)
  have "int_string (sint (0 :: u32)) = ''0''" by (simp add: int_string_def nat_digits.simps char_of_def bit_0)
  then have p0: "store_dir SegmentPath @ ''/0'' = ToSegmentPath 0 s"
    using seg_path [OF sp, of 0] by simp
  have d': "SegmentPath @ CHR ''/'' # SEGMENT_STORE_DIR = store_dir SegmentPath"
    "store_dir SegmentPath @ CHR ''/'' # METADATA_FILE = meta_path SegmentPath"
    using d by simp_all
  have st: "DirExists (store_dir SegmentPath) fs' = (True, fs')" "DirExists (meta_path SegmentPath) fs' = (True, fs')"
    "DirExists (ToSegmentPath 0 s) fs' = (True, fs')"
    using e dir m l by (auto simp: DirExists_def sys_stat_def)
  show ?thesis
    using 1 st l by (simp add: SegmentStoreInit_def d' p0 Let_def test_simps FileSize_def)
qed

text \<open>
  Where the parent of the directory is missing \<open>mkdir\<close> fails, which the schedule of the file
  system says; an empty key length is refused; an empty path is not: \<open>back()\<close> reads before it.
\<close>

theorem refused_inits:
  assumes "sg_db_path s0 = []"
  shows "fs_faults fs = SysOk # SysFail # rest \<Longrightarrow>
      map_of (fs_files fs) ''/tmp/segment_dir/segment'' = None \<Longrightarrow>
      ''/tmp/segment_dir/segment'' \<notin> set (fs_dirs fs) \<Longrightarrow>
      SegmentStoreInitDirPathNotExists crc s0 fs = passed"
    and "SegmentStoreInitWithZeroKeyLength crc s0 fs = passed"
    and "SegmentStoreInitEmptyDirPath crc s0 fs = Some (Inl OutOfBounds)"
  using assms
  by (simp_all add: SegmentStoreInitDirPathNotExists_def SegmentStoreInitWithZeroKeyLength_def
      SegmentStoreInitEmptyDirPath_def Segment_Init_def segment_options_def HexStringSize_def Let_def
      CreateIfNotExists_def sys_stat_def sys_mkdir_def outcome_def SEGMENT_STORE_DIR_def slash_def test_simps)

subsection \<open>Reading what was appended\<close>

definition all_stored :: "(string \<Rightarrow> u32) \<Rightarrow> (u64 \<Rightarrow> string) \<Rightarrow> SegmentIndex list \<Rightarrow> SegmentStore \<times> FS \<Rightarrow> bool" where
  "all_stored crc val is sf \<longleftrightarrow>
     (\<forall>j < length is. stored crc sf (is ! j) (ToHexString (of_nat (Suc j))) (val (of_nat (Suc j))))"

lemma all_stored_Nil [simp]: "all_stored crc val [] sf"
  by (simp add: all_stored_def)

lemma all_stored_keeps: "all_stored crc val is a \<Longrightarrow> keeps crc a b \<Longrightarrow> all_stored crc val is b"
  by (simp add: all_stored_def keeps_def)

lemma all_stored_snoc:
  assumes "all_stored crc val is a" and "keeps crc a b"
    and "stored crc b idx (ToHexString (of_nat (Suc (length is)))) (val (of_nat (Suc (length is))))"
  shows "all_stored crc val (is @ [idx]) b"
  using assms all_stored_keeps [OF assms(1,2)]
  by (auto simp: all_stored_def nth_append less_Suc_eq)

lemma running_quiet:
  assumes r: "running options b (s, fs)" and q: "quiet fs fs'"
  shows "running options b (s, fs')" and "keeps crc (s, fs) (s, fs')"
proof -
  have i: "seg_inv (s, fs)" using r by (simp add: running_def seg_ready_def)
  show k: "keeps crc (s, fs) (s, fs')" by (rule quiet_keeps [OF i q])
  have t: "touches x 0 fs fs'" for x by (rule touches_quiet [OF q])
  have "fd_at (sg_cur_fd s) fs' \<noteq> None" using r touches_fd(1) [OF t] by (simp add: running_def seg_ready_def)
  moreover obtain mino mp where "fd_at (sg_meta_fd s) fs = Some (mino, mp)"
    "map_of (fs_files fs) (meta_path (lo_dbPath options)) = Some mino" "b \<longrightarrow> 12 \<le> length (fs_data fs mino)"
    using r by (auto simp: running_def)
  moreover from this(1) obtain mp' where "fd_at (sg_meta_fd s) fs' = Some (mino, mp')"
    using touches_fd(2) [OF t] by blast
  ultimately show "running options b (s, fs')"
    using r k q by (auto simp: running_def seg_ready_def keeps_def quiet_def)
qed

lemma restartable_quiet:
  assumes r: "restartable options rs (s, fs)" and q: "quiet fs fs'"
  shows "restartable options rs (s, fs')"
proof -
  have i: "seg_inv (s, fs)" using r by (simp add: restartable_def seg_ready_def)
  have k: "keeps crc (s, fs) (s, fs')" for crc by (rule quiet_keeps [OF i q])
  have t: "touches x 0 fs fs'" for x by (rule touches_quiet [OF q])
  have "seg_ready (s, fs')"
    using k r touches_fd(1) [OF t, of "sg_cur_fd s"] by (auto simp: keeps_def seg_ready_def restartable_def)
  moreover obtain mino mp where "fd_at (sg_meta_fd s) fs = Some (mino, mp)"
    "map_of (fs_files fs) (meta_path (lo_dbPath options)) = Some mino" "fs_data fs mino = []"
    using r by (auto simp: restartable_def)
  moreover from this(1) obtain mp' where "fd_at (sg_meta_fd s) fs' = Some (mino, mp')"
    using touches_fd(2) [OF t] by blast
  ultimately show ?thesis
    using r q unfolding restartable_def prod.case by (auto simp: quiet_def seg_holds_def)
qed

lemma running_Read:
  assumes r: "running options b (s, fs)" and st: "stored crc (s, fs) idx k v"
  shows "\<exists>fs'. Segment_Read crc idx (s, fs) = Inr (Some (k, v), fs') \<and> running options b (s, fs') \<and>
    keeps crc (s, fs) (s, fs')"
proof -
  have i: "seg_inv (s, fs)" and e: "fs_faults fs = []" using r by (simp_all add: running_def seg_ready_def)
  obtain fs' where "Segment_Read crc idx (s, fs) = Inr (Some (k, v), fs')" "quiet fs fs'"
    using Read_stored [OF i st] e by blast
  with running_quiet [OF r] show ?thesis by blast
qed

lemma index_nonempty [simp]: "ToSegmentIndex sid off c \<noteq> []"
  by (auto simp: ToSegmentIndex_def dest: arg_cong [of _ _ length])

lemma test_value_length: "11 \<le> length (test_value i)" "length (test_value i) \<le> 30"
  using length_to_string [of i] by (simp_all add: test_value_def Suc_le_eq)

text \<open>
  The loop over the first segment: every record takes at least 35 bytes of the 1024, so the loop
  ends, when the first record lies in the second segment; then all records are stored.
\<close>

lemma first_segment_loop_ends:
  assumes "running options False (s, fs)" and "sg_cur_id s = 0" and "sg_file_size s = 1024"
    and "sg_max_size s = 1024" and "sg_key_len s = 16" and "all_stored crc test_value is (s, fs)"
    and "35 * length is \<le> unat (sg_cur_offset s)" and "unat (sg_cur_offset s) \<le> 1024"
  shows "\<exists>is' s' fs'. first_segment_loop strict crc (of_nat (Suc (length is))) 0 is (s, fs) rest =
      rest (of_nat (Suc (length is'))) is' (s', fs') \<and>
    running options True (s', fs') \<and> all_stored crc test_value is' (s', fs') \<and> is' \<noteq> [] \<and>
    sg_cur_id s' = 1 \<and> sg_file_size s' = 1024 \<and> sg_max_size s' = 1024 \<and> sg_key_len s' = 16 \<and>
    unat (sg_cur_offset s') \<le> 100"
  using assms
proof (induction "1024 - unat (sg_cur_offset s)" arbitrary: "is" s fs rule: less_induct)
  case less
  let ?i = "of_nat (Suc (length is)) :: u64"
  let ?k = "ToHexString ?i" and ?v = "test_value ?i"
  have len: "35 \<le> rec_len ?k ?v" "rec_len ?k ?v \<le> 54" using test_value_length [of ?i] by (simp_all add: rec_len_def)
  have o: "sint (sg_cur_id s) \<noteq> 2 ^ 31 - 1" and k: "length ?k = unat (sg_key_len s)"
    and v: "rec_len ?k ?v \<le> unat (sg_max_size s)"
    using less.prems(2,4,5) len by (simp_all del: of_nat_Suc)
  obtain idx s1 fs1 where a: "Append crc ?k ?v (s, fs) = Inr (Some idx, s1, fs1)"
    and r1: "running options (False \<or> \<not> goes_on s ?k ?v) (s1, fs1)" and k1: "keeps crc (s, fs) (s1, fs1)"
    and st: "stored crc (s1, fs1) idx ?k ?v"
    and idx: "idx = (if goes_on s ?k ?v then ToSegmentIndex (sg_cur_id s) (sg_cur_offset s) (ucast (crc (?k @ ?v)))
           else ToSegmentIndex (sg_cur_id s + 1) 0 (ucast (crc (?k @ ?v))))"
    and id1: "sg_cur_id s1 = (if goes_on s ?k ?v then sg_cur_id s else sg_cur_id s + 1)"
    and o1: "unat (sg_cur_offset s1) = (if goes_on s ?k ?v then unat (sg_cur_offset s) else 0) + rec_len ?k ?v"
    and z1: "sg_file_size s1 = (if goes_on s ?k ?v then sg_file_size s else sg_max_size s)"
    using running_Append [OF less.prems(1) o k v, of crc] by blast
  obtain fs2 where rd: "Segment_Read crc idx (s1, fs1) = Inr (Some (?k, ?v), fs2)"
    and r2: "running options (False \<or> \<not> goes_on s ?k ?v) (s1, fs2)" and k2: "keeps crc (s1, fs1) (s1, fs2)"
    using running_Read [OF r1 st] by blast
  have st2: "stored crc (s1, fs2) idx ?k ?v" using st k2 by (simp add: keeps_def)
  have all: "all_stored crc test_value (is @ [idx]) (s1, fs2)"
    by (rule all_stored_snoc [OF less.prems(6) keeps_trans [OF k1 k2] st2])
  have c1: "sg_max_size s1 = 1024" "sg_key_len s1 = 16" "sg_file_size s1 = 1024"
    using k1 less.prems z1 by (simp_all add: keeps_def)
  have ne: "idx \<noteq> []" using idx by simp
  have step: "first_segment_loop strict crc ?i 0 is (s, fs) rest =
      call (ParseSegmentIndex idx) (\<lambda>(segmentId, offset, checkSum).
        if offset + scast segmentId * 1024 < 1024
        then first_segment_loop strict crc (?i + 1) segmentId (is @ [idx]) (s1, fs2) rest
        else rest (?i + 1) (is @ [idx]) (s1, fs2))"
    using a rd ne by (subst first_segment_loop.simps) (simp add: Let_def test_simps read_strings_def del: of_nat_Suc cong: if_cong)
  have i1: "?i + 1 = of_nat (Suc (length (is @ [idx])))" by (simp add: ac_simps)
  show ?case
  proof (cases "goes_on s ?k ?v")
    case True
    have off: "unat (sg_cur_offset s) + 35 \<le> 1024"
      using True len less.prems(3) by (simp add: goes_on_def del: of_nat_Suc)
    have "idx = ToSegmentIndex 0 (sg_cur_offset s) (ucast (crc (?k @ ?v)))"
      using idx True less.prems(2) by (simp del: of_nat_Suc)
    then have "first_segment_loop strict crc ?i 0 is (s, fs) rest =
        first_segment_loop strict crc (of_nat (Suc (length (is @ [idx])))) 0 (is @ [idx]) (s1, fs2) rest"
      unfolding step i1 using off by (simp add: test_simps word_less_nat_alt del: of_nat_Suc)
    moreover have "\<exists>is' s' fs'. first_segment_loop strict crc (of_nat (Suc (length (is @ [idx])))) 0 (is @ [idx]) (s1, fs2) rest =
        rest (of_nat (Suc (length is'))) is' (s', fs') \<and>
      running options True (s', fs') \<and> all_stored crc test_value is' (s', fs') \<and> is' \<noteq> [] \<and>
      sg_cur_id s' = 1 \<and> sg_file_size s' = 1024 \<and> sg_max_size s' = 1024 \<and> sg_key_len s' = 16 \<and>
      unat (sg_cur_offset s') \<le> 100"
    proof (rule less.hyps)
      show "1024 - unat (sg_cur_offset s1) < 1024 - unat (sg_cur_offset s)"
        using o1 True len off by (simp del: of_nat_Suc)
      show "running options False (s1, fs2)" using r2 True by (simp del: of_nat_Suc)
      show "sg_cur_id s1 = 0" using id1 True less.prems(2) by (simp del: of_nat_Suc)
      show "35 * length (is @ [idx]) \<le> unat (sg_cur_offset s1)"
        using o1 True len less.prems(7) by (simp del: of_nat_Suc)
      show "unat (sg_cur_offset s1) \<le> 1024" using o1 True less.prems(3) by (simp add: goes_on_def del: of_nat_Suc)
    qed (use c1 all in simp_all)
    ultimately show ?thesis by simp
  next
    case False
    have "idx = ToSegmentIndex 1 0 (ucast (crc (?k @ ?v)))" using idx False less.prems(2) by (simp del: of_nat_Suc)
    then have "first_segment_loop strict crc ?i 0 is (s, fs) rest =
        rest (of_nat (Suc (length (is @ [idx])))) (is @ [idx]) (s1, fs2)"
      unfolding step i1 by (simp add: test_simps del: of_nat_Suc)
    moreover have "running options True (s1, fs2)" using r2 False by (simp del: of_nat_Suc)
    moreover have "sg_cur_id s1 = 1" "unat (sg_cur_offset s1) \<le> 100"
      using id1 o1 False less.prems(2) len by (simp_all del: of_nat_Suc)
    ultimately show ?thesis using all c1 by blast
  qed
qed

lemma read_backwards_passes:
  "running options b (s, fs) \<Longrightarrow> all_stored crc test_value is (s, fs) \<Longrightarrow> n \<le> length is \<Longrightarrow>
     read_backwards crc is n (s, fs) = passed"
proof (induction n arbitrary: fs)
  case 0
  then show ?case by simp
next
  case (Suc n)
  have "stored crc (s, fs) (is ! n) (ToHexString (of_nat (Suc n))) (test_value (of_nat (Suc n)))"
    using Suc.prems by (simp add: all_stored_def)
  from running_Read [OF Suc.prems(1) this] obtain fs' where
    rd: "Segment_Read crc (is ! n) (s, fs) = Inr (Some (ToHexString (of_nat (Suc n)), test_value (of_nat (Suc n))), fs')"
    and r: "running options b (s, fs')" and k: "keeps crc (s, fs) (s, fs')" by blast
  have "read_backwards crc is n (s, fs') = passed"
    by (rule Suc.IH [OF r all_stored_keeps [OF Suc.prems(2) k]]) (use Suc.prems(3) in simp)
  with rd show ?case by (simp add: Let_def test_simps read_strings_def del: of_nat_Suc)
qed

text \<open>Both tests of the first segments pass; the second goes on in segment 1.\<close>

theorem first_segment_tests_pass:
  assumes "sg_db_path s0 = []" and "fs_faults fs = []" and "fresh_fs SegmentPath fs"
  shows "InitWithSegmentAndReadWriteInFirstSegment crc s0 fs = passed"
    and "ReadWriteInMultiSegments crc s0 fs = passed"
proof -
  let ?o = "segment_options SegmentPath False"
  obtain s fs1 where 1: "Segment_Init crc ?o (s0, SetUp fs) = Some (Inr (True, False, s, fs1))"
    and r: "restartable ?o [] (s, fs1)" and c: "sg_file_size s = 1024" "sg_key_len s = 16" "sg_max_size s = 1024"
      "sg_cur_id s = 0" "sg_cur_offset s = 0"
    using segment_start [OF assms, of crc False] by blast
  have run0: "running ?o False (s, fs1)" by (rule restartable_running [OF r])
  have loop: "\<exists>is s' fs'. first_segment_loop strict crc 1 0 [] (s, fs1) rest =
      rest (of_nat (Suc (length is))) is (s', fs') \<and>
    running ?o True (s', fs') \<and> all_stored crc test_value is (s', fs') \<and> is \<noteq> [] \<and>
    sg_cur_id s' = 1 \<and> sg_file_size s' = 1024 \<and> sg_max_size s' = 1024 \<and> sg_key_len s' = 16 \<and>
    unat (sg_cur_offset s') \<le> 100" for strict rest
    using first_segment_loop_ends [OF run0 c(4,1,3,2) all_stored_Nil, where strict = strict and rest = rest] c(5)
    by simp
  show "InitWithSegmentAndReadWriteInFirstSegment crc s0 fs = passed"
  proof -
    obtain "is" s' fs' where l: "first_segment_loop True crc 1 0 [] (s, fs1)
        (\<lambda>i segmentIndexs sf. read_backwards crc segmentIndexs (length segmentIndexs - 1) sf) =
        read_backwards crc is (length is - 1) (s', fs')"
      and r': "running ?o True (s', fs')" and a: "all_stored crc test_value is (s', fs')"
      using loop [of True "\<lambda>i segmentIndexs sf. read_backwards crc segmentIndexs (length segmentIndexs - 1) sf"]
      by blast
    have "read_backwards crc is (length is - 1) (s', fs') = passed"
      by (rule read_backwards_passes [OF r' a]) simp
    with 1 l show ?thesis by (simp add: InitWithSegmentAndReadWriteInFirstSegment_def test_simps)
  qed
  let ?rest = "\<lambda>i (segmentIndexs :: SegmentIndex list) sf.
      (let value = test_value i; key = ToHexString i in
       call (Append crc key value sf) (\<lambda>(appended, sf).
       ASSERT (appended \<noteq> None)
       (let segmentIndex = the appended in
        ASSERT (segmentIndex \<noteq> [])
        (call (Segment_Read crc segmentIndex sf) (\<lambda>(kv, fs).
        let (readKey, readValue) = read_strings kv in
        ASSERT (key = readKey) (ASSERT (value = readValue)
        (call (ParseSegmentIndex segmentIndex) (\<lambda>(segmentId, offset, checkSum).
        ASSERT (1 = segmentId) passed))))))))"
  obtain "is" s' fs' where l: "first_segment_loop False crc 1 0 [] (s, fs1) ?rest =
      ?rest (of_nat (Suc (length is))) is (s', fs')"
    and r': "running ?o True (s', fs')" and c': "sg_cur_id s' = 1" "sg_file_size s' = 1024" "sg_max_size s' = 1024"
      "sg_key_len s' = 16" "unat (sg_cur_offset s') \<le> 100"
    using loop [of False ?rest] by blast
  let ?i = "of_nat (Suc (length is)) :: u64"
  have len: "rec_len (ToHexString ?i) (test_value ?i) \<le> 54"
    using test_value_length [of ?i] by (simp add: rec_len_def)
  have go: "goes_on s' (ToHexString ?i) (test_value ?i)"
    using len c' by (simp add: goes_on_def del: of_nat_Suc)
  obtain idx s2 fs2 where a: "Append crc (ToHexString ?i) (test_value ?i) (s', fs') = Inr (Some idx, s2, fs2)"
    and r2: "running ?o True (s2, fs2)" and st: "stored crc (s2, fs2) idx (ToHexString ?i) (test_value ?i)"
    and idx: "idx = ToSegmentIndex 1 (sg_cur_offset s') (ucast (crc (ToHexString ?i @ test_value ?i)))"
    using running_Append [OF r', of "ToHexString ?i" "test_value ?i" crc] c' len go by (auto simp del: of_nat_Suc)
  obtain fs3 where rd: "Segment_Read crc idx (s2, fs2) = Inr (Some (ToHexString ?i, test_value ?i), fs3)"
    using running_Read [OF r2 st] by blast
  have "?rest ?i is (s', fs') = passed"
    using a rd idx by (simp add: Let_def test_simps read_strings_def del: of_nat_Suc)
  with 1 l show "ReadWriteInMultiSegments crc s0 fs = passed"
    by (simp only: ReadWriteInMultiSegments_def test_simps prod.case)
qed

end
