(* ===== verification/Unit_Replays.thy ===== *)
theory Unit_Replays
  imports Unit_Segments
begin

section \<open>The tests of many segments, of restarts and of the replay\<close>

text \<open>
  The rest of unittest/storage/segment_test_cases.cpp but for the removal. \<open>s0\<close> and \<open>s1\<close> are the
  uninitialised members of the two stores of a test. The first store is alive while the second
  starts, as in the source.
\<close>

definition a_value :: "u64 \<Rightarrow> string" where
  "a_value i = replicate (unat i) (CHR ''a'')"

text \<open>
  The \<open>do\<close> loop of \<open>ReadWriteMultiSize\<close> and, without the reads, that of \<open>TestReplayMultiLogs\<close>.
\<close>

partial_function (option) multi_size_loop ::
  "bool \<Rightarrow> (string \<Rightarrow> u32) \<Rightarrow> u64 \<Rightarrow> SegmentIndex list \<Rightarrow> SegmentStore \<times> FS
     \<Rightarrow> (u64 \<Rightarrow> SegmentIndex list \<Rightarrow> SegmentStore \<times> FS \<Rightarrow> verdict) \<Rightarrow> verdict" where
  "multi_size_loop reads crc i segmentIndexs sf rest =
     (let value = a_value i; key = ToHexString i in
      call (Append crc key value sf) (\<lambda>(appended, sf).
      (let segmentIndex = (case appended of None \<Rightarrow> [] | Some index \<Rightarrow> index);
           segmentIndexs = segmentIndexs @ [segmentIndex] in
      ASSERT (appended \<noteq> None) (ASSERT (segmentIndex \<noteq> [])
      (call (if reads then Segment_Read crc segmentIndex sf else Inr (None, snd sf)) (\<lambda>(kv, fs).
      (let (readKey, readValue) = read_strings kv in
      ASSERT (reads \<longrightarrow> kv \<noteq> None) (ASSERT (reads \<longrightarrow> key = readKey) (ASSERT (reads \<longrightarrow> value = readValue)
      (let i = i + 1 in
      (if 8 + of_nat (HexStringSize 8) + i \<le> 1024
       then multi_size_loop reads crc i segmentIndexs (fst sf, fs) rest
       else rest i segmentIndexs (fst sf, fs))))))))))))"

fun read_forwards :: "(string \<Rightarrow> u32) \<Rightarrow> SegmentIndex list \<Rightarrow> u64 list \<Rightarrow> SegmentStore \<times> FS \<Rightarrow> verdict" where
  "read_forwards crc segmentIndexs [] sf = passed"
| "read_forwards crc segmentIndexs (i # is) sf =
     (let key = ToHexString i in
      call (Segment_Read crc (segmentIndexs ! unat (i - 1)) sf) (\<lambda>(kv, fs).
      let (readKey, readValue) = read_strings kv in
      ASSERT (kv \<noteq> None) (ASSERT (key = readKey)
      (let value = a_value i in
      ASSERT (value = readValue)
      (read_forwards crc segmentIndexs is (fst sf, fs))))))"

definition ReadWriteMultiSize :: "(string \<Rightarrow> u32) \<Rightarrow> SegmentStore \<Rightarrow> FS \<Rightarrow> verdict" where
  "ReadWriteMultiSize crc s0 fs =
     run (Segment_Init crc (segment_options SegmentPath False) (s0, SetUp fs)) (\<lambda>(initResult, _, sf).
     ASSERT initResult
     (multi_size_loop True crc 1 [] sf (\<lambda>i segmentIndexs sf.
      read_forwards crc segmentIndexs (map of_nat [1 ..< Suc (length segmentIndexs)]) sf)))"

definition InitWithSegmentExistSegment :: "(string \<Rightarrow> u32) \<Rightarrow> SegmentStore \<Rightarrow> SegmentStore \<Rightarrow> FS \<Rightarrow> verdict" where
  "InitWithSegmentExistSegment crc s0 s1 fs =
     run (Segment_Init crc (segment_options SegmentPath False) (s0, SetUp fs)) (\<lambda>(initResult, _, sf).
     ASSERT initResult
     (let i = 1; key = ToHexString i; value = test_value i in
      call (Append crc key value sf) (\<lambda>(appended, sf).
      ASSERT (appended \<noteq> None)
      (let segmentIndex = the appended in
       call (Segment_Read crc segmentIndex sf) (\<lambda>(kv, fs).
       let (readKey, readValue) = read_strings kv in
       ASSERT (kv \<noteq> None) (ASSERT (key = readKey) (ASSERT (value = readValue)
       (run (Segment_Init crc (segment_options SegmentPath False) (s1, fs)) (\<lambda>(initResult, _, sf).
       ASSERT initResult
       (call (Segment_Read crc segmentIndex sf) (\<lambda>(kv, fs).
       let (readKey, readValue) = read_strings kv in
       ASSERT (kv \<noteq> None) (ASSERT (key = readKey) (ASSERT (value = readValue) passed)))))))))))))"

definition TestReplayLog :: "(string \<Rightarrow> u32) \<Rightarrow> SegmentStore \<Rightarrow> SegmentStore \<Rightarrow> FS \<Rightarrow> verdict" where
  "TestReplayLog crc s0 s1 fs =
     run (Segment_Init crc (segment_options SegmentPath False) (s0, SetUp fs)) (\<lambda>(initResult, _, sf).
     (let i = 1; key = ToHexString i; value = test_value i in
      call (Append crc key value sf) (\<lambda>(appended, sf).
      let segmentIndex = (case appended of None \<Rightarrow> [] | Some index \<Rightarrow> index) in
      call (Segment_Read crc segmentIndex sf) (\<lambda>(kv, fs).
      let (readKey, readValue) = read_strings kv in
      ASSERT (key = readKey)
      (run (Segment_Init crc (segment_options SegmentPath False) (s1, fs)) (\<lambda>(_, _, sf).
      call (ReplayLog crc 0 0 sf) (\<lambda>(replayRes, replayed, fs).
      let (replayKey, replayIndex) = read_strings replayed;
          pos = 8 + of_nat (HexStringSize 8) + of_nat (length value) :: u64 in
      ASSERT (pos = word_of_int replayRes) (ASSERT (key = replayKey)
      (ASSERT (segmentIndex = replayIndex) passed)))))))))"

text \<open>The replay of \<open>TestReplayMultiLogs\<close>, with the key and index of the last replayed record.\<close>

partial_function (option) replay_check_loop ::
  "(string \<Rightarrow> u32) \<Rightarrow> u64 \<Rightarrow> SegmentIndex list \<Rightarrow> u64 \<Rightarrow> SEGMENT_ID \<Rightarrow> u64 \<Rightarrow> string \<times> SegmentIndex
     \<Rightarrow> SegmentStore \<times> FS \<Rightarrow> verdict" where
  "replay_check_loop crc maxInstanceId appendSegmentIndex i segmentId offset replayed sf =
     (if i \<le> maxInstanceId
      then (let key = ToHexString i; value = a_value i in
        call (ReplayLog crc segmentId offset sf) (\<lambda>(replayOffset, kv, fs).
        (let replayed = (case kv of None \<Rightarrow> replayed | Some kv \<Rightarrow> kv) in
        (if replayOffset = 0
         then (if sint segmentId = 2 ^ 31 - 1 then Some (Inl SignedOverflow)
               else replay_check_loop crc maxInstanceId appendSegmentIndex i (segmentId + 1) 0 replayed (fst sf, fs))
         else (let tmpOffset = offset + 8 + of_nat (HexStringSize 8) + of_nat (length value) in
           ASSERT (sint tmpOffset = replayOffset) (ASSERT (key = fst replayed)
           (ASSERT (appendSegmentIndex ! unat (i - 1) = snd replayed)
           (replay_check_loop crc maxInstanceId appendSegmentIndex (i + 1) segmentId
              (word_of_int replayOffset) replayed (fst sf, fs)))))))))
      else passed)"

definition TestReplayMultiLogs :: "(string \<Rightarrow> u32) \<Rightarrow> SegmentStore \<Rightarrow> SegmentStore \<Rightarrow> FS \<Rightarrow> verdict" where
  "TestReplayMultiLogs crc s0 s1 fs =
     run (Segment_Init crc (segment_options SegmentPath False) (s0, SetUp fs)) (\<lambda>(initResult, _, sf).
     ASSERT initResult
     (multi_size_loop False crc 1 [] sf (\<lambda>i appendSegmentIndex sf.
      (let maxInstanceId = i - 1 in
       run (Segment_Init crc (segment_options SegmentPath False) (s1, snd sf)) (\<lambda>(_, _, sf).
       replay_check_loop crc maxInstanceId appendSegmentIndex 1 0 0 ([], []) sf)))))"

partial_function (option) last_segment_loop ::
  "(string \<Rightarrow> u32) \<Rightarrow> u64 \<Rightarrow> u64 \<Rightarrow> SEGMENT_ID \<Rightarrow> SegmentStore \<times> FS \<Rightarrow> verdict" where
  "last_segment_loop crc i offset segmentId sf =
     (let value = a_value i; key = ToHexString i in
      call (Append crc key value sf) (\<lambda>(appended, sf).
      (case appended of
         None \<Rightarrow> passed
       | Some segmentIndex \<Rightarrow>
           call (ParseSegmentIndex segmentIndex) (\<lambda>(newSegmentId, newOffset, checkSum).
           (let lastSegmentId = GetLastSegmentId (fst sf) in
           ASSERT (newSegmentId = lastSegmentId)
           (ASSERT (newOffset = (if sint newSegmentId > sint segmentId then 0 else offset))
           (last_segment_loop crc (i + 1) (GetCurrentOffset (fst sf)) newSegmentId sf)))))))"

definition TestGetLastSegmentIdAndGetCurrentOffset :: "(string \<Rightarrow> u32) \<Rightarrow> SegmentStore \<Rightarrow> FS \<Rightarrow> verdict" where
  "TestGetLastSegmentIdAndGetCurrentOffset crc s0 fs =
     run (Segment_Init crc (segment_options SegmentPath False) (s0, SetUp fs)) (\<lambda>(initResult, _, sf).
     ASSERT initResult (last_segment_loop crc 1 0 0 sf))"

subsection \<open>The loop over a thousand records\<close>

lemma length_a_value [simp]: "length (a_value i) = unat i"
  by (simp add: a_value_def)

text \<open>The state of the loop after \<open>n\<close> records; \<open>b\<close> says that the segment has changed.\<close>

definition loop_state :: "LogStorageOptions \<Rightarrow> nat \<Rightarrow> bool \<Rightarrow> SegmentStore \<times> FS \<Rightarrow> bool" where
  "loop_state options n b sf \<longleftrightarrow> (case sf of (s, fs) \<Rightarrow> running options b (s, fs) \<and>
     sg_max_size s = 1024 \<and> sg_file_size s = 1024 \<and> sg_key_len s = 16 \<and>
     0 \<le> sint (sg_cur_id s) \<and> sint (sg_cur_id s) \<le> int n \<and>
     (b \<or> sg_cur_id s = 0 \<and> 25 * n \<le> unat (sg_cur_offset s)))"

lemma loop_state_running: "loop_state options n b (s, fs) \<Longrightarrow> running options b (s, fs)"
  by (simp add: loop_state_def)

lemma loop_state_quiet: "loop_state options n b (s, fs) \<Longrightarrow> quiet fs fs' \<Longrightarrow> loop_state options n b (s, fs')"
  by (auto simp: loop_state_def intro: running_quiet(1))

lemma loop_state_changed: "loop_state options n b (s, fs) \<Longrightarrow> 41 \<le> n \<Longrightarrow> b"
  using seg_invD(6) [of s fs] by (auto simp: loop_state_def running_def seg_ready_def word_le_nat_alt)

lemma loop_state_start:
  assumes "restartable options [] (s, fs)" and "sg_max_size s = 1024" and "sg_file_size s = 1024"
    and "sg_key_len s = 16" and "sg_cur_id s = 0"
  shows "loop_state options 0 False (s, fs)"
  using assms restartable_running by (simp add: loop_state_def)

lemma loop_step:
  assumes l: "loop_state options n b (s, fs)" and n: "n < 1000"
  shows "\<exists>idx s' fs' b'. Append crc (ToHexString (of_nat (Suc n))) (a_value (of_nat (Suc n))) (s, fs) =
      Inr (Some idx, s', fs') \<and> loop_state options (Suc n) b' (s', fs') \<and> keeps crc (s, fs) (s', fs') \<and>
    stored crc (s', fs') idx (ToHexString (of_nat (Suc n))) (a_value (of_nat (Suc n))) \<and>
    (\<exists>c. idx = ToSegmentIndex (sg_cur_id s') (if sg_cur_id s' = sg_cur_id s then sg_cur_offset s else 0) c) \<and>
    (sg_cur_id s' = sg_cur_id s \<or> sint (sg_cur_id s) < sint (sg_cur_id s'))"
proof -
  let ?i = "of_nat (Suc n) :: u64"
  let ?k = "ToHexString ?i" and ?v = "a_value ?i"
  have u: "unat ?i = Suc n" using n by (intro unat_of_nat_u64) simp
  have len: "rec_len ?k ?v = 25 + n" using u by (simp add: rec_len_def del: of_nat_Suc)
  have r: "running options b (s, fs)" and c: "sg_max_size s = 1024" "sg_file_size s = 1024" "sg_key_len s = 16"
    and id0: "0 \<le> sint (sg_cur_id s)" "sint (sg_cur_id s) \<le> int n"
    and d: "b \<or> sg_cur_id s = 0 \<and> 25 * n \<le> unat (sg_cur_offset s)"
    using l by (simp_all add: loop_state_def)
  have o: "sint (sg_cur_id s) \<noteq> 2 ^ 31 - 1" using id0 n by simp
  have k: "length ?k = unat (sg_key_len s)" using c by simp
  have v: "rec_len ?k ?v \<le> unat (sg_max_size s)" using c n len by (simp del: of_nat_Suc)
  obtain idx s1 fs1 where a: "Append crc ?k ?v (s, fs) = Inr (Some idx, s1, fs1)"
    and r1: "running options (b \<or> \<not> goes_on s ?k ?v) (s1, fs1)" and k1: "keeps crc (s, fs) (s1, fs1)"
    and st: "stored crc (s1, fs1) idx ?k ?v"
    and idx: "idx = (if goes_on s ?k ?v then ToSegmentIndex (sg_cur_id s) (sg_cur_offset s) (ucast (crc (?k @ ?v)))
           else ToSegmentIndex (sg_cur_id s + 1) 0 (ucast (crc (?k @ ?v))))"
    and id1: "sg_cur_id s1 = (if goes_on s ?k ?v then sg_cur_id s else sg_cur_id s + 1)"
    and o1: "unat (sg_cur_offset s1) = (if goes_on s ?k ?v then unat (sg_cur_offset s) else 0) + rec_len ?k ?v"
    and z1: "sg_file_size s1 = (if goes_on s ?k ?v then sg_file_size s else sg_max_size s)"
    using running_Append [OF r o k v, of crc] by blast
  have same: "sg_max_size s1 = 1024" "sg_key_len s1 = 16" "sg_file_size s1 = 1024"
    using k1 c z1 by (simp_all add: keeps_def)
  have si: "sint (sg_cur_id s1) = sint (sg_cur_id s) + (if goes_on s ?k ?v then 0 else 1)"
    using id1 sint_plus_one [OF o] by (simp del: of_nat_Suc)
  have "loop_state options (Suc n) (b \<or> \<not> goes_on s ?k ?v) (s1, fs1)"
    using r1 same si id0 d o1 id1 len by (auto simp: loop_state_def simp del: of_nat_Suc)
  moreover have "(\<exists>c. idx = ToSegmentIndex (sg_cur_id s1) (if sg_cur_id s1 = sg_cur_id s then sg_cur_offset s else 0) c) \<and>
    (sg_cur_id s1 = sg_cur_id s \<or> sint (sg_cur_id s) < sint (sg_cur_id s1))"
    using idx id1 si by (cases "goes_on s ?k ?v") auto
  ultimately show ?thesis using a k1 st by blast
qed

lemma multi_size_loop_ends:
  assumes "loop_state options (length is) b (s, fs)" and "length is < 1000"
    and "all_stored crc a_value is (s, fs)"
  shows "\<exists>is' s' fs'. multi_size_loop reads crc (of_nat (Suc (length is))) is (s, fs) rest =
      rest 1001 is' (s', fs') \<and>
    running options True (s', fs') \<and> all_stored crc a_value is' (s', fs') \<and> length is' = 1000"
  using assms
proof (induction "1000 - length is" arbitrary: "is" b s fs rule: less_induct)
  case less
  let ?i = "of_nat (Suc (length is)) :: u64"
  let ?k = "ToHexString ?i" and ?v = "a_value ?i"
  obtain idx s1 fs1 b1 where a: "Append crc ?k ?v (s, fs) = Inr (Some idx, s1, fs1)"
    and l1: "loop_state options (Suc (length is)) b1 (s1, fs1)" and k1: "keeps crc (s, fs) (s1, fs1)"
    and st: "stored crc (s1, fs1) idx ?k ?v" and ne: "idx \<noteq> []"
    using loop_step [OF less.prems(1,2), of crc] index_nonempty by blast
  obtain kv fs2 where rd: "(if reads then Segment_Read crc idx (s1, fs1) else Inr (None, fs1)) = Inr (kv, fs2)"
    and rk: "reads \<longrightarrow> kv = Some (?k, ?v)" and l2: "loop_state options (Suc (length is)) b1 (s1, fs2)"
    and k2: "keeps crc (s1, fs1) (s1, fs2)"
  proof (cases reads)
    case True
    have i1: "seg_inv (s1, fs1)" and e1: "fs_faults fs1 = []"
      using loop_state_running [OF l1] by (simp_all add: running_def seg_ready_def)
    obtain fs' where "Segment_Read crc idx (s1, fs1) = Inr (Some (?k, ?v), fs')" "quiet fs1 fs'"
      using Read_stored [OF i1 st] e1 by blast
    with that True loop_state_quiet [OF l1] quiet_keeps [OF i1] show ?thesis by simp
  next
    case False
    have "seg_inv (s1, fs1)" using loop_state_running [OF l1] by (simp add: running_def seg_ready_def)
    with that [OF _ _ l1] False keeps_refl show ?thesis by simp
  qed
  have st2: "stored crc (s1, fs2) idx ?k ?v" using st k2 by (simp add: keeps_def)
  have all: "all_stored crc a_value (is @ [idx]) (s1, fs2)"
    by (rule all_stored_snoc [OF less.prems(3) keeps_trans [OF k1 k2] st2])
  have i1: "?i + 1 = of_nat (Suc (length (is @ [idx])))" by (simp add: ac_simps)
  have u: "unat (8 + of_nat (HexStringSize 8) + (?i + 1) :: u64) = 26 + length is"
  proof -
    have "8 + of_nat (HexStringSize 8) + (?i + 1) = (of_nat (26 + length is) :: u64)"
      by (simp add: HexStringSize_def ac_simps)
    then show ?thesis using less.prems(2) by (simp only:) (rule unat_of_nat_u64, simp)
  qed
  have step: "multi_size_loop reads crc ?i is (s, fs) rest =
      (if 26 + length is \<le> 1024
       then multi_size_loop reads crc (?i + 1) (is @ [idx]) (s1, fs2) rest
       else rest (?i + 1) (is @ [idx]) (s1, fs2))"
    using a rd rk ne u
    by (subst multi_size_loop.simps, cases reads)
      (simp_all add: Let_def test_simps read_strings_def word_le_nat_alt del: of_nat_Suc cong: if_cong)
  show ?case
  proof (cases "26 + length is \<le> 1024")
    case True
    have "\<exists>is' s' fs'. multi_size_loop reads crc (of_nat (Suc (length (is @ [idx])))) (is @ [idx]) (s1, fs2) rest =
        rest 1001 is' (s', fs') \<and>
      running options True (s', fs') \<and> all_stored crc a_value is' (s', fs') \<and> length is' = 1000"
      by (rule less.hyps [OF _ _ _ all]) (use True l2 in simp_all)
    then show ?thesis unfolding step i1 using True by simp
  next
    case False
    then have n: "length is = 999" using less.prems(2) by simp
    have b1: b1 by (rule loop_state_changed [OF l2]) (simp add: n)
    have "?i + 1 = 1001" by (simp add: n)
    then show ?thesis unfolding step
      using False loop_state_running [OF l2] b1 all n
      by (intro exI [of _ "is @ [idx]"] exI [of _ s1] exI [of _ fs2]) simp
  qed
qed

lemma multi_size_loop_all:
  assumes "restartable options [] (s, fs)" and "sg_max_size s = 1024" and "sg_file_size s = 1024"
    and "sg_key_len s = 16" and "sg_cur_id s = 0"
  shows "\<exists>is' s' fs'. multi_size_loop reads crc 1 [] (s, fs) rest = rest 1001 is' (s', fs') \<and>
    running options True (s', fs') \<and> all_stored crc a_value is' (s', fs') \<and> length is' = 1000"
proof -
  have "loop_state options (length ([] :: SegmentIndex list)) False (s, fs)"
    using loop_state_start [OF assms] by simp
  from multi_size_loop_ends [OF this _ all_stored_Nil, where crc = crc and reads = reads and rest = rest]
  show ?thesis by simp
qed

subsection \<open>The tests\<close>

lemma read_forwards_passes:
  "running options b (s, fs) \<Longrightarrow> all_stored crc a_value is (s, fs) \<Longrightarrow> length is < 2 ^ 64 \<Longrightarrow>
     list_all (\<lambda>j. 0 < j \<and> j \<le> length is) js \<Longrightarrow> read_forwards crc is (map of_nat js) (s, fs) = passed"
proof (induction js arbitrary: fs)
  case Nil
  then show ?case by simp
next
  case (Cons j js)
  then obtain n where j: "j = Suc n" and n: "n < length is" by (cases j) auto
  have u: "unat (of_nat j - 1 :: u64) = n"
    using n Cons.prems(3) j by (simp add: unat_of_nat_u64)
  have "stored crc (s, fs) (is ! n) (ToHexString (of_nat (Suc n))) (a_value (of_nat (Suc n)))"
    using Cons.prems(2) n by (simp add: all_stored_def)
  from running_Read [OF Cons.prems(1) this] obtain fs' where
    rd: "Segment_Read crc (is ! n) (s, fs) = Inr (Some (ToHexString (of_nat j), a_value (of_nat j)), fs')"
    and r: "running options b (s, fs')" and k: "keeps crc (s, fs) (s, fs')" unfolding j by blast
  have "read_forwards crc is (map of_nat js) (s, fs') = passed"
    by (rule Cons.IH [OF r all_stored_keeps [OF Cons.prems(2) k]]) (use Cons.prems(3,4) in simp_all)
  with rd u show ?case by (simp add: Let_def test_simps read_strings_def)
qed

text \<open>The thousand records of \<open>ReadWriteMultiSize\<close> are all read back.\<close>

theorem multi_size_test_passes:
  assumes "sg_db_path s0 = []" and "fs_faults fs = []" and "fresh_fs SegmentPath fs"
  shows "ReadWriteMultiSize crc s0 fs = passed"
proof -
  let ?o = "segment_options SegmentPath False"
  obtain s fs1 where 1: "Segment_Init crc ?o (s0, SetUp fs) = Some (Inr (True, False, s, fs1))"
    and r: "restartable ?o [] (s, fs1)" and c: "sg_file_size s = 1024" "sg_key_len s = 16" "sg_max_size s = 1024"
      "sg_cur_id s = 0"
    using segment_start [OF assms, of crc False] by blast
  let ?rest = "\<lambda>i segmentIndexs sf. read_forwards crc segmentIndexs (map of_nat [1 ..< Suc (length segmentIndexs)]) sf"
  obtain "is" s' fs' where l: "multi_size_loop True crc 1 [] (s, fs1) ?rest =
      read_forwards crc is (map of_nat [1 ..< Suc (length is)]) (s', fs')"
    and r': "running ?o True (s', fs')" and a: "all_stored crc a_value is (s', fs')" and n: "length is = 1000"
    using multi_size_loop_all [OF r c(3,1,2,4), of True crc ?rest] by blast
  have "list_all (\<lambda>j. 0 < j \<and> j \<le> length is) [1 ..< Suc (length is)]" by (auto simp: list_all_iff)
  then have "read_forwards crc is (map of_nat [1 ..< Suc (length is)]) (s', fs') = passed"
    using read_forwards_passes [OF r' a] n by simp
  with 1 l show ?thesis by (simp only: ReadWriteMultiSize_def test_simps prod.case)
qed

text \<open>
  The start of the second store of \<open>TestReplayMultiLogs\<close> is one after a change of segment: the
  repository's own test ends in the memory fault of \<open>Init\<close>, before it looks at a record.
\<close>

theorem replay_multi_logs_faults:
  assumes "sg_db_path s0 = []" and "sg_db_path s1 = []" and "fs_faults fs = []" and "fresh_fs SegmentPath fs"
  shows "TestReplayMultiLogs crc s0 s1 fs = Some (Inl OutOfBounds)"
proof -
  let ?o = "segment_options SegmentPath False"
  obtain s fs1 where 1: "Segment_Init crc ?o (s0, SetUp fs) = Some (Inr (True, False, s, fs1))"
    and r: "restartable ?o [] (s, fs1)" and c: "sg_file_size s = 1024" "sg_key_len s = 16" "sg_max_size s = 1024"
      "sg_cur_id s = 0"
    using segment_start [OF assms(1,3,4), of crc False] by blast
  let ?rest = "\<lambda>i appendSegmentIndex sf. (let maxInstanceId = i - 1 in
       run (Segment_Init crc ?o (s1, snd sf)) (\<lambda>(_, _, sf).
       replay_check_loop crc maxInstanceId appendSegmentIndex 1 0 0 ([], []) sf))"
  obtain "is" s' fs' where l: "multi_size_loop False crc 1 [] (s, fs1) ?rest = ?rest 1001 is (s', fs')"
    and r': "running ?o True (s', fs')"
    using multi_size_loop_all [OF r c(3,1,2,4), of False crc ?rest] by blast
  have "Segment_Init crc ?o (s1, fs') = Some (Inl OutOfBounds)" by (rule running_restart [OF r' assms(2)])
  then have "?rest 1001 is (s', fs') = Some (Inl OutOfBounds)" by (simp add: test_simps)
  with 1 l show ?thesis by (simp only: TestReplayMultiLogs_def test_simps prod.case simp_thms)
qed

lemma one_record:
  assumes "sg_db_path s0 = []" and "fs_faults fs = []" and "fresh_fs SegmentPath fs"
  shows "\<exists>s fs1 idx s' fs2 fs3. Segment_Init crc (segment_options SegmentPath False) (s0, SetUp fs) =
      Some (Inr (True, False, s, fs1)) \<and>
    Append crc (ToHexString 1) (test_value 1) (s, fs1) = Inr (Some idx, s', fs2) \<and>
    Segment_Read crc idx (s', fs2) = Inr (Some (ToHexString 1, test_value 1), fs3) \<and>
    restartable (segment_options SegmentPath False) [(ToHexString 1, test_value 1)] (s', fs3) \<and>
    stored crc (s', fs3) idx (ToHexString 1) (test_value 1) \<and>
    idx = ToSegmentIndex 0 0 (ucast (crc (ToHexString 1 @ test_value 1))) \<and> sg_key_len s' = 16"
proof -
  let ?o = "segment_options SegmentPath False"
  let ?k = "ToHexString 1" and ?v = "test_value 1"
  have len: "length ?v = 11" by (simp add: test_value_def to_string_def nat_digits.simps)
  obtain s fs1 where 1: "Segment_Init crc ?o (s0, SetUp fs) = Some (Inr (True, False, s, fs1))"
    and r: "restartable ?o [] (s, fs1)" and c: "sg_file_size s = 1024" "sg_key_len s = 16" "sg_max_size s = 1024"
      "sg_cur_id s = 0" "sg_cur_offset s = 0"
    using segment_start [OF assms, of crc False] by blast
  obtain idx s' fs2 where a: "Append crc ?k ?v (s, fs1) = Inr (Some idx, s', fs2)"
    and r2: "restartable ?o [(?k, ?v)] (s', fs2)" and kl: "sg_key_len s' = 16"
    using append_extends [OF r, of ?k ?v crc] c len by auto
  have i: "seg_inv (s, fs1)" and i2: "seg_inv (s', fs2)" and e2: "fs_faults fs2 = []"
    using r r2 by (simp_all add: restartable_def seg_ready_def)
  have go: "goes_on s ?k ?v" and v: "rec_len ?k ?v \<le> unat (sg_max_size s)" and k: "length ?k = unat (sg_key_len s)"
    using c len by (simp_all add: goes_on_def rec_len_def)
  have idx: "idx = ToSegmentIndex 0 0 (ucast (crc (?k @ ?v)))"
    using Append_position(1) [OF i k v a] go c by simp
  have st: "stored crc (s', fs2) idx ?k ?v" using Append_keeps [OF i k _ a] len by simp
  obtain fs3 where rd: "Segment_Read crc idx (s', fs2) = Inr (Some (?k, ?v), fs3)" and q: "quiet fs2 fs3"
    using Read_stored [OF i2 st] e2 by blast
  have k3: "keeps crc (s', fs2) (s', fs3)" by (rule quiet_keeps [OF i2 q])
  have "restartable ?o [(?k, ?v)] (s', fs3)" by (rule restartable_quiet [OF r2 q])
  moreover have "stored crc (s', fs3) idx ?k ?v" using st k3 by (simp add: keeps_def)
  ultimately show ?thesis using 1 a rd idx kl by blast
qed

theorem restart_tests_pass:
  assumes "sg_db_path s0 = []" and "sg_db_path s1 = []" and "fs_faults fs = []" and "fresh_fs SegmentPath fs"
  shows "InitWithSegmentExistSegment crc s0 s1 fs = passed" and "TestReplayLog crc s0 s1 fs = passed"
proof -
  let ?o = "segment_options SegmentPath False"
  let ?k = "ToHexString 1" and ?v = "test_value 1"
  have len: "length ?v = 11" by (simp add: test_value_def to_string_def nat_digits.simps)
  obtain s fs1 idx s' fs2 fs3 where 1: "Segment_Init crc ?o (s0, SetUp fs) = Some (Inr (True, False, s, fs1))"
    "Append crc ?k ?v (s, fs1) = Inr (Some idx, s', fs2)"
    "Segment_Read crc idx (s', fs2) = Inr (Some (?k, ?v), fs3)"
    and r: "restartable ?o [(?k, ?v)] (s', fs3)" and st: "stored crc (s', fs3) idx ?k ?v"
    and idx: "idx = ToSegmentIndex 0 0 (ucast (crc (?k @ ?v)))" and kl: "sg_key_len s' = 16"
    using one_record [OF assms(1,3,4), of crc] by blast
  have "lo_removeAsync ?o = False" by (simp add: segment_options_def)
  then obtain s2 fs4 where 2: "Segment_Init crc ?o (s1, fs3) = Some (Inr (True, False, s2, fs4))"
    and r2: "restartable ?o [(?k, ?v)] (s2, fs4)" and st2: "stored crc (s2, fs4) idx ?k ?v"
    using restart_keeps [OF r assms(2), of crc] st by auto
  have i2: "seg_inv (s2, fs4)" and e2: "fs_faults fs4 = []" using r2 by (simp_all add: restartable_def seg_ready_def)
  obtain fs5 where rd: "Segment_Read crc idx (s2, fs4) = Inr (Some (?k, ?v), fs5)"
    using Read_stored [OF i2 st2] e2 by blast
  show "InitWithSegmentExistSegment crc s0 s1 fs = passed"
    using 1 2 rd idx by (simp add: InitWithSegmentExistSegment_def Let_def test_simps read_strings_def)
  obtain ino m where ino: "map_of (fs_files fs4) (ToSegmentPath 0 s2) = Some ino"
    and d: "fs_data fs4 ino = seg_bytes [(?k, ?v)] @ replicate m NUL"
    using r2 unfolding restartable_def seg_holds_def by auto
  have kl2: "sg_key_len s2 = 16" using r2 by (simp add: restartable_def segment_options_def HexStringSize_def)
  have rp: "replayable 0 ino (s2, fs4)" using e2 ino seg_invD(5) [OF i2] by (simp add: replayable_def)
  have rg: "take (8 + length ?k + length ?v) (drop (unat (0 :: u64)) (fs_data fs4 ino)) = rec_bytes ?k ?v"
    unfolding d by simp
  obtain fs6 where rl: "ReplayLog crc 0 0 (s2, fs4) = Inr (to_int (0 + 8 + of_nat (length ?k + length ?v)),
      Some (?k, ToSegmentIndex 0 0 (ucast (crc (?k @ ?v)))), fs6)"
    using ReplayLog_record [OF rp _ _ _ rg, of crc] kl2 len by auto
  have "to_int (0 + 8 + of_nat (length ?k + length ?v)) = 35"
    by (subst to_int_small) (simp_all add: len)
  with rl have "ReplayLog crc 0 0 (s2, fs4) = Inr (35, Some (?k, idx), fs6)" by (simp add: idx)
  then show "TestReplayLog crc s0 s1 fs = passed"
    using 1 2 len by (simp add: TestReplayLog_def Let_def test_simps read_strings_def HexStringSize_def)
qed

lemma Append_too_big:
  assumes "unat (sg_key_len s) = 16" and "unat (sg_max_size s) = 1024" and "1000 < length val" and "length val < 2 ^ 32"
  shows "Append crc key val (s, fs) = Inr (None, s, fs)"
proof -
  have "sg_key_len s = of_nat 16" using assms(1) by (metis word_of_nat_unat)
  then have "8 + (sg_key_len s + of_nat (length val)) = of_nat (24 + length val)" by simp
  then have "unat (8 + (sg_key_len s + of_nat (length val))) = 24 + length val"
    using assms(4) by (simp only:) (rule unat_of_nat_u64, simp)
  then show ?thesis using assms(2,3) by (simp add: Append_def Let_def word_less_nat_alt)
qed

lemma last_segment_loop_passes:
  assumes "loop_state options n b (s, fs)" and "n \<le> 1000"
  shows "last_segment_loop crc (of_nat (Suc n)) (sg_cur_offset s) (sg_cur_id s) (s, fs) = passed"
  using assms
proof (induction "1000 - n" arbitrary: n b s fs rule: less_induct)
  case less
  let ?i = "of_nat (Suc n) :: u64"
  show ?case
  proof (cases "n = 1000")
    case True
    have "unat ?i = Suc n" using True by (intro unat_of_nat_u64) simp
    then have "Append crc (ToHexString ?i) (a_value ?i) (s, fs) = Inr (None, s, fs)"
      using less.prems(1) True by (intro Append_too_big) (simp_all add: loop_state_def)
    then show ?thesis by (subst last_segment_loop.simps) (simp add: Let_def test_simps del: of_nat_Suc)
  next
    case False
    then have n: "n < 1000" using less.prems(2) by simp
    obtain idx s1 fs1 b1 c where a: "Append crc (ToHexString ?i) (a_value ?i) (s, fs) = Inr (Some idx, s1, fs1)"
      and l1: "loop_state options (Suc n) b1 (s1, fs1)"
      and idx: "idx = ToSegmentIndex (sg_cur_id s1) (if sg_cur_id s1 = sg_cur_id s then sg_cur_offset s else 0) c"
      and id1: "sg_cur_id s1 = sg_cur_id s \<or> sint (sg_cur_id s) < sint (sg_cur_id s1)"
      using loop_step [OF less.prems(1) n, of crc] by blast
    have "last_segment_loop crc (of_nat (Suc (Suc n))) (sg_cur_offset s1) (sg_cur_id s1) (s1, fs1) = passed"
      by (rule less.hyps [OF _ l1]) (use n in simp_all)
    moreover have "?i + 1 = of_nat (Suc (Suc n))" by (simp add: ac_simps)
    ultimately have nxt: "last_segment_loop crc (?i + 1) (sg_cur_offset s1) (sg_cur_id s1) (s1, fs1) = passed" by simp
    have "last_segment_loop crc ?i (sg_cur_offset s) (sg_cur_id s) (s, fs) =
        last_segment_loop crc (?i + 1) (sg_cur_offset s1) (sg_cur_id s1) (s1, fs1)"
      using a idx id1
      by (subst last_segment_loop.simps)
        (auto simp: Let_def test_simps GetLastSegmentId_def GetCurrentOffset_def simp del: of_nat_Suc)
    with nxt show ?thesis by simp
  qed
qed

theorem last_segment_test_passes:
  assumes "sg_db_path s0 = []" and "fs_faults fs = []" and "fresh_fs SegmentPath fs"
  shows "TestGetLastSegmentIdAndGetCurrentOffset crc s0 fs = passed"
proof -
  let ?o = "segment_options SegmentPath False"
  obtain s fs1 where 1: "Segment_Init crc ?o (s0, SetUp fs) = Some (Inr (True, False, s, fs1))"
    and r: "restartable ?o [] (s, fs1)" and c: "sg_file_size s = 1024" "sg_key_len s = 16" "sg_max_size s = 1024"
      "sg_cur_id s = 0" "sg_cur_offset s = 0"
    using segment_start [OF assms, of crc False] by blast
  from last_segment_loop_passes [OF loop_state_start [OF r c(3,1,2,4)], of crc] c(4,5)
  have "last_segment_loop crc 1 0 0 (s, fs1) = passed" by simp
  with 1 show ?thesis by (simp add: TestGetLastSegmentIdAndGetCurrentOffset_def test_simps)
qed

end
