(* ===== verification/Segment_Clean.thy ===== *)
theory Segment_Clean
  imports Segment_Positions Disk_Refinement
begin

section \<open>The clean-up of segments\<close>

text \<open>
  When the last record of a segment is removed, \<open>RemoveAsync\<close> adds an event to the scheduler of
  the store; the thread that \<open>Init\<close> starts with \<open>removeAsync\<close> turns \<open>AutoDispatch\<close> and calls the
  handler, which deletes the file. \<open>clean_round\<close> is one turn of that loop at a time, \<open>clean_thread\<close>
  the turns at a series of times; the loop returns after a handler only when compiled with
  \<open>FINITE_SCHEDULE_LOOP\<close>, as the tests are. Only \<open>RemoveAsync\<close> adds events to this scheduler, so
  the handlers of the controller do not occur in it.
\<close>

definition clean_round :: "bool \<Rightarrow> SteadyTime \<Rightarrow> SegmentStore \<times> FS \<Rightarrow> (bool \<times> SegmentStore \<times> FS) res" where
  "clean_round finite_loop now sf =
     (let (s, fs) = sf; (handler, returned, sched) = AutoDispatch_round finite_loop now (sg_scheduler s);
          s = s\<lparr> sg_scheduler := sched \<rparr> in
      case handler of
        Some (DeleteSegmentHandler segment_id) \<Rightarrow> Inr (returned, s, snd (DeleteSegment segment_id (s, fs)))
      | Some NoHandler \<Rightarrow> Inl BadCall
      | _ \<Rightarrow> Inr (returned, s, fs))"

fun clean_thread :: "bool \<Rightarrow> SteadyTime list \<Rightarrow> SegmentStore \<times> FS \<Rightarrow> (bool \<times> SegmentStore \<times> FS) res" where
  "clean_thread finite_loop [] sf = Inr (False, sf)"
| "clean_thread finite_loop (now # ts) sf =
     bind_res (clean_round finite_loop now sf) (\<lambda>(returned, sf).
       if returned then Inr (True, sf) else clean_thread finite_loop ts sf)"

subsection \<open>What is in the scheduler\<close>

definition cleanups :: "Scheduler \<Rightarrow> bool" where
  "cleanups sch \<longleftrightarrow> sched_inv sch \<and>
     (\<forall>e\<in>set (sch_queue sch). ev_type e = kEVENT_CLEAN_SEGMENT \<and> (\<exists>k. ev_callback e = DeleteSegmentHandler k))"

text \<open>At most the event \<open>e\<close> is live.\<close>

definition only_live :: "Scheduler \<Rightarrow> Event \<Rightarrow> bool" where
  "only_live sch e \<longleftrightarrow> (\<forall>f. live sch f \<longrightarrow> f = e)"

lemma cleanups_new: "cleanups new_Scheduler"
  using sched_inv_new by (simp add: cleanups_def new_Scheduler_def)

definition cleanup :: "u32 \<Rightarrow> SteadyTime \<Rightarrow> Scheduler \<Rightarrow> Event" where
  "cleanup k t sch = \<lparr> ev_callback = DeleteSegmentHandler k, ev_when = t,
     ev_type = kEVENT_CLEAN_SEGMENT, ev_id = sch_eventId sch + 1 \<rparr>"

lemma cleanups_AddEvent:
  assumes "cleanups sch" and "sch_eventId sch < - 1"
  shows "cleanups (AddEvent (DeleteSegmentHandler k) t kEVENT_CLEAN_SEGMENT sch)"
    and "live (AddEvent (DeleteSegmentHandler k) t kEVENT_CLEAN_SEGMENT sch) f \<longleftrightarrow> f = cleanup k t sch"
    and "only_live (AddEvent (DeleteSegmentHandler k) t kEVENT_CLEAN_SEGMENT sch) (cleanup k t sch)"
proof -
  let ?a = "AddEvent (DeleteSegmentHandler k) t kEVENT_CLEAN_SEGMENT sch"
  have i: "sched_inv sch" using assms(1) by (simp add: cleanups_def)
  have q: "set (sch_queue ?a) = insert (cleanup k t sch) (set (sch_queue sch))"
    using i by (simp add: AddEvent_def Push_def Let_def hp.set_push sched_inv_def cleanup_def)
  then show "cleanups ?a"
    using sched_inv_AddEvent [OF i assms(2)] assms(1) by (auto simp: cleanups_def cleanup_def)
  have l: "live ?a f \<longleftrightarrow> f = cleanup k t sch" for f
  proof (cases "ev_type f = kEVENT_CLEAN_SEGMENT")
    case True
    then show ?thesis by (simp add: AddEvent_live [OF i assms(2)] cleanup_def)
  next
    case False
    then have "\<not> live ?a f" using q assms(1) by (auto simp: live_def cleanups_def cleanup_def)
    with False show ?thesis by (auto simp: cleanup_def)
  qed
  then show "live ?a f \<longleftrightarrow> f = cleanup k t sch" and "only_live ?a (cleanup k t sch)"
    by (simp_all add: only_live_def)
qed

text \<open>What a turn of the loop does when at most the event \<open>cleanup k t sch0\<close> is live.\<close>

lemma Dispatch_cleanup:
  assumes c: "cleanups sch" and o: "only_live sch (cleanup k t sch0)" and d: "Dispatch now sch = (r, sch')"
  shows "cleanups sch'" and "sch_eventId sch' = sch_eventId sch"
    and "r = None \<Longrightarrow> sch' = sch \<or> (\<forall>e. \<not> live sch' e) \<and> (\<forall>e. \<not> live sch e)"
    and "r = Some e \<Longrightarrow> e = cleanup k t sch0 \<and> t \<le> now \<and> (\<forall>e. \<not> live sch' e)"
    and "live sch (cleanup k t sch0) \<Longrightarrow> (\<forall>e\<in>set (sch_queue sch). ev_when e \<le> now) \<Longrightarrow> r \<noteq> None"
proof -
  have i: "sched_inv sch" using c by (simp add: cleanups_def)
  note dc = Dispatch_cases [OF i d]
  have i': "sched_inv sch'" by (rule sched_inv_Dispatch [OF i d])
  have sub: "set (sch_queue sch') \<subseteq> set (sch_queue sch)" using dc(3) by (metis set_mset_mono set_mset_mset)
  then show "cleanups sch'" using c i' by (auto simp: cleanups_def)
  show "sch_eventId sch' = sch_eventId sch" by (rule dc(2))
  have old: "live sch e" if "live sch' e" for e
  proof -
    have m: "e \<in> set (sch_queue sch)" using that sub by (auto simp: live_def)
    then have "live_in (sch_ids sch') e = live_in (sch_ids sch) e"
      by (intro same_ids_live [OF dc(1)] sched_inv_ids [OF i])
    with that m show ?thesis by (simp add: live_def)
  qed
  show "sch' = sch \<or> (\<forall>e. \<not> live sch' e) \<and> (\<forall>e. \<not> live sch e)" if "r = None"
    using dc(5) [OF that] old by auto
  show "e = cleanup k t sch0 \<and> t \<le> now \<and> (\<forall>e. \<not> live sch' e)" if r: "r = Some e"
  proof -
    have e: "live sch e" "ev_when e \<le> now" and m: "add_mset e (mset (sch_queue sch')) \<subseteq># mset (sch_queue sch)"
      using dc(6) [OF r] by auto
    have eq: "e = cleanup k t sch0" using o e(1) by (simp add: only_live_def)
    have "\<not> live sch' f" for f
    proof
      assume f: "live sch' f"
      then have "f = e" using old o eq by (simp add: only_live_def)
      with f have "add_mset e (mset (sch_queue sch')) = add_mset e (add_mset e (mset (sch_queue sch') - {#e#}))"
        by (simp add: live_def)
      with m have "add_mset e (add_mset e (mset (sch_queue sch') - {#e#})) \<subseteq># mset (sch_queue sch)" by simp
      then have "2 \<le> count (mset (sch_queue sch)) e" by (auto dest!: mset_subset_eq_count [of _ _ e])
      moreover have "distinct (sch_queue sch)" using i by (auto simp: sched_inv_def distinct_map)
      ultimately show False by (auto simp: distinct_count_atmost_1 split: if_splits)
    qed
    with eq e(2) show ?thesis by (simp add: cleanup_def)
  qed
  show "r \<noteq> None" if l: "live sch (cleanup k t sch0)" and due: "\<forall>e\<in>set (sch_queue sch). ev_when e \<le> now"
  proof
    assume n: "r = None"
    have "sch_queue sch \<noteq> []" using l by (auto simp: live_def)
    then have ht: "HasTimeout now (sch_queue sch)" using due HasTimeout_all_due [OF sched_inv_heap [OF i]] by simp
    obtain q1 ids1 where "dispatch_loop (sch_queue sch) (sch_ids sch) = (None, q1, ids1)"
      using d n ht by (auto simp: Dispatch_def Let_def split: prod.splits)
    from dispatch_loop_correct [OF sched_inv_heap [OF i] _ this] l i show False
      by (auto simp: live_def sched_inv_def)
  qed
qed

subsection \<open>The loop of the thread\<close>

lemma clean_round_idle:
  assumes c: "cleanups (sg_scheduler s)" and n: "\<forall>e. \<not> live (sg_scheduler s) e"
  shows "\<exists>sch. clean_round finite_loop now (s, fs) = Inr (False, s\<lparr> sg_scheduler := sch \<rparr>, fs) \<and>
    cleanups sch \<and> (\<forall>e. \<not> live sch e)"
proof -
  obtain r sch where d: "Dispatch now (sg_scheduler s) = (r, sch)" by force
  have o: "only_live (sg_scheduler s) (cleanup k t sch0)" for k t sch0 using n by (simp add: only_live_def)
  note dc = Dispatch_cleanup [OF c o d]
  have i: "sched_inv (sg_scheduler s)" using c by (simp add: cleanups_def)
  have r: "r = None" using Dispatch_cases(6) [OF i d] n by (cases r) auto
  have "\<forall>e. \<not> live sch e" using dc(3) [OF r] n by auto
  then show ?thesis using d r dc(1)
    by (intro exI [of _ sch]) (simp add: clean_round_def AutoDispatch_round_def)
qed

lemma clean_thread_idle:
  "cleanups (sg_scheduler s) \<Longrightarrow> \<forall>e. \<not> live (sg_scheduler s) e \<Longrightarrow>
     \<exists>sch. clean_thread finite_loop ts (s, fs) = Inr (False, s\<lparr> sg_scheduler := sch \<rparr>, fs)"
proof (induction ts arbitrary: s)
  case Nil
  show ?case by (intro exI [of _ "sg_scheduler s"]) simp
next
  case (Cons now ts)
  obtain sch where r: "clean_round finite_loop now (s, fs) = Inr (False, s\<lparr> sg_scheduler := sch \<rparr>, fs)"
    and c: "cleanups sch" "\<forall>e. \<not> live sch e"
    using clean_round_idle [OF Cons.prems] by blast
  obtain sch' where "clean_thread finite_loop ts (s\<lparr> sg_scheduler := sch \<rparr>, fs) =
      Inr (False, (s\<lparr> sg_scheduler := sch \<rparr>)\<lparr> sg_scheduler := sch' \<rparr>, fs)"
    using Cons.IH [of "s\<lparr> sg_scheduler := sch \<rparr>"] c by auto
  with r show ?case by (intro exI [of _ sch']) simp
qed

definition removed :: "string \<Rightarrow> FS \<Rightarrow> FS" where
  "removed path fs = fs\<lparr> fs_files := filter (\<lambda>f. fst f \<noteq> path) (fs_files fs) \<rparr>"

lemma map_of_removed: "map_of (fs_files (removed path fs)) p = (if p = path then None else map_of (fs_files fs) p)"
proof -
  have "map_of (filter (\<lambda>f. fst f \<noteq> path) xs) p = (if p = path then None else map_of xs p)" for xs :: "(string \<times> nat) list"
    by (induction xs) auto
  then show ?thesis by (simp add: removed_def)
qed

text \<open>
  With one live event the loop deletes its segment at the first turn at which every queued event
  is due, replaced ones too, and nothing else.
\<close>

lemma clean_round_waiting:
  assumes c: "cleanups (sg_scheduler s)" and o: "only_live (sg_scheduler s) (cleanup k t sch0)"
    and l: "live (sg_scheduler s) (cleanup k t sch0)" and e: "fs_faults fs = []"
    and f: "map_of (fs_files fs) (ToSegmentPath k s) \<noteq> None"
  shows "if \<forall>e\<in>set (sch_queue (sg_scheduler s)). ev_when e \<le> now
    then \<exists>sch. clean_round finite_loop now (s, fs) =
        Inr (finite_loop, s\<lparr> sg_scheduler := sch \<rparr>, removed (ToSegmentPath k s) fs) \<and>
      cleanups sch \<and> (\<forall>e. \<not> live sch e)
    else clean_round finite_loop now (s, fs) = Inr (False, s, fs)"
proof -
  obtain r sch where d: "Dispatch now (sg_scheduler s) = (r, sch)" by force
  note dc = Dispatch_cleanup [OF c o d]
  have i: "sched_inv (sg_scheduler s)" using c by (simp add: cleanups_def)
  show ?thesis
  proof (cases "\<forall>e\<in>set (sch_queue (sg_scheduler s)). ev_when e \<le> now")
    case True
    then obtain ev where r: "r = Some ev" using dc(5) [OF l True] by auto
    have ev: "ev_callback ev = DeleteSegmentHandler k" "\<forall>e. \<not> live sch e"
      using dc(4) [OF r] by (simp_all add: cleanup_def)
    have "ToSegmentPath k (s\<lparr> sg_scheduler := sch \<rparr>) = ToSegmentPath k s" by (simp add: ToSegmentPath_def)
    then have "DeleteSegment k (s\<lparr> sg_scheduler := sch \<rparr>, fs) = (True, removed (ToSegmentPath k s) fs)"
      using e f by (simp add: DeleteSegment_def sys_remove_def removed_def)
    with True d r ev dc(1) show ?thesis
      by (auto simp: clean_round_def AutoDispatch_round_def)
  next
    case False
    then have "\<not> HasTimeout now (sch_queue (sg_scheduler s))"
      using HasTimeout_all_due [OF sched_inv_heap [OF i]] by simp
    then have "r = None \<and> sch = sg_scheduler s" using d by (simp add: Dispatch_def)
    with False d show ?thesis by (auto simp: clean_round_def AutoDispatch_round_def)
  qed
qed

lemma clean_thread_waiting:
  assumes c: "cleanups (sg_scheduler s)" and o: "only_live (sg_scheduler s) (cleanup k t sch0)"
    and l: "live (sg_scheduler s) (cleanup k t sch0)" and e: "fs_faults fs = []"
    and f: "map_of (fs_files fs) (ToSegmentPath k s) \<noteq> None"
  shows "\<exists>sch. clean_thread finite_loop ts (s, fs) =
    (if \<exists>now\<in>set ts. \<forall>e\<in>set (sch_queue (sg_scheduler s)). ev_when e \<le> now
     then Inr (finite_loop, s\<lparr> sg_scheduler := sch \<rparr>, removed (ToSegmentPath k s) fs)
     else Inr (False, s, fs))"
proof (induction ts)
  case Nil
  show ?case by simp
next
  case (Cons now ts)
  note cw = clean_round_waiting [OF assms, of now finite_loop]
  show ?case
  proof (cases "\<forall>e\<in>set (sch_queue (sg_scheduler s)). ev_when e \<le> now")
    case False
    then have "clean_round finite_loop now (s, fs) = Inr (False, s, fs)" using cw by presburger
    then have "clean_thread finite_loop (now # ts) (s, fs) = clean_thread finite_loop ts (s, fs)" by simp
    moreover have "(\<exists>x\<in>set (now # ts). \<forall>e\<in>set (sch_queue (sg_scheduler s)). ev_when e \<le> x) \<longleftrightarrow>
        (\<exists>x\<in>set ts. \<forall>e\<in>set (sch_queue (sg_scheduler s)). ev_when e \<le> x)" using False by auto
    ultimately show ?thesis using Cons by presburger
  next
    case True
    then obtain sch where r: "clean_round finite_loop now (s, fs) =
        Inr (finite_loop, s\<lparr> sg_scheduler := sch \<rparr>, removed (ToSegmentPath k s) fs)"
      and n: "cleanups sch" "\<forall>e. \<not> live sch e" using cw unfolding if_P [OF True] by blast
    obtain sch' where "clean_thread finite_loop ts (s\<lparr> sg_scheduler := sch \<rparr>, removed (ToSegmentPath k s) fs) =
        Inr (False, (s\<lparr> sg_scheduler := sch \<rparr>)\<lparr> sg_scheduler := sch' \<rparr>, removed (ToSegmentPath k s) fs)"
      using clean_thread_idle [of "s\<lparr> sg_scheduler := sch \<rparr>" finite_loop ts "removed (ToSegmentPath k s) fs"] n
      by auto
    with r True show ?thesis by (cases finite_loop) auto
  qed
qed

subsection \<open>Removing the last record of a segment\<close>

text \<open>The index of a record of segment \<open>sid\<close>; \<open>final\<close> says whether the file ends with it.\<close>

definition record_of :: "SegmentStore \<times> FS \<Rightarrow> SegmentIndex \<Rightarrow> SEGMENT_ID \<Rightarrow> bool \<Rightarrow> bool" where
  "record_of sf idx sid final \<longleftrightarrow> (\<exists>off c k v ino. idx = ToSegmentIndex sid off c \<and>
     map_of (fs_files (snd sf)) (ToSegmentPath sid (fst sf)) = Some ino \<and> unat off + rec_len k v < 2 ^ 63 \<and>
     take (rec_len k v) (drop (unat off) (fs_data (snd sf) ino)) = rec_bytes k v \<and>
     (final \<longleftrightarrow> unat off + rec_len k v = length (fs_data (snd sf) ino)))"

definition clean_delay :: int where
  "clean_delay = 1000 * SEGMENT_CLEAN_DELAY_IN_SECONDS * ns_per_ms"

lemma stored_record:
  assumes "stored crc (s, fs) idx k v"
  shows "\<exists>sid final. record_of (s, fs) idx sid final"
proof -
  obtain sid off ino where "idx = ToSegmentIndex sid off (ucast (crc (k @ v)))"
    "map_of (fs_files fs) (ToSegmentPath sid s) = Some ino" "unat off + rec_len k v < 2 ^ 63"
    "take (rec_len k v) (drop (unat off) (fs_data fs ino)) = rec_bytes k v"
    using assms by (auto simp: stored_def rec_len_def)
  then show ?thesis unfolding record_of_def fst_conv snd_conv by blast
qed

lemma RemoveAsync_event:
  assumes i: "seg_inv (s, fs)" and e: "fs_faults fs = []" and rec: "record_of (s, fs) idx sid final"
  shows "\<exists>fs'. RemoveAsync idx now (s, fs) = Inr (True,
      (if final then s\<lparr> sg_scheduler := AddEvent (DeleteSegmentHandler sid) (now + clean_delay)
         kEVENT_CLEAN_SEGMENT (sg_scheduler s) \<rparr> else s), fs') \<and> quiet fs fs'"
proof -
  obtain off c k v ino where idx: "idx = ToSegmentIndex sid off c"
    and ino: "map_of (fs_files fs) (ToSegmentPath sid s) = Some ino" and b: "unat off + rec_len k v < 2 ^ 63"
    and rg: "take (8 + length k + length v) (drop (unat off) (fs_data fs ino)) = rec_bytes k v"
    and fin: "final \<longleftrightarrow> unat off + rec_len k v = length (fs_data fs ino)"
    using rec by (auto simp: record_of_def rec_len_def)
  have rp: "replayable sid ino (s, fs)" using e ino seg_invD(5) [OF i] by (simp add: replayable_def)
  have "unat off < 2 ^ 63" using b by simp
  from replay_open [OF rp this] obtain fd fs1 fs2 where
    o: "OpenSegment sid True (s, fs) = (True, fd, fs1)" "sys_lseek_set fd (sint off) fs1 = (sint off, fs2)" "sint off \<noteq> - 1"
    and n: "fd_at fd fs = None" and q2: "quiet_but fd fs fs2" and f2: "fd_at fd fs2 = Some (ino, unat off)"
    and e2: "fs_faults fs2 = []" by blast
  have d2: "fs_data fs2 = fs_data fs" using q2 by (simp add: quiet_but_def)
  have b8: "take 8 (drop (unat off) (fs_data fs ino)) = word_bytes 8 (of_nat (length k + length v) :: u64)"
    using record_fields(1) [OF rg] .
  obtain fs3 where 3: "sys_read fd 8 fs2 = (Some (word_bytes 8 (of_nat (length k + length v) :: u64)), fs3)"
    and q3: "quiet fs2 fs3" and f3: "\<exists>p. fd_at fd fs3 = Some (ino, p)"
    using sys_read_ok [OF e2 f2, of 8] b8 d2 by auto
  obtain p where f3: "fd_at fd fs3 = Some (ino, p)" using f3 by blast
  have e3: "fs_faults fs3 = []" "fs_data fs3 = fs_data fs" using q3 e2 d2 by (simp_all add: quiet_def)
  obtain fs4 where 4: "sys_lseek_end fd fs3 = (int (length (fs_data fs ino)), fs4)"
    using e3 f3 by (simp add: sys_lseek_end_def)
  have q: "quiet fs (sys_close fd fs4)"
    using quiet_close [OF quiet_but_quiet [OF quiet_but_quiet [OF q2 q3] sys_lseek_end_quiet [OF 4]] n] .
  let ?w = "of_nat (length k + length v) :: u64"
  have "off + 8 + ?w = of_nat (unat off + rec_len k v)" by (simp add: rec_len_def)
  then have un: "unat (off + 8 + ?w) = unat off + rec_len k v"
    using b by (simp only:) (rule unat_of_nat_u64, simp)
  then have si: "sint (off + 8 + ?w) = int (unat off + rec_len k v)" using b by (subst sint_small) simp_all
  have "sint (off + 8 + ?w) = int (length (fs_data fs ino)) \<longleftrightarrow> final"
    unfolding si fin of_nat_eq_iff ..
  with o 3 4 q show ?thesis
    by (simp add: RemoveAsync_def idx Let_def clean_delay_def del: of_nat_add)
qed

subsection \<open>Properties\<close>

lemma bind_res_step: "f = Inr x \<Longrightarrow> g x = r \<Longrightarrow> bind_res f g = r"
  by simp

lemma record_of_quiet:
  assumes "record_of (s, fs) idx sid final" and "quiet fs fs'"
  shows "record_of (s\<lparr> sg_scheduler := sch \<rparr>, fs') idx sid final"
  using assms by (simp add: record_of_def quiet_def ToSegmentPath_def)

lemma seg_inv_scheduler [simp]: "seg_inv (s\<lparr> sg_scheduler := sch \<rparr>, fs) = seg_inv (s, fs)"
  by (simp add: seg_inv_def ToSegmentPath_def)

lemma scheduler_path [simp]: "ToSegmentPath sid (s\<lparr> sg_scheduler := sch \<rparr>) = ToSegmentPath sid s"
  by (simp add: ToSegmentPath_def)

lemma set_AddEvent:
  "sched_inv sch \<Longrightarrow> set (sch_queue (AddEvent (DeleteSegmentHandler k) t kEVENT_CLEAN_SEGMENT sch)) =
     insert (cleanup k t sch) (set (sch_queue sch))"
  by (simp add: AddEvent_def Push_def Let_def hp.set_push sched_inv_def cleanup_def)

lemma new_Scheduler_sel [simp]: "sch_queue new_Scheduler = []" "sch_eventId new_Scheduler = 0"
  by (simp_all add: new_Scheduler_def)

lemma ev_when_cleanup [simp]: "ev_when (cleanup k t sch) = t"
  by (simp add: cleanup_def)

text \<open>
  Once the last record of a segment was removed the thread deletes its file, and no other, at the
  first turn after the delay.
\<close>

abbreviation cleaning :: "SEGMENT_ID \<Rightarrow> SteadyTime \<Rightarrow> SegmentStore \<Rightarrow> SegmentStore" where
  "cleaning sid due s \<equiv>
     s\<lparr> sg_scheduler := AddEvent (DeleteSegmentHandler sid) due kEVENT_CLEAN_SEGMENT new_Scheduler \<rparr>"

lemma cleaning_turns:
  assumes e: "fs_faults fs = []" and f: "map_of (fs_files fs) (ToSegmentPath sid s) \<noteq> None"
  shows "\<exists>sch. clean_thread fin ts (cleaning sid due s, fs) =
      (if \<exists>now\<in>set ts. due \<le> now
       then Inr (fin, s\<lparr> sg_scheduler := sch \<rparr>, removed (ToSegmentPath sid s) fs)
       else Inr (False, cleaning sid due s, fs))"
proof -
  let ?q = "AddEvent (DeleteSegmentHandler sid) due kEVENT_CLEAN_SEGMENT new_Scheduler"
  have "sch_eventId new_Scheduler < - 1" by (simp add: word_less_nat_alt unsigned_minus_1_eq_mask mask_eq_exp_minus_1)
  note c = cleanups_AddEvent [OF cleanups_new this, of sid due]
  have sel: "sg_scheduler (cleaning sid due s) = ?q" "ToSegmentPath sid (cleaning sid due s) = ToSegmentPath sid s"
    "(cleaning sid due s)\<lparr> sg_scheduler := sch \<rparr> = s\<lparr> sg_scheduler := sch \<rparr>" for sch
    by simp_all
  have "live ?q (cleanup sid due new_Scheduler)" using c(2) by simp
  note clean_thread_waiting [of "cleaning sid due s" sid due new_Scheduler fs fin ts, unfolded sel, OF c(1,3) this e f]
  moreover have "(\<forall>e\<in>set (sch_queue ?q). ev_when e \<le> now) \<longleftrightarrow> due \<le> now" for now
    using sched_inv_new by (simp add: set_AddEvent)
  ultimately show ?thesis by simp
qed

lemma final_removal:
  assumes i: "seg_inv (s, fs)" and e: "fs_faults fs = []" and n: "sg_scheduler s = new_Scheduler"
    and rec: "record_of (s, fs) idx sid True"
  shows "\<exists>fs1. RemoveAsync idx t (s, fs) = Inr (True, cleaning sid (t + clean_delay) s, fs1) \<and> quiet fs fs1"
  using RemoveAsync_event [OF i e rec, of t] n by auto

text \<open>
  C39. Two segments cleaned up in a row: the last records of two segments are removed, the second
  before the first segment is due. The events have one type, so the second replaces the first:
  however long the thread turns afterwards, the file of the first segment is never deleted; that
  of the second is deleted at the first turn at which both delays are over.
\<close>

theorem later_cleanup_replaces_earlier:
  assumes "seg_inv (s, fs)" and "fs_faults fs = []" and "sg_scheduler s = new_Scheduler"
    and "record_of (s, fs) ia a True" and "record_of (s, fs) ib b True" and "a \<noteq> b"
    and "list_all (\<lambda>now. now < t + clean_delay) ts"
  shows "\<exists>r s' fs'. bind_res (RemoveAsync ia t (s, fs)) (\<lambda>(_, sf).
      bind_res (clean_thread fin ts sf) (\<lambda>(_, sf).
      bind_res (RemoveAsync ib u sf) (\<lambda>(_, sf). clean_thread fin ts' sf))) = Inr (r, s', fs') \<and>
    map_of (fs_files fs') (ToSegmentPath a s) \<noteq> None \<and>
    (map_of (fs_files fs') (ToSegmentPath b s) = None \<longleftrightarrow>
      (\<exists>now\<in>set ts'. t + clean_delay \<le> now \<and> u + clean_delay \<le> now))"
proof -
  let ?q1 = "AddEvent (DeleteSegmentHandler a) (t + clean_delay) kEVENT_CLEAN_SEGMENT new_Scheduler"
  let ?q2 = "AddEvent (DeleteSegmentHandler b) (u + clean_delay) kEVENT_CLEAN_SEGMENT ?q1"
  let ?s1 = "s\<lparr> sg_scheduler := ?q1 \<rparr>" and ?s2 = "s\<lparr> sg_scheduler := ?q2 \<rparr>"
  have early: "\<not> (\<exists>now\<in>set ts. t + clean_delay \<le> now)" using assms(7) by (auto simp: list_all_iff)
  obtain fs1 where 1: "RemoveAsync ia t (s, fs) = Inr (True, ?s1, fs1)" and q1: "quiet fs fs1"
    using final_removal [OF assms(1-4)] by blast
  have i1: "seg_inv (?s1, fs1)" using quiet_keeps [OF assms(1) q1] by (simp add: keeps_def)
  have e1: "fs_faults fs1 = []" and f1: "map_of (fs_files fs1) (ToSegmentPath a s) \<noteq> None"
    using q1 assms(2,4) by (auto simp: quiet_def record_of_def)
  have c1: "clean_thread fin ts (?s1, fs1) = Inr (False, ?s1, fs1)"
    using cleaning_turns [OF e1 f1, of fin ts "t + clean_delay"] unfolding if_not_P [OF early] by blast
  obtain fs2 where 2: "RemoveAsync ib u (?s1, fs1) = Inr (True, ?s2, fs2)" and q2: "quiet fs1 fs2"
    using RemoveAsync_event [OF i1 e1 record_of_quiet [OF assms(5) q1], of u] by auto
  have small: "sch_eventId new_Scheduler < - 1" "sch_eventId ?q1 < - 1"
    by (simp_all add: AddEvent_def Let_def word_less_nat_alt unsigned_minus_1_eq_mask mask_eq_exp_minus_1)
  note k1 = cleanups_AddEvent(1) [OF cleanups_new small(1), of a "t + clean_delay"]
  note k2 = cleanups_AddEvent [OF k1 small(2), of b "u + clean_delay"]
  have files: "fs_files fs2 = fs_files fs" and e2: "fs_faults fs2 = []" using q1 q2 e1 by (simp_all add: quiet_def)
  have b: "map_of (fs_files fs2) (ToSegmentPath b ?s2) \<noteq> None" and a: "map_of (fs_files fs) (ToSegmentPath a s) \<noteq> None"
    using assms(4,5) files by (auto simp: record_of_def)
  have due: "(\<forall>e\<in>set (sch_queue ?q2). ev_when e \<le> now) \<longleftrightarrow> t + clean_delay \<le> now \<and> u + clean_delay \<le> now" for now
    using sched_inv_new k1 by (auto simp: set_AddEvent cleanups_def)
  have path: "ToSegmentPath b ?s2 = ToSegmentPath b s" and sel: "sg_scheduler ?s2 = ?q2" by simp_all
  have l2: "live ?q2 (cleanup b (u + clean_delay) ?q1)" using k2(2) by simp
  obtain sch where c2: "clean_thread fin ts' (?s2, fs2) =
      (if \<exists>now\<in>set ts'. t + clean_delay \<le> now \<and> u + clean_delay \<le> now
       then Inr (fin, ?s2\<lparr> sg_scheduler := sch \<rparr>, removed (ToSegmentPath b s) fs2)
       else Inr (False, ?s2, fs2))"
    using clean_thread_waiting [of ?s2 b "u + clean_delay" ?q1 fs2 fin ts', unfolded sel path due,
        OF k2(1) k2(3) l2 e2] b by (auto simp only: path)
  have ne: "ToSegmentPath a s \<noteq> ToSegmentPath b s" using assms(6) ToSegmentPath_inject by blast
  show ?thesis
  proof (cases "\<exists>now\<in>set ts'. t + clean_delay \<le> now \<and> u + clean_delay \<le> now")
    case True
    with 1 2 c1 c2 show ?thesis using a ne by (simp add: map_of_removed files)
  next
    case False
    with 1 2 c1 c2 show ?thesis using a b by (auto simp add: files)
  qed
qed

text \<open>The witness: two segments of one record each.\<close>

definition two_store :: SegmentStore where
  "two_store = \<lparr> sg_db_path = ''d'', sg_meta_fd = 0, sg_cur_id = 1, sg_cur_fd = - 1, sg_cur_offset = 0,
     sg_file_size = 20, sg_key_len = 1, sg_max_size = 20, sg_scheduler = new_Scheduler \<rparr>"

definition two_files :: FS where
  "two_files = \<lparr> fs_files = [(''d/1'', 2), (''d/0'', 1)], fs_dirs = [], fs_data = (\<lambda>ino. if ino = 1 then rec_bytes ''a'' ''x''
     else if ino = 2 then rec_bytes ''b'' ''y'' else []), fs_next = 3, fs_fds = [Some (0, 0)], fs_faults = [] \<rparr>"

lemma two_store_path: "ToSegmentPath sid two_store = ''d/'' @ int_string (sint sid)"
  by (simp add: ToSegmentPath_def two_store_def)

lemma two_store_paths [simp]:
  "ToSegmentPath sid two_store = ''d/0'' \<longleftrightarrow> sid = 0" "ToSegmentPath sid two_store = ''d/1'' \<longleftrightarrow> sid = 1"
proof -
  have "''d/0'' = ToSegmentPath 0 two_store" "''d/1'' = ToSegmentPath 1 two_store"
    by (simp_all add: two_store_path int_string_def nat_digits.simps char_of_def bit_0)
  then show "ToSegmentPath sid two_store = ''d/0'' \<longleftrightarrow> sid = 0" "ToSegmentPath sid two_store = ''d/1'' \<longleftrightarrow> sid = 1"
    using ToSegmentPath_inject by metis+
qed

lemma two_segments_inv: "seg_inv (two_store, two_files)"
proof -
  have f: "map_of (fs_files two_files) p = (if p = ''d/1'' then Some 2 else if p = ''d/0'' then Some 1 else None)" for p
    by (simp add: two_files_def)
  have "sid \<noteq> 0 \<and> sid \<noteq> 1" if "1 < sint sid" for sid :: u32 using that by auto
  then show ?thesis
    unfolding seg_inv_def prod.case f two_store_paths
    by (auto simp: two_files_def two_store_def fd_at_def split: if_splits)
qed

lemma two_segments_records:
  "record_of (two_store, two_files) (ToSegmentIndex 0 0 c) 0 True"
  "record_of (two_store, two_files) (ToSegmentIndex 1 0 c) 1 True"
proof -
  have p: "ToSegmentPath 0 two_store = ''d/0''" "ToSegmentPath 1 two_store = ''d/1''" by simp_all
  show "record_of (two_store, two_files) (ToSegmentIndex 0 0 c) 0 True"
    unfolding record_of_def fst_conv snd_conv p
    by (rule exI [of _ 0], rule exI [of _ c], rule exI [of _ "''a''"], rule exI [of _ "''x''"], rule exI [of _ 1])
      (simp add: two_files_def rec_len_def)
  show "record_of (two_store, two_files) (ToSegmentIndex 1 0 c) 1 True"
    unfolding record_of_def fst_conv snd_conv p
    by (rule exI [of _ 0], rule exI [of _ c], rule exI [of _ "''b''"], rule exI [of _ "''y''"], rule exI [of _ 2])
      (simp add: two_files_def rec_len_def)
qed

lemma later_cleanup_replaces_earlier_witness:
  "\<exists>r s' fs'. bind_res (RemoveAsync (ToSegmentIndex 0 0 7) 0 (two_store, two_files)) (\<lambda>(_, sf).
      bind_res (clean_thread False [1] sf) (\<lambda>(_, sf).
      bind_res (RemoveAsync (ToSegmentIndex 1 0 9) 2 sf) (\<lambda>(_, sf). clean_thread False [20000000000] sf))) = Inr (r, s', fs') \<and>
    map_of (fs_files fs') ''d/0'' \<noteq> None \<and> map_of (fs_files fs') ''d/1'' = None"
proof -
  have s: "fs_faults two_files = []" "sg_scheduler two_store = new_Scheduler" "(0 :: u32) \<noteq> 1"
    by (simp_all add: two_files_def two_store_def)
  have p: "ToSegmentPath 0 two_store = ''d/0''" "ToSegmentPath 1 two_store = ''d/1''" by simp_all
  have d: "list_all (\<lambda>now. now < 0 + clean_delay) [1]" "0 + clean_delay \<le> 20000000000" "2 + clean_delay \<le> 20000000000"
    by (simp_all add: clean_delay_def SEGMENT_CLEAN_DELAY_IN_SECONDS_def ns_per_ms_def)
  from later_cleanup_replaces_earlier [OF two_segments_inv s(1,2) two_segments_records(1) [of 7]
      two_segments_records(2) [of 9] s(3) d(1), of False 2 "[20000000000]", unfolded p] d(2,3)
  show ?thesis by simp
qed

end
