(* ===== verification/Unit_Removal.thy ===== *)
theory Unit_Removal
  imports Unit_Replays Segment_Clean
begin

section \<open>The test of the removal (TestRemoveAsync of unittest/storage/segment_test_cases.cpp)\<close>

text \<open>
  The thread of the clean-up runs beside the test, which is compiled with \<open>FINITE_SCHEDULE_LOOP\<close>:
  the thread returns after its first handler. \<open>turns\<close> are its turns before an operation of the
  test; the parameters \<open>ta\<close> to \<open>te\<close> give their times, by phase of the test and record, and \<open>now\<close> the
  time of each removal, so every interleaving at the granularity of operations is an instance.
  The sleeps of the test are hypotheses on these times.
\<close>

definition turns :: "SteadyTime list \<Rightarrow> bool \<times> SegmentStore \<times> FS \<Rightarrow> (bool \<times> SegmentStore \<times> FS) res" where
  "turns ts st = (case st of (returned, sf) \<Rightarrow> if returned then Inr (True, sf) else clean_thread True ts sf)"

partial_function (option) append_until_full ::
  "(string \<Rightarrow> u32) \<Rightarrow> (u64 \<Rightarrow> SteadyTime list) \<Rightarrow> u64 \<Rightarrow> SegmentIndex list \<Rightarrow> u64 \<Rightarrow> bool \<times> SegmentStore \<times> FS
     \<Rightarrow> (SegmentIndex list \<Rightarrow> bool \<times> SegmentStore \<times> FS \<Rightarrow> verdict) \<Rightarrow> verdict" where
  "append_until_full crc ta i segmentIndexs segment_bytes st rest =
     (if segment_bytes < 1024
      then (let value = a_value i; key = ToHexString i in
        call (turns (ta i) st) (\<lambda>(returned, sf).
        call (Append crc key value sf) (\<lambda>(appended, sf).
        (let segmentIndex = (case appended of None \<Rightarrow> [] | Some index \<Rightarrow> index);
             segment_bytes = segment_bytes + (8 + of_nat (HexStringSize 8) + of_nat (length value)) in
        ASSERT (appended \<noteq> None) (ASSERT (segmentIndex \<noteq> [])
        (append_until_full crc ta (i + 1)
           (if segment_bytes \<le> 1024 then segmentIndexs @ [segmentIndex] else segmentIndexs)
           segment_bytes (returned, sf) rest))))))
      else rest segmentIndexs st)"

fun remove_all :: "(u64 \<Rightarrow> SteadyTime list) \<Rightarrow> (u64 \<Rightarrow> SteadyTime) \<Rightarrow> u64 \<Rightarrow> SegmentIndex list
    \<Rightarrow> bool \<times> SegmentStore \<times> FS \<Rightarrow> (bool \<times> SegmentStore \<times> FS \<Rightarrow> verdict) \<Rightarrow> verdict" where
  "remove_all tb now i [] st rest = rest st"
| "remove_all tb now i (segmentIndex # is) st rest =
     call (turns (tb i) st) (\<lambda>(returned, sf).
     call (RemoveAsync segmentIndex (now i) sf) (\<lambda>(removeRes, sf).
     ASSERT removeRes (remove_all tb now (i + 1) is (returned, sf) rest)))"

fun read_all :: "(string \<Rightarrow> u32) \<Rightarrow> (u64 \<Rightarrow> SteadyTime list) \<Rightarrow> u64 \<Rightarrow> SegmentIndex list
    \<Rightarrow> bool \<times> SegmentStore \<times> FS \<Rightarrow> (bool \<times> SegmentStore \<times> FS \<Rightarrow> verdict) \<Rightarrow> verdict" where
  "read_all crc tc i [] st rest = rest st"
| "read_all crc tc i (segmentIndex # is) st rest =
     call (turns (tc i) st) (\<lambda>(returned, sf).
     (let key = ToHexString i in
     call (Segment_Read crc segmentIndex sf) (\<lambda>(kv, fs).
     (let (readKey, readValue) = read_strings kv in
     ASSERT (kv \<noteq> None) (ASSERT (key = readKey)
     (read_all crc tc (i + 1) is (returned, fst sf, fs) rest))))))"

fun read_none :: "(string \<Rightarrow> u32) \<Rightarrow> (u64 \<Rightarrow> SteadyTime list) \<Rightarrow> u64 \<Rightarrow> SegmentIndex list
    \<Rightarrow> bool \<times> SegmentStore \<times> FS \<Rightarrow> verdict" where
  "read_none crc te i [] st = passed"
| "read_none crc te i (segmentIndex # is) st =
     call (turns (te i) st) (\<lambda>(returned, sf).
     call (Segment_Read crc segmentIndex sf) (\<lambda>(kv, fs).
     ASSERT (kv = None) (read_none crc te (i + 1) is (returned, fst sf, fs))))"

definition TestRemoveAsync ::
  "(string \<Rightarrow> u32) \<Rightarrow> (u64 \<Rightarrow> SteadyTime list) \<Rightarrow> (u64 \<Rightarrow> SteadyTime list) \<Rightarrow> (u64 \<Rightarrow> SteadyTime)
     \<Rightarrow> (u64 \<Rightarrow> SteadyTime list) \<Rightarrow> (u64 \<Rightarrow> SteadyTime list) \<Rightarrow> (u64 \<Rightarrow> SteadyTime list)
     \<Rightarrow> SegmentStore \<Rightarrow> FS \<Rightarrow> verdict" where
  "TestRemoveAsync crc ta tb now tc td te s0 fs =
     run (Segment_Init crc (segment_options SegmentPath True) (s0, SetUp fs)) (\<lambda>(initResult, _, sf).
     ASSERT initResult
     (append_until_full crc ta 1 [] 0 (False, sf) (\<lambda>segmentIndexs st.
      remove_all tb now 1 segmentIndexs st (\<lambda>st.
      read_all crc tc 1 segmentIndexs st (\<lambda>st.
      read_all crc td 1 segmentIndexs st (\<lambda>st.
      read_none crc te 1 segmentIndexs st))))))"

subsection \<open>Appending\<close>

lemma turns_idle:
  assumes "sg_scheduler s = new_Scheduler"
  shows "turns ts (False, s, fs) = Inr (False, s, fs)"
proof -
  have d: "Dispatch now new_Scheduler = (None, new_Scheduler)" for now
    using HasTimeout_all_due [OF sched_inv_heap [OF sched_inv_new], of now]
    by (simp add: Dispatch_def HasTimeout_def)
  have s: "s\<lparr> sg_scheduler := new_Scheduler \<rparr> = s" using assms by simp
  have "clean_thread True ts (s, fs) = Inr (False, s, fs)"
    by (induction ts) (simp_all add: clean_round_def AutoDispatch_round_def assms d s)
  then show ?thesis by (simp add: turns_def)
qed

text \<open>The length of the first \<open>n\<close> records: the 26th is the last one in the first segment.\<close>

fun first_bytes :: "nat \<Rightarrow> nat" where
  "first_bytes 0 = 0"
| "first_bytes (Suc n) = first_bytes n + 25 + n"

lemma first_bytes_mono: "n \<le> m \<Longrightarrow> first_bytes n \<le> first_bytes m"
  by (induction m) (auto simp: le_Suc_eq)

lemma first_bytes_less: "n < m \<Longrightarrow> first_bytes n < first_bytes m"
  using first_bytes_mono [of "Suc n" m] by simp

lemma first_bytes_26: "first_bytes 26 = 975"
  by code_simp

lemma first_bytes_27: "n = 26 \<Longrightarrow> first_bytes (Suc n) = 1026"
  by (simp only: first_bytes.simps) (simp add: first_bytes_26)

definition appended_state :: "(string \<Rightarrow> u32) \<Rightarrow> SegmentIndex list \<Rightarrow> SegmentStore \<times> FS \<Rightarrow> bool" where
  "appended_state crc is sf \<longleftrightarrow> (case sf of (s, fs) \<Rightarrow>
     all_stored crc a_value is (s, fs) \<and> sg_scheduler s = new_Scheduler \<and>
     (\<forall>j < length is. \<exists>c. is ! j = ToSegmentIndex 0 (of_nat (first_bytes j)) c))"

lemma append_until_full_ends:
  assumes "running options False (s, fs)" and "sg_cur_id s = 0" and "sg_file_size s = 1024" and "sg_max_size s = 1024"
    and "sg_key_len s = 16" and "unat (sg_cur_offset s) = first_bytes (length is)" and "length is \<le> 26"
    and "appended_state crc is (s, fs)"
  shows "\<exists>is' s' fs'. append_until_full crc ta (of_nat (Suc (length is))) is (of_nat (first_bytes (length is))) (False, s, fs) rest =
      rest is' (False, s', fs') \<and> appended_state crc is' (s', fs') \<and> length is' = 26 \<and> running options True (s', fs') \<and>
      (\<exists>ino. map_of (fs_files fs') (ToSegmentPath 0 s') = Some ino \<and> length (fs_data fs' ino) = 975)"
  using assms
proof (induction "26 - length is" arbitrary: "is" s fs rule: less_induct)
  case less
  let ?n = "length is"
  let ?i = "of_nat (Suc ?n) :: u64"
  let ?k = "ToHexString ?i" and ?v = "a_value ?i"
  have n: "?n \<le> 26" by (rule less.prems(7))
  have u: "unat ?i = Suc ?n" using n by (intro unat_of_nat_u64) simp
  have len: "rec_len ?k ?v = 25 + ?n" using u by (simp add: rec_len_def del: of_nat_Suc)
  have t: "first_bytes ?n \<le> 975" using first_bytes_mono [OF n] first_bytes_26 by simp
  have o: "sint (sg_cur_id s) \<noteq> 2 ^ 31 - 1" and k: "length ?k = unat (sg_key_len s)"
    and v: "rec_len ?k ?v \<le> unat (sg_max_size s)"
    using less.prems(2,4,5) len n by (simp_all del: of_nat_Suc)
  have go: "goes_on s ?k ?v \<longleftrightarrow> ?n < 26"
  proof (cases "?n < 26")
    case True
    then have "first_bytes ?n + rec_len ?k ?v \<le> 1024"
      using first_bytes_mono [of "Suc ?n" 26] first_bytes_26 len by simp
    with True less.prems(3,6) show ?thesis by (simp add: goes_on_def del: of_nat_Suc)
  next
    case False
    then have "?n = 26" using n by simp
    then have "first_bytes ?n + rec_len ?k ?v = 1026" using first_bytes_26 len by simp
    with False less.prems(3,6) show ?thesis by (simp add: goes_on_def del: of_nat_Suc)
  qed
  obtain idx s1 fs1 where a: "Append crc ?k ?v (s, fs) = Inr (Some idx, s1, fs1)"
    and r1: "running options (False \<or> \<not> goes_on s ?k ?v) (s1, fs1)" and k1: "keeps crc (s, fs) (s1, fs1)"
    and st: "stored crc (s1, fs1) idx ?k ?v"
    and idx: "idx = (if goes_on s ?k ?v then ToSegmentIndex (sg_cur_id s) (sg_cur_offset s) (ucast (crc (?k @ ?v)))
           else ToSegmentIndex (sg_cur_id s + 1) 0 (ucast (crc (?k @ ?v))))"
    and id1: "sg_cur_id s1 = (if goes_on s ?k ?v then sg_cur_id s else sg_cur_id s + 1)"
    and o1: "unat (sg_cur_offset s1) = (if goes_on s ?k ?v then unat (sg_cur_offset s) else 0) + rec_len ?k ?v"
    and z1: "sg_file_size s1 = (if goes_on s ?k ?v then sg_file_size s else sg_max_size s)"
    and sc: "sg_scheduler s1 = sg_scheduler s"
    using running_Append [OF less.prems(1) o k v, of crc] by blast
  have c1: "sg_max_size s1 = 1024" "sg_key_len s1 = 16" "sg_file_size s1 = 1024"
    using k1 less.prems z1 by (simp_all add: keeps_def)
  have ne: "idx \<noteq> []" using idx by simp
  have as: "all_stored crc a_value is (s, fs)" and s0: "sg_scheduler s = new_Scheduler"
    and pos: "\<forall>j < ?n. \<exists>c. is ! j = ToSegmentIndex 0 (of_nat (first_bytes j)) c"
    using less.prems(8) by (simp_all add: appended_state_def)
  have tn: "of_nat (first_bytes ?n) + (8 + of_nat (HexStringSize 8) + of_nat (length ?v)) = (of_nat (first_bytes (Suc ?n)) :: u64)"
    using u by (simp add: HexStringSize_def ac_simps del: of_nat_Suc) (simp add: ac_simps)
  have ut: "unat (of_nat (first_bytes ?n) :: u64) = first_bytes ?n" "unat (of_nat (first_bytes (Suc ?n)) :: u64) = first_bytes (Suc ?n)"
    by (rule unat_of_nat_u64, use t n in simp)+
  have step: "append_until_full crc ta ?i is (of_nat (first_bytes ?n)) (False, s, fs) rest =
      append_until_full crc ta (?i + 1) (if first_bytes (Suc ?n) \<le> 1024 then is @ [idx] else is)
        (of_nat (first_bytes (Suc ?n))) (False, s1, fs1) rest"
    using a ne t ut tn turns_idle [OF s0, of "ta ?i" fs]
    by (subst append_until_full.simps)
      (simp add: Let_def test_simps word_less_nat_alt word_le_nat_alt del: of_nat_Suc first_bytes.simps)
  show ?case
  proof (cases "?n < 26")
    case True
    have "first_bytes (Suc ?n) \<le> 1024" using first_bytes_mono [of "Suc ?n" 26] True first_bytes_26 by simp
    then have eq: "append_until_full crc ta ?i is (of_nat (first_bytes ?n)) (False, s, fs) rest =
        append_until_full crc ta (of_nat (Suc (length (is @ [idx])))) (is @ [idx])
          (of_nat (first_bytes (length (is @ [idx])))) (False, s1, fs1) rest"
      unfolding step by (simp add: ac_simps)
    have w: "sg_cur_offset s = of_nat (first_bytes ?n)" using less.prems(6) by (metis word_of_nat_unat)
    have p1: "\<exists>c. idx = ToSegmentIndex 0 (of_nat (first_bytes ?n)) c" using idx go True less.prems(2) w by auto
    have "appended_state crc (is @ [idx]) (s1, fs1)"
      unfolding appended_state_def prod.case
      using all_stored_snoc [OF as k1 st] sc s0 pos p1 by (auto simp: nth_append less_Suc_eq)
    then show ?thesis unfolding eq
      using True go r1 id1 o1 c1 less.prems(2,6) len
      by (intro less.hyps) (simp_all del: of_nat_Suc)
  next
    case False
    then have n26: "?n = 26" using n by simp
    then have big: "first_bytes (Suc ?n) = 1026" by (rule first_bytes_27)
    have stop: "append_until_full crc ta ?i is (of_nat (first_bytes ?n)) (False, s, fs) rest = rest is (False, s1, fs1)"
      unfolding step big by (subst append_until_full.simps) simp
    have ng: "\<not> goes_on s ?k ?v" using go False by simp
    obtain ino where "map_of (fs_files fs1) (ToSegmentPath 0 s) = Some ino" "length (fs_data fs1 ino) = 975"
      using left_segment_is_cut [OF less.prems(1) a v k ng] less.prems(2,6) n26 first_bytes_26 by auto
    moreover have "ToSegmentPath 0 s1 = ToSegmentPath 0 s" using k1 by (simp add: keeps_def ToSegmentPath_def)
    moreover have "appended_state crc is (s1, fs1)"
      using all_stored_keeps [OF as k1] sc s0 pos by (simp add: appended_state_def)
    ultimately show ?thesis using stop r1 ng n26
      by (intro exI [of _ "is"] exI [of _ s1] exI [of _ fs1]) simp
  qed
qed

subsection \<open>Removing and reading\<close>

text \<open>What the loops need of the store: the records, readable and removable.\<close>

definition readable :: "(string \<Rightarrow> u32) \<Rightarrow> SegmentIndex list \<Rightarrow> SegmentStore \<times> FS \<Rightarrow> bool" where
  "readable crc is sf \<longleftrightarrow> seg_inv sf \<and> fs_faults (snd sf) = [] \<and> all_stored crc a_value is sf \<and>
     map_of (fs_files (snd sf)) (ToSegmentPath 0 (fst sf)) \<noteq> None \<and> length is = 26 \<and>
     (\<forall>j < 26. record_of sf (is ! j) 0 (j = 25))"

lemma readable_quiet: "readable crc is (s, fs) \<Longrightarrow> quiet fs fs' \<Longrightarrow> readable crc is (s, fs')"
  using record_of_quiet [of s fs _ _ _ fs' "sg_scheduler s"] quiet_keeps [of s fs fs' crc]
  by (auto simp: readable_def keeps_def quiet_def intro: all_stored_keeps)

lemma readable_scheduler:
  "readable crc is (s, fs) \<Longrightarrow> readable crc is (s\<lparr> sg_scheduler := sch \<rparr>, fs)"
  using record_of_quiet [OF _ quiet_refl, of s fs _ _ _ sch]
  by (auto simp: readable_def all_stored_def scheduler_same)

lemma readable_appended:
  assumes a: "appended_state crc is (s, fs)" and n: "length is = 26" and r: "running options True (s, fs)"
    and ino: "map_of (fs_files fs) (ToSegmentPath 0 s) = Some ino" and l: "length (fs_data fs ino) = 975"
  shows "readable crc is (s, fs)"
proof -
  have "record_of (s, fs) (is ! j) 0 (j = 25)" if j: "j < 26" for j
  proof -
    let ?i = "of_nat (Suc j) :: u64"
    obtain c where c: "is ! j = ToSegmentIndex 0 (of_nat (first_bytes j)) c" using a n j by (auto simp: appended_state_def)
    have "stored crc (s, fs) (is ! j) (ToHexString ?i) (a_value ?i)"
      using a n j unfolding appended_state_def all_stored_def prod.case by (simp del: of_nat_Suc)
    then obtain sid off ino' where st: "is ! j = ToSegmentIndex sid off (ucast (crc (ToHexString ?i @ a_value ?i)))"
      "map_of (fs_files fs) (ToSegmentPath sid s) = Some ino'"
      "take (rec_len (ToHexString ?i) (a_value ?i)) (drop (unat off) (fs_data fs ino')) = rec_bytes (ToHexString ?i) (a_value ?i)"
      by (auto simp: stored_def rec_len_def simp del: of_nat_Suc)
    have p: "ParseSegmentIndex (is ! j) = Inr (sid, off, ucast (crc (ToHexString ?i @ a_value ?i)))"
      unfolding st(1) by (rule ParseSegmentIndex_ToSegmentIndex)
    have "ParseSegmentIndex (is ! j) = Inr (0, of_nat (first_bytes j), c)"
      unfolding c by (rule ParseSegmentIndex_ToSegmentIndex)
    with p have eq: "sid = 0" "off = of_nat (first_bytes j)" by simp_all
    have ino': "ino' = ino" using st(2) ino eq(1) by simp
    have le: "first_bytes j \<le> 975" using first_bytes_mono [of j 26] j first_bytes_26 by simp
    then have uo: "unat off = first_bytes j" unfolding eq(2) by (intro unat_of_nat_u64) simp
    have "unat ?i = Suc j" using j by (intro unat_of_nat_u64) simp
    then have len: "rec_len (ToHexString ?i) (a_value ?i) = 25 + j" by (simp add: rec_len_def del: of_nat_Suc)
    have "first_bytes j + (25 + j) = 975 \<longleftrightarrow> j = 25"
    proof -
      have "first_bytes j + (25 + j) < 975" if "j < 25"
        using first_bytes_less [of "Suc j" 26] first_bytes_26 that by simp
      moreover have "first_bytes 25 + (25 + 25) = 975"
        using first_bytes_26 first_bytes.simps(2) [of 25] by simp
      ultimately show ?thesis using j by (cases "j = 25") auto
    qed
    then have fin: "unat off + rec_len (ToHexString ?i) (a_value ?i) = length (fs_data fs ino) \<longleftrightarrow> j = 25"
      using uo len l by (simp del: of_nat_Suc)
    have "unat off + rec_len (ToHexString ?i) (a_value ?i) < 2 ^ 63" using uo le len j by (simp del: of_nat_Suc)
    then show ?thesis
      using st ino fin eq(1) ino' unfolding record_of_def fst_conv snd_conv by blast
  qed
  with a n r ino show ?thesis
    by (simp add: readable_def appended_state_def running_def seg_ready_def)
qed

lemma drop_Cons: "n < length xs \<Longrightarrow> drop n xs = xs ! n # drop (Suc n) xs"
  by (rule Cons_nth_drop_Suc [symmetric])

lemma remove_all_cleans:
  assumes "readable crc is (s, fs)" and "sg_scheduler s = new_Scheduler" and "n < 26"
  shows "\<exists>fs'. remove_all tb now (of_nat (Suc n)) (drop n is) (False, s, fs) rest =
      rest (False, cleaning 0 (now 26 + clean_delay) s, fs') \<and> readable crc is (s, fs')"
  using assms
proof (induction "26 - n" arbitrary: n fs rule: less_induct)
  case less
  have r: "length is = 26" "seg_inv (s, fs)" "fs_faults fs = []" and rec: "record_of (s, fs) (is ! n) 0 (n = 25)"
    using less.prems(1,3) by (simp_all add: readable_def)
  have d: "drop n is = is ! n # drop (Suc n) is" using drop_Cons less.prems(3) r(1) by metis
  have i1: "of_nat (Suc n) + 1 = (of_nat (Suc (Suc n)) :: u64)" by simp
  note idle = turns_idle [OF less.prems(2)]
  show ?case
  proof (cases "n = 25")
    case True
    then obtain fs1 where "RemoveAsync (is ! n) (now 26) (s, fs) = Inr (True, cleaning 0 (now 26 + clean_delay) s, fs1)"
      and q: "quiet fs fs1"
      using final_removal [OF r(2,3) less.prems(2), of "is ! n" 0 "now 26"] rec by auto
    then have "remove_all tb now (of_nat (Suc n)) (drop n is) (False, s, fs) rest =
        rest (False, cleaning 0 (now 26 + clean_delay) s, fs1)"
      unfolding d using True r(1) idle by (simp add: test_simps)
    with readable_quiet [OF less.prems(1) q] show ?thesis by blast
  next
    case False
    then obtain fs1 where 1: "RemoveAsync (is ! n) (now (of_nat (Suc n))) (s, fs) = Inr (True, s, fs1)" and q: "quiet fs fs1"
      using RemoveAsync_event [OF r(2,3), of "is ! n" 0 False "now (of_nat (Suc n))"] rec by auto
    have "remove_all tb now (of_nat (Suc n)) (drop n is) (False, s, fs) rest =
        remove_all tb now (of_nat (Suc (Suc n))) (drop (Suc n) is) (False, s, fs1) rest"
      unfolding d remove_all.simps i1 idle test_simps prod.case 1 by (simp add: test_simps)
    moreover have "\<exists>fs'. remove_all tb now (of_nat (Suc (Suc n))) (drop (Suc n) is) (False, s, fs1) rest =
        rest (False, cleaning 0 (now 26 + clean_delay) s, fs') \<and> readable crc is (s, fs')"
      by (rule less.hyps [OF _ readable_quiet [OF less.prems(1) q] less.prems(2)]) (use less.prems(3) False in auto)
    ultimately show ?thesis by simp
  qed
qed

lemma read_all_passes:
  assumes "readable crc is (s, fs)" and "\<forall>i. list_all (\<lambda>x. x < due) (tc i)" and "n \<le> 26"
  shows "\<exists>fs'. read_all crc tc (of_nat (Suc n)) (drop n is) (False, cleaning 0 due s, fs) rest =
      rest (False, cleaning 0 due s, fs') \<and> readable crc is (s, fs')"
  using assms
proof (induction "26 - n" arbitrary: n fs rule: less_induct)
  case less
  have n: "length is = 26" and e: "fs_faults fs = []" and f: "map_of (fs_files fs) (ToSegmentPath 0 s) \<noteq> None"
    using less.prems(1) by (simp_all add: readable_def)
  show ?case
  proof (cases "n < 26")
    case False
    with less.prems n show ?thesis by auto
  next
    case True
    let ?i = "of_nat (Suc n) :: u64"
    let ?s = "cleaning 0 due s"
    have d: "drop n is = is ! n # drop (Suc n) is" using drop_Cons True n by metis
    have i1: "?i + 1 = of_nat (Suc (Suc n))" by simp
    have early: "\<not> (\<exists>now\<in>set (tc ?i). due \<le> now)" using less.prems(2) by (auto simp: list_all_iff not_le)
    have t: "turns (tc ?i) (False, ?s, fs) = Inr (False, ?s, fs)"
      using cleaning_turns [OF e f, of True "tc ?i" due] unfolding if_not_P [OF early] by (auto simp: turns_def)
    have r1: "readable crc is (?s, fs)" by (rule readable_scheduler [OF less.prems(1)])
    have st: "stored crc (?s, fs) (is ! n) (ToHexString ?i) (a_value ?i)" and i: "seg_inv (?s, fs)"
      using r1 n True unfolding readable_def all_stored_def by (auto simp del: of_nat_Suc)
    obtain fs1 where rd: "Segment_Read crc (is ! n) (?s, fs) = Inr (Some (ToHexString ?i, a_value ?i), fs1)" and q: "quiet fs fs1"
      using Read_stored [OF i st] e by blast
    have "read_all crc tc ?i (drop n is) (False, ?s, fs) rest =
        read_all crc tc (of_nat (Suc (Suc n))) (drop (Suc n) is) (False, ?s, fs1) rest"
      unfolding d read_all.simps i1 t test_simps prod.case Let_def rd read_strings_def by (simp add: test_simps)
    moreover have "\<exists>fs'. read_all crc tc (of_nat (Suc (Suc n))) (drop (Suc n) is) (False, ?s, fs1) rest =
        rest (False, ?s, fs') \<and> readable crc is (s, fs')"
      by (rule less.hyps [OF _ readable_quiet [OF less.prems(1) q] less.prems(2)]) (use True in auto)
    ultimately show ?thesis by simp
  qed
qed

text \<open>Once the file is gone every read of it fails; the thread has returned.\<close>

lemma read_none_passes:
  assumes "fs_faults fs = []" and "map_of (fs_files fs) (ToSegmentPath 0 s) = None"
    and "\<forall>idx\<in>set is. \<exists>off c. idx = ToSegmentIndex 0 off c"
  shows "read_none crc te i is (True, s, fs) = passed"
  using assms(3)
proof (induction "is" arbitrary: i)
  case Nil
  show ?case by simp
next
  case (Cons idx "is")
  obtain off c where "idx = ToSegmentIndex 0 off c" using Cons.prems by auto
  then have "Segment_Read crc idx (s, fs) = Inr (None, fs)"
    using assms(1,2) by (simp add: Segment_Read_def OpenSegment_def sys_open_def outcome_def Let_def)
  with Cons show ?case by (simp add: turns_def test_simps)
qed

lemma read_none_after_turn:
  assumes r: "readable crc is (s, fs)" and t: "\<exists>x\<in>set (te 1). due \<le> x"
    and pos: "\<forall>idx\<in>set is. \<exists>off c. idx = ToSegmentIndex 0 off c"
  shows "read_none crc te 1 is (False, cleaning 0 due s, fs) = passed"
proof -
  have e: "fs_faults fs = []" and f: "map_of (fs_files fs) (ToSegmentPath 0 s) \<noteq> None" and n: "length is = 26"
    using r by (simp_all add: readable_def)
  obtain sch where t: "turns (te 1) (False, cleaning 0 due s, fs) =
      Inr (True, s\<lparr> sg_scheduler := sch \<rparr>, removed (ToSegmentPath 0 s) fs)"
    using cleaning_turns [OF e f, of True "te 1" due] unfolding if_P [OF t] by (auto simp: turns_def)
  obtain idx is' where cons: "is = idx # is'" using n by (cases "is") auto
  have "fs_faults (removed (ToSegmentPath 0 s) fs) = []" using e by (simp add: removed_def)
  then have "read_none crc te i is (True, s\<lparr> sg_scheduler := sch \<rparr>, removed (ToSegmentPath 0 s) fs) = passed" for i
    using pos by (intro read_none_passes) (simp_all add: map_of_removed)
  then have p: "read_none crc te 1 is (True, s\<lparr> sg_scheduler := sch \<rparr>, removed (ToSegmentPath 0 s) fs) = passed" .
  have "turns (te 1) (True, s\<lparr> sg_scheduler := sch \<rparr>, removed (ToSegmentPath 0 s) fs) =
      Inr (True, s\<lparr> sg_scheduler := sch \<rparr>, removed (ToSegmentPath 0 s) fs)" by (simp add: turns_def)
  then have "read_none crc te 1 is (False, cleaning 0 due s, fs) =
      read_none crc te 1 is (True, s\<lparr> sg_scheduler := sch \<rparr>, removed (ToSegmentPath 0 s) fs)"
    unfolding cons read_none.simps t by simp
  with p show ?thesis by simp
qed

subsection \<open>The test\<close>



end
