(* ===== verification/Unit_Index.thy ===== *)
theory Unit_Index
  imports Unit_Harness Db_Storage
begin

section \<open>The tests of the index database (unittest/storage/indexdb_test_cases.cpp)\<close>

text \<open>
  Each test over any LevelDB that keeps what it documents and does not fail. The options of the
  tests are uninitialised but for the path: they are a parameter. The string that \<open>GetIndex\<close>
  and \<open>GetLastIndex\<close> write is a variable of the test, which a failing call leaves as it is.
\<close>

definition leveldb_reliable :: "'db LevelDB \<Rightarrow> bool" where
  "leveldb_reliable L \<longleftrightarrow> leveldb_ok L \<and> (\<forall>k v db. fst (lvl_Put L k v db)) \<and> (\<forall>k db. fst (lvl_Delete L k db)) \<and>
     (\<forall>db k. lvl_Last L db = Some k \<longleftrightarrow>
        lvl_Get L db k \<noteq> None \<and> (\<forall>k'. lvl_Get L db k' \<noteq> None \<longrightarrow> bytes_le k' k))"

definition opens_empty :: "'db LevelDB \<Rightarrow> string \<Rightarrow> bool" where
  "opens_empty L path \<longleftrightarrow> (case lvl_Open L path of None \<Rightarrow> False | Some db \<Rightarrow> lvl_Get L db = Map.empty)"

definition DBPath :: string where "DBPath = ''/tmp/indexdb_test/''"

definition new_LogIndexDB :: "'db LogIndexDB" where
  "new_LogIndexDB = \<lparr> ix_dbpath = [], ix_leveldb = None \<rparr>"

text \<open>What a string holds after a call that writes it only on success.\<close>

definition written :: "string option \<Rightarrow> string \<Rightarrow> string" where
  "written r old = (case r of Some new \<Rightarrow> new | None \<Rightarrow> old)"

definition TestIndexDbInit :: "'db LevelDB \<Rightarrow> LogStorageOptions \<Rightarrow> verdict" where
  "TestIndexDbInit L options =
     (let (ok, log_index_db) = Index_Init L (options\<lparr> lo_dbPath := DBPath \<rparr>) new_LogIndexDB
      in ASSERT ok passed)"

definition TestPutIndex :: "'db LevelDB \<Rightarrow> LogStorageOptions \<Rightarrow> verdict" where
  "TestPutIndex L options =
     (let (_, log_index_db) = Index_Init L (options\<lparr> lo_dbPath := DBPath \<rparr>) new_LogIndexDB in
      call (PutIndex L ''key1'' ''value1'' log_index_db) (\<lambda>(putRes, log_index_db).
      ASSERT putRes passed))"

definition TestGetIndex :: "'db LevelDB \<Rightarrow> LogStorageOptions \<Rightarrow> verdict" where
  "TestGetIndex L options =
     (let (_, log_index_db) = Index_Init L (options\<lparr> lo_dbPath := DBPath \<rparr>) new_LogIndexDB; getValue = [] in
      call (GetIndex L ''key1'' log_index_db) (\<lambda>getRes.
      let getValue = written getRes getValue in
      ASSERT (getRes = None) (ASSERT (getValue = [])
      (call (PutIndex L ''key1'' ''value1'' log_index_db) (\<lambda>(putRes, log_index_db).
      ASSERT putRes
      (call (GetIndex L ''key1'' log_index_db) (\<lambda>getRes.
      let getValue = written getRes getValue in
      ASSERT (getRes \<noteq> None) (ASSERT (getValue = ''value1'') passed))))))))"

definition TestDelIndex :: "'db LevelDB \<Rightarrow> LogStorageOptions \<Rightarrow> verdict" where
  "TestDelIndex L options =
     (let (_, log_index_db) = Index_Init L (options\<lparr> lo_dbPath := DBPath \<rparr>) new_LogIndexDB; getValue = [] in
      call (DelIndex L ''key2'' log_index_db) (\<lambda>(delRes, log_index_db).
      ASSERT delRes
      (call (PutIndex L ''key2'' ''value2'' log_index_db) (\<lambda>(putRes, log_index_db).
      ASSERT putRes
      (call (GetIndex L ''key2'' log_index_db) (\<lambda>getRes.
      let getValue = written getRes getValue in
      ASSERT (getRes \<noteq> None) (ASSERT (getValue = ''value2'')
      (call (DelIndex L ''key2'' log_index_db) (\<lambda>(delRes, log_index_db).
      ASSERT delRes
      (call (GetIndex L ''key2'' log_index_db) (\<lambda>getRes.
      ASSERT (getRes = None) passed)))))))))))"

text \<open>The loop, over the values that its counter takes.\<close>

fun last_index_loop :: "'db LevelDB \<Rightarrow> u64 list \<Rightarrow> 'db LogIndexDB \<Rightarrow> verdict" where
  "last_index_loop L [] log_index_db = passed"
| "last_index_loop L (i # is) log_index_db =
     (let key = word_bytes 8 i; val = ''value'' @ to_string i in
      call (PutIndex L key val log_index_db) (\<lambda>(putRes, log_index_db).
      ASSERT putRes
      (call (GetIndex L key log_index_db) (\<lambda>getRes.
      let getValue = written getRes [] in
      ASSERT (getRes \<noteq> None) (ASSERT (val = getValue)
      (call (GetLastIndex L log_index_db) (\<lambda>getLastRes.
      let getLastKey = written (map_option fst getLastRes) [];
          getValue = written (map_option snd getLastRes) getValue in
      ASSERT (getLastRes \<noteq> None) (ASSERT (key = getLastKey) (ASSERT (val = getValue)
      (last_index_loop L is log_index_db))))))))))"

definition TestGetLastIndex :: "'db LevelDB \<Rightarrow> LogStorageOptions \<Rightarrow> verdict" where
  "TestGetLastIndex L options =
     (let (_, log_index_db) = Index_Init L (options\<lparr> lo_dbPath := DBPath \<rparr>) new_LogIndexDB in
      last_index_loop L (map of_nat [0 ..< 201]) log_index_db)"

lemmas index_test_defs = TestIndexDbInit_def TestPutIndex_def TestGetIndex_def TestDelIndex_def
  TestGetLastIndex_def Index_Init_def PutIndex_def GetIndex_def DelIndex_def written_def new_LogIndexDB_def

subsection \<open>They pass\<close>

lemma leveldb_reliableD:
  assumes "leveldb_reliable L"
  shows "leveldb_ok L"
    and "\<exists>db'. lvl_Put L k v db = (True, db') \<and> lvl_Get L db' = (lvl_Get L db)(k \<mapsto> v)"
    and "\<exists>db'. lvl_Delete L k db = (True, db') \<and> lvl_Get L db' = (lvl_Get L db)(k := None)"
    and "lvl_Get L db k \<noteq> None \<Longrightarrow> (\<And>k'. lvl_Get L db k' \<noteq> None \<Longrightarrow> bytes_le k' k) \<Longrightarrow> lvl_Last L db = Some k"
proof -
  show ok: "leveldb_ok L" using assms by (simp add: leveldb_reliable_def)
  obtain b1 d1 where p: "lvl_Put L k v db = (b1, d1)" by force
  obtain b2 d2 where q: "lvl_Delete L k db = (b2, d2)" by force
  have "fst (lvl_Put L k v db)" "fst (lvl_Delete L k db)"
    using assms unfolding leveldb_reliable_def by blast+
  with p q have b: "b1" "b2" by simp_all
  show "\<exists>db'. lvl_Put L k v db = (True, db') \<and> lvl_Get L db' = (lvl_Get L db)(k \<mapsto> v)"
    using conjunct1 [OF ok [unfolded leveldb_ok_def], rule_format, OF p] p b(1) by simp
  show "\<exists>db'. lvl_Delete L k db = (True, db') \<and> lvl_Get L db' = (lvl_Get L db)(k := None)"
    using conjunct2 [OF ok [unfolded leveldb_ok_def], rule_format, OF q] q b(2) by simp
  show "lvl_Get L db k \<noteq> None \<Longrightarrow> (\<And>k'. lvl_Get L db k' \<noteq> None \<Longrightarrow> bytes_le k' k) \<Longrightarrow> lvl_Last L db = Some k"
    using assms unfolding leveldb_reliable_def by blast
qed

lemma opens_emptyD: "opens_empty L path \<Longrightarrow> \<exists>db. lvl_Open L path = Some db \<and> lvl_Get L db = Map.empty"
  by (cases "lvl_Open L path") (simp_all add: opens_empty_def)

lemma small_key: "j < 256 \<Longrightarrow> word_bytes 8 (of_nat j :: u64) = char_of j # le_bytes 7 0"
  using le_bytes.simps(2) [of 7 j] by (simp add: word_bytes_def unat_of_nat_u64)

lemma bytes_le_refl: "bytes_le s s"
  by (induction s) simp_all

lemma small_key_le: "i \<le> j \<Longrightarrow> j < 256 \<Longrightarrow> bytes_le (word_bytes 8 (of_nat i :: u64)) (word_bytes 8 (of_nat j :: u64))"
  by (cases "i = j") (simp_all add: small_key bytes_le_refl)

text \<open>After the rounds below \<open>j\<close> the database holds exactly their keys.\<close>

lemma last_index_loop_passes:
  assumes L: "leveldb_reliable L"
  shows "j + n \<le> 256 \<Longrightarrow> ix_leveldb ix = Some db \<Longrightarrow>
    (\<And>k. lvl_Get L db k \<noteq> None \<Longrightarrow> \<exists>i<j. k = word_bytes 8 (of_nat i :: u64)) \<Longrightarrow>
    last_index_loop L (map of_nat [j ..< j + n]) ix = passed"
proof (induction n arbitrary: j ix db)
  case 0
  then show ?case by simp
next
  case (Suc n)
  let ?k = "word_bytes 8 (of_nat j :: u64)"
  let ?v = "''value'' @ to_string (of_nat j)"
  obtain db' where p: "lvl_Put L ?k ?v db = (True, db')" and g: "lvl_Get L db' = (lvl_Get L db)(?k \<mapsto> ?v)"
    using leveldb_reliableD(2) [OF L] by blast
  let ?ix = "ix\<lparr> ix_leveldb := Some db' \<rparr>"
  have held: "\<exists>i < Suc j. k = word_bytes 8 (of_nat i :: u64)" if "lvl_Get L db' k \<noteq> None" for k
  proof (cases "k = ?k")
    case True
    then show ?thesis by blast
  next
    case False
    then have "lvl_Get L db k \<noteq> None" using that g by simp
    from Suc.prems(3) [OF this] show ?thesis using less_SucI by blast
  qed
  have last: "lvl_Last L db' = Some ?k"
  proof (rule leveldb_reliableD(4) [OF L])
    show "lvl_Get L db' ?k \<noteq> None" using g by simp
    show "bytes_le k' ?k" if k': "lvl_Get L db' k' \<noteq> None" for k'
    proof -
      obtain i where "i < Suc j" "k' = word_bytes 8 (of_nat i :: u64)" using held [OF k'] by blast
      then show ?thesis using small_key_le [of i j] Suc.prems(1) by simp
    qed
  qed
  obtain rest where rest: "rest = (map of_nat [Suc j ..< Suc j + n] :: u64 list)" by simp
  have "[j ..< j + Suc n] = j # [Suc j ..< j + Suc n]" by (rule upt_conv_Cons) simp
  then have r: "map of_nat [j ..< j + Suc n] = (of_nat j :: u64) # rest"
    by (simp only: rest list.map add_Suc_right add_Suc)
  have "last_index_loop L rest ?ix = passed"
    unfolding rest by (rule Suc.IH [OF _ _ held]) (use Suc.prems(1) in simp_all)
  then show ?case
    using p g last Suc.prems(2) unfolding r
    by (simp add: Let_def PutIndex_def GetIndex_def GetLastIndex_def written_def test_simps)
qed

text \<open>Over a LevelDB that is reliable and starts empty all five tests pass.\<close>

theorem index_tests_pass:
  assumes L: "leveldb_reliable L" and o: "opens_empty L DBPath"
  shows "TestIndexDbInit L options = passed" and "TestPutIndex L options = passed"
    and "TestGetIndex L options = passed" and "TestDelIndex L options = passed"
    and "TestGetLastIndex L options = passed"
proof -
  obtain db where db: "lvl_Open L DBPath = Some db" and e: "lvl_Get L db = Map.empty"
    using opens_emptyD [OF o] by blast
  show "TestIndexDbInit L options = passed" using db by (simp add: index_test_defs test_simps)
  obtain db1 where p1: "lvl_Put L ''key1'' ''value1'' db = (True, db1)"
    and g1: "lvl_Get L db1 = Map.empty(''key1'' \<mapsto> ''value1'')"
    using leveldb_reliableD(2) [OF L, of "''key1''" "''value1''" db] e by auto
  show "TestPutIndex L options = passed" using db p1 by (simp add: index_test_defs test_simps)
  show "TestGetIndex L options = passed" using db e p1 g1 by (simp add: index_test_defs test_simps)
  obtain db2 where d2: "lvl_Delete L ''key2'' db = (True, db2)" and g2: "lvl_Get L db2 = Map.empty"
    using leveldb_reliableD(3) [OF L, of "''key2''" db] e by auto
  obtain db3 where p3: "lvl_Put L ''key2'' ''value2'' db2 = (True, db3)"
    and g3: "lvl_Get L db3 = Map.empty(''key2'' \<mapsto> ''value2'')"
    using leveldb_reliableD(2) [OF L, of "''key2''" "''value2''" db2] g2 by auto
  obtain db4 where d4: "lvl_Delete L ''key2'' db3 = (True, db4)" and g4: "lvl_Get L db4 = Map.empty"
    using leveldb_reliableD(3) [OF L, of "''key2''" db3] g3 by auto
  show "TestDelIndex L options = passed"
    using db d2 p3 g3 d4 g4 by (simp add: index_test_defs test_simps)
  let ?ix = "\<lparr> ix_dbpath = DBPath, ix_leveldb = Some db \<rparr>"
  have "last_index_loop L (map of_nat [0 ..< 0 + 201]) ?ix = passed"
    by (rule last_index_loop_passes [OF L, where db = db]) (use e in simp_all)
  then have "last_index_loop L (map of_nat [0 ..< 201]) ?ix = passed" unfolding add_0 .
  then show "TestGetLastIndex L options = passed"
    using db by (simp add: TestGetLastIndex_def Index_Init_def new_LogIndexDB_def del: upt_rec_numeral)
qed

text \<open>The lists of entries with which the storage is tried out are such a database.\<close>

lemma bytes_le_total: "bytes_le a b \<or> bytes_le b a"
  by (induction a b rule: bytes_le.induct) (auto simp: linorder_neq_iff)

lemma bytes_le_trans: "bytes_le a b \<Longrightarrow> bytes_le b c \<Longrightarrow> bytes_le a c"
proof (induction a b arbitrary: c rule: bytes_le.induct)
  case (3 x xs y ys)
  then show ?case by (cases c) auto
next
  case (1 b)
  then show ?case by simp
next
  case (2 x xs)
  then show ?case by simp
qed

lemma bytes_le_antisym: "bytes_le a b \<Longrightarrow> bytes_le b a \<Longrightarrow> a = b"
proof (induction a b rule: bytes_le.induct)
  case (1 b)
  then show ?case by (cases b) auto
qed auto

lemma greatest_fold:
  "(\<forall>e\<in>set db. bytes_le (fst e) (fold (\<lambda>(k, _) m. if bytes_le m k then k else m) db k)) \<and>
   bytes_le k (fold (\<lambda>(k, _) m. if bytes_le m k then k else m) db k) \<and>
   fold (\<lambda>(k, _) m. if bytes_le m k then k else m) db k \<in> insert k (fst ` set db)"
proof (induction db arbitrary: k)
  case Nil
  then show ?case by (simp add: bytes_le_refl)
next
  case (Cons e db)
  obtain k' v where e: "e = (k', v)" by force
  show ?case
  proof (cases "bytes_le k k'")
    case True
    with Cons [of k'] bytes_le_trans [OF True] show ?thesis by (auto simp: e)
  next
    case False
    then have "bytes_le k' k" using bytes_le_total by blast
    with False Cons [of k] bytes_le_trans [of k' k] show ?thesis by (auto simp: e)
  qed
qed

lemma list_db_reliable: "leveldb_reliable list_db" and list_db_opens: "opens_empty list_db path"
proof -
  have g: "greatest_key db = Some k \<longleftrightarrow> map_of db k \<noteq> None \<and> (\<forall>k'. map_of db k' \<noteq> None \<longrightarrow> bytes_le k' k)"
    for db :: "(string \<times> string) list" and k
  proof (cases db)
    case Nil
    then show ?thesis by (simp add: greatest_key_def)
  next
    case (Cons e es)
    obtain k0 v0 where e: "e = (k0, v0)" by force
    let ?m = "fold (\<lambda>(k, _) m. if bytes_le m k then k else m) es k0"
    have m: "greatest_key db = Some ?m" using Cons e by (simp add: greatest_key_def)
    have in_dom: "map_of db x \<noteq> None \<longleftrightarrow> x \<in> insert k0 (fst ` set es)" for x
      using Cons e by (metis domIff dom_map_of_conv_image_fst fst_conv image_insert list.simps(15))
    have all: "bytes_le x ?m" if "x \<in> insert k0 (fst ` set es)" for x
      using that greatest_fold [of es k0] by auto
    have mm: "?m \<in> insert k0 (fst ` set es)" using greatest_fold [of es k0] by blast
    have md: "map_of db ?m \<noteq> None" using mm in_dom by blast
    have "?m = k" if "map_of db k \<noteq> None" "\<forall>k'. map_of db k' \<noteq> None \<longrightarrow> bytes_le k' k"
      using that md all in_dom by (intro bytes_le_antisym) blast+
    then show ?thesis unfolding m using all md in_dom by blast
  qed
  have "fst (lvl_Delete list_db k db)" for k db by (simp add: list_db_def)
  with g list_db_ok show "leveldb_reliable list_db" by (simp add: leveldb_reliable_def)
  show "opens_empty list_db path" by (simp add: opens_empty_def)
qed

end
