(* ===== verification/Unit_Storage.thy ===== *)
theory Unit_Storage
  imports Unit_Index Unit_Segments Segment_Clean
begin

section \<open>The tests of the storage on disk (unittest/storage/log_storage_test_cases.cpp)\<close>

text \<open>
  The tests over a LevelDB that does not fail and whose database is empty, and a file system that
  does not fail where nothing lies in the directory of the test. \<open>s0\<close> and \<open>s1\<close> are the uninitialised
  members of the segment stores, \<open>now\<close> and \<open>now'\<close> the times of the removals. A LevelDB that is
  opened again has what it held when it was closed.
\<close>

definition LogStoragePath :: string where "LogStoragePath = ''/tmp/logstorage''"

definition storage_options :: LogStorageOptions where
  "storage_options = \<lparr> lo_dbPath = LogStoragePath, lo_segmentMaxSize = 1024, lo_indexKeyLength = 8,
     lo_removeAsync = False \<rparr>"

definition new_storage :: "SegmentStore \<Rightarrow> FS \<Rightarrow> 'db DiskState" where
  "new_storage segmentStore fs = (Some new_LogIndexDB, Some segmentStore, fs)"

text \<open>\<open>key.append((char *)&i, n)\<close> of an empty key: what is read has to lie in the object.\<close>

definition object_bytes :: "nat \<Rightarrow> string \<Rightarrow> string res" where
  "object_bytes n obj = (if length obj < n then Inl OutOfBounds else Inr (take n obj))"

text \<open>The destructor of the segment store; the descriptor of the metadata stays open.\<close>

definition destroy_SegmentStore :: "SegmentStore \<times> FS \<Rightarrow> FS" where
  "destroy_SegmentStore sf = (case sf of (s, fs) \<Rightarrow>
     if sg_cur_fd s \<noteq> - 1 then sys_close (sg_cur_fd s) fs else fs)"

definition reopened :: "'db LevelDB \<Rightarrow> 'db DiskState \<Rightarrow> 'db LevelDB" where
  "reopened L st = L\<lparr> lvl_Open := (\<lambda>_. Option.bind (fst st) ix_leveldb) \<rparr>"

definition TestLogStorageInit :: "'db LevelDB \<Rightarrow> (string \<Rightarrow> u32) \<Rightarrow> SegmentStore \<Rightarrow> FS \<Rightarrow> verdict" where
  "TestLogStorageInit L crc s0 fs =
     run (Db_Init L crc storage_options (new_storage s0 fs)) (\<lambda>(res, _). ASSERT res passed)"

definition TestLogStoragePut :: "'db LevelDB \<Rightarrow> (string \<Rightarrow> u32) \<Rightarrow> SegmentStore \<Rightarrow> FS \<Rightarrow> verdict" where
  "TestLogStoragePut L crc s0 fs =
     run (Db_Init L crc storage_options (new_storage s0 fs)) (\<lambda>(_, logStorage).
     let i = 1 :: u32 in
     call (object_bytes 8 (word_bytes 4 i)) (\<lambda>key.
     call (Db_Put L crc key ''value1'' logStorage) (\<lambda>(putRes, _).
     ASSERT putRes passed)))"

definition TestLogStorageGet :: "'db LevelDB \<Rightarrow> (string \<Rightarrow> u32) \<Rightarrow> SegmentStore \<Rightarrow> FS \<Rightarrow> verdict" where
  "TestLogStorageGet L crc s0 fs =
     run (Db_Init L crc storage_options (new_storage s0 fs)) (\<lambda>(_, logStorage).
     let i = 1234 :: u64; putValue = ''value1'' in
     call (object_bytes 8 (word_bytes 8 i)) (\<lambda>key.
     call (Db_Put L crc key putValue logStorage) (\<lambda>(_, logStorage).
     call (Db_Get L crc key logStorage) (\<lambda>(getRes, _).
     let getValue = written getRes [] in
     ASSERT (getRes \<noteq> None) (ASSERT (putValue = getValue) passed)))))"

definition TestLogStorageDelete ::
  "'db LevelDB \<Rightarrow> (string \<Rightarrow> u32) \<Rightarrow> SegmentStore \<Rightarrow> FS \<Rightarrow> SteadyTime \<Rightarrow> SteadyTime \<Rightarrow> verdict" where
  "TestLogStorageDelete L crc s0 fs now now' =
     run (Db_Init L crc storage_options (new_storage s0 fs)) (\<lambda>(_, logStorage).
     let i = 1234 :: u64; putValue = ''value1'' in
     call (object_bytes 8 (word_bytes 8 i)) (\<lambda>key.
     call (Db_Put L crc key putValue logStorage) (\<lambda>(_, logStorage).
     call (Db_Get L crc key logStorage) (\<lambda>(getRes, logStorage).
     let getValue = written getRes [] in
     ASSERT (getRes \<noteq> None) (ASSERT (putValue = getValue)
     (call (Db_Delete L key now logStorage) (\<lambda>(delRes, logStorage).
     ASSERT delRes
     (call (Db_Get L crc key logStorage) (\<lambda>(getRes, logStorage).
     ASSERT (getRes = None)
     (call (Db_Delete L key now' logStorage) (\<lambda>(delRes, _).
     ASSERT (\<not> delRes) passed)))))))))))"

definition InitWithExistLogs ::
  "'db LevelDB \<Rightarrow> (string \<Rightarrow> u32) \<Rightarrow> SegmentStore \<Rightarrow> SegmentStore \<Rightarrow> FS \<Rightarrow> verdict" where
  "InitWithExistLogs L crc s0 s1 fs =
     run (Db_Init L crc storage_options (new_storage s0 fs)) (\<lambda>(_, logStorage).
     let i = 1234 :: u64; putValue = ''value1'' in
     call (object_bytes 8 (word_bytes 8 i)) (\<lambda>key.
     call (Db_Put L crc key putValue logStorage) (\<lambda>(putRes, logStorage).
     ASSERT putRes
     (call (Db_Get L crc key logStorage) (\<lambda>(getRes, logStorage).
     let getValue = written getRes [] in
     ASSERT (getRes \<noteq> None) (ASSERT (''value1'' = getValue)
     (let L = reopened L logStorage;
          fs = (case logStorage of (_, Some sg, fs) \<Rightarrow> destroy_SegmentStore (sg, fs) | (_, None, fs) \<Rightarrow> fs);
          i = 1234 :: u64 in
      call (object_bytes 8 (word_bytes 8 i)) (\<lambda>key.
      run (Db_Init L crc storage_options (new_storage s1 fs)) (\<lambda>(initRes, logStorage).
      ASSERT initRes
      (call (Db_Get L crc key logStorage) (\<lambda>(getRes, _).
      let getValue = written getRes [] in
      ASSERT (getRes \<noteq> None) (ASSERT (''value1'' = getValue) passed))))))))))))"

subsection \<open>The state after the first put\<close>

abbreviation test_key :: string where "test_key \<equiv> word_bytes 8 (1234 :: u64)"

lemma storage_start:
  assumes "leveldb_reliable L" and "opens_empty L LogStoragePath" and "sg_db_path s0 = []"
    and "fs_faults fs = []" and "fresh_fs LogStoragePath fs"
  shows "\<exists>ix db sg fs'. Db_Init L crc storage_options (new_storage s0 fs) = Some (Inr (True, Some ix, Some sg, fs')) \<and>
    ix_leveldb ix = Some db \<and> lvl_Get L db = Map.empty \<and> restartable storage_options [] (sg, fs') \<and>
    sg_file_size sg = 1024 \<and> sg_key_len sg = 8 \<and> sg_max_size sg = 1024"
proof -
  have o: "lo_indexKeyLength storage_options = 8" "lo_segmentMaxSize storage_options = 1024"
    "lo_dbPath storage_options = LogStoragePath" "lo_removeAsync storage_options = False"
    by (simp_all add: storage_options_def)
  have "LogStoragePath \<noteq> []" by (simp add: LogStoragePath_def)
  then obtain sg fs' where 1: "Segment_Init crc storage_options (s0, fs) = Some (Inr (True, False, sg, fs'))"
    and r: "restartable storage_options [] (sg, fs')" and z: "sg_file_size sg = 1024"
    using Segment_Init_fresh [of s0 storage_options fs crc] assms(3-5) o by auto
  obtain db where db: "lvl_Open L LogStoragePath = Some db" "lvl_Get L db = Map.empty"
    using assms(2) by (auto simp: opens_empty_def split: option.splits)
  have "lvl_Last L db = None"
    using assms(1) db(2) unfolding leveldb_reliable_def by (metis not_Some_eq)
  then have "Db_Init L crc storage_options (new_storage s0 fs) =
      Some (Inr (True, Some \<lparr> ix_dbpath = LogStoragePath, ix_leveldb = Some db \<rparr>, Some sg, fs'))"
    using 1 db(1) by (simp add: Db_Init_def new_storage_def Index_Init_def new_LogIndexDB_def o
        AlignIndexWithSegmentStore_def GetLastIndex_def)
  moreover have "sg_key_len sg = 8 \<and> sg_max_size sg = 1024" using r o by (simp add: restartable_def)
  ultimately show ?thesis using r z db(2) by auto
qed

lemma one_put:
  assumes "leveldb_reliable L" and "opens_empty L LogStoragePath" and "sg_db_path s0 = []"
    and "fs_faults fs = []" and "fresh_fs LogStoragePath fs"
  shows "\<exists>st ix sg fs1 fs2 db idx. Db_Init L crc storage_options (new_storage s0 fs) = Some (Inr (True, st)) \<and>
    Db_Put L crc test_key ''value1'' st = Inr (True, Some ix, Some sg, fs1) \<and>
    Db_Get L crc test_key (Some ix, Some sg, fs1) = Inr (Some ''value1'', Some ix, Some sg, fs2) \<and>
    ix_leveldb ix = Some db \<and> lvl_Get L db = [test_key \<mapsto> idx] \<and>
    restartable storage_options [(test_key, ''value1'')] (sg, fs2) \<and>
    stored crc (sg, fs2) idx test_key ''value1'' \<and> idx = ToSegmentIndex 0 0 (ucast (crc (test_key @ ''value1'')))"
proof -
  let ?k = test_key and ?v = "''value1''"
  obtain ix0 db0 sg0 fs0 where 1: "Db_Init L crc storage_options (new_storage s0 fs) = Some (Inr (True, Some ix0, Some sg0, fs0))"
    and db0: "ix_leveldb ix0 = Some db0" "lvl_Get L db0 = Map.empty"
    and r0: "restartable storage_options [] (sg0, fs0)" and c: "sg_file_size sg0 = 1024" "sg_key_len sg0 = 8" "sg_max_size sg0 = 1024"
    using storage_start [OF assms, of crc] by blast
  have c0: "sg_cur_id sg0 = 0" "sg_cur_offset sg0 = 0" and i0: "seg_inv (sg0, fs0)"
    using r0 by (simp_all add: restartable_def seg_ready_def)
  obtain idx sg fs1 where a: "Append crc ?k ?v (sg0, fs0) = Inr (Some idx, sg, fs1)"
    and r1: "restartable storage_options [(?k, ?v)] (sg, fs1)"
    using append_extends [OF r0, of ?k ?v crc] c by auto
  have fit: "length ?k = unat (sg_key_len sg0)" "rec_len ?k ?v \<le> unat (sg_max_size sg0)" "goes_on sg0 ?k ?v"
    using c c0 by (simp_all add: goes_on_def rec_len_def)
  have idx: "idx = ToSegmentIndex 0 0 (ucast (crc (?k @ ?v)))"
    using Append_position(1) [OF i0 fit(1,2) a] fit(3) c0 by simp
  have st: "stored crc (sg, fs1) idx ?k ?v" using Append_keeps [OF i0 fit(1) _ a] by simp
  have i1: "seg_inv (sg, fs1)" and e1: "fs_faults fs1 = []" using r1 by (simp_all add: restartable_def seg_ready_def)
  obtain fs2 where rd: "Segment_Read crc idx (sg, fs1) = Inr (Some (?k, ?v), fs2)" and q: "quiet fs1 fs2"
    using Read_stored [OF i1 st] e1 by blast
  obtain db where p: "lvl_Put L ?k idx db0 = (True, db)" "lvl_Get L db = [?k \<mapsto> idx]"
    using leveldb_reliableD(2) [OF assms(1), of ?k idx db0] db0(2) by auto
  let ?ix = "ix0\<lparr> ix_leveldb := Some db \<rparr>"
  have "Db_Put L crc ?k ?v (Some ix0, Some sg0, fs0) = Inr (True, Some ?ix, Some sg, fs1)"
    using a p db0 by (simp add: Db_Put_def PutIndex_def ToIndexKey_def)
  moreover have "Db_Get L crc ?k (Some ?ix, Some sg, fs1) = Inr (Some ?v, Some ?ix, Some sg, fs2)"
    using rd p by (simp add: Db_Get_def GetIndex_def ToIndexKey_def)
  moreover have "stored crc (sg, fs2) idx ?k ?v" using st quiet_keeps [OF i1 q] by (simp add: keeps_def)
  ultimately show ?thesis
    using 1 p(2) restartable_quiet [OF r1 q] idx
    by (intro exI [of _ "(Some ix0, Some sg0, fs0)"] exI [of _ ?ix] exI [of _ sg] exI [of _ fs1] exI [of _ fs2]
        exI [of _ db] exI [of _ idx]) simp
qed

subsection \<open>Properties\<close>

lemma object_bytes_8 [simp]: "object_bytes 8 (word_bytes 8 (i :: u64)) = Inr (word_bytes 8 i)"
  by (simp add: object_bytes_def)

text \<open>
  \<open>TestLogStoragePut\<close> copies the eight bytes of a \<open>size_t\<close> from a variable of four.
\<close>

theorem put_test_faults:
  assumes "leveldb_reliable L" and "opens_empty L LogStoragePath" and "sg_db_path s0 = []"
    and "fs_faults fs = []" and "fresh_fs LogStoragePath fs"
  shows "TestLogStoragePut L crc s0 fs = Some (Inl OutOfBounds)"
proof -
  obtain ix sg fs' where 1: "Db_Init L crc storage_options (new_storage s0 fs) = Some (Inr (True, Some ix, Some sg, fs'))"
    using storage_start [OF assms, of crc] by blast
  have "object_bytes 8 (word_bytes 4 (1 :: u32)) = Inl OutOfBounds" by (simp add: object_bytes_def)
  with 1 show ?thesis by (simp add: TestLogStoragePut_def Let_def test_simps)
qed

lemma delete_test_passes:
  assumes "leveldb_reliable L" and "opens_empty L LogStoragePath" and "sg_db_path s0 = []"
    and "fs_faults fs = []" and "fresh_fs LogStoragePath fs"
  shows "TestLogStorageDelete L crc s0 fs now now' = passed"
proof -
  obtain st ix sg fs1 fs2 db idx where 1: "Db_Init L crc storage_options (new_storage s0 fs) = Some (Inr (True, st))"
    "Db_Put L crc test_key ''value1'' st = Inr (True, Some ix, Some sg, fs1)"
    "Db_Get L crc test_key (Some ix, Some sg, fs1) = Inr (Some ''value1'', Some ix, Some sg, fs2)"
    and db: "ix_leveldb ix = Some db" "lvl_Get L db = [test_key \<mapsto> idx]"
    and r: "restartable storage_options [(test_key, ''value1'')] (sg, fs2)"
    and s: "stored crc (sg, fs2) idx test_key ''value1''"
    using one_put [OF assms, of crc] by blast
  have i: "seg_inv (sg, fs2)" and e: "fs_faults fs2 = []" using r by (simp_all add: restartable_def seg_ready_def)
  obtain sg' fs3 where rm: "RemoveAsync idx now (sg, fs2) = Inr (True, sg', fs3)"
    using stored_record [OF s] RemoveAsync_event [OF i e] by blast
  obtain db' where d: "lvl_Delete L test_key db = (True, db')" "lvl_Get L db' = (lvl_Get L db)(test_key := None)"
    using leveldb_reliableD(3) [OF assms(1), of test_key db] by auto
  let ?st = "(Some (ix\<lparr> ix_leveldb := Some db' \<rparr>), Some sg', fs3)"
  have "Db_Delete L test_key now (Some ix, Some sg, fs2) = Inr (True, ?st)"
    using db rm d by (simp add: Db_Delete_def GetIndex_def DelIndex_def ToIndexKey_def)
  moreover have "Db_Get L crc test_key ?st = Inr (None, ?st)" "Db_Delete L test_key now' ?st = Inr (False, ?st)"
    using d by (simp_all add: Db_Get_def Db_Delete_def GetIndex_def ToIndexKey_def)
  ultimately show ?thesis
    using 1 by (simp add: TestLogStorageDelete_def Let_def test_simps written_def)
qed

lemma reopened_ops [simp]:
  "lvl_Get (reopened L st) = lvl_Get L" "lvl_Put (reopened L st) = lvl_Put L"
  "lvl_Delete (reopened L st) = lvl_Delete L" "lvl_Last (reopened L st) = lvl_Last L"
  "lvl_Open (reopened L (Some ix, sgp, fs)) p = ix_leveldb ix"
  by (simp_all add: reopened_def)

lemma exist_logs_test_passes:
  assumes "leveldb_reliable L" and "opens_empty L LogStoragePath" and "sg_db_path s0 = []"
    and "fs_faults fs = []" and "fresh_fs LogStoragePath fs" and "sg_db_path s1 = []"
  shows "InitWithExistLogs L crc s0 s1 fs = passed"
proof -
  let ?k = test_key and ?v = "''value1''"
  obtain st ix sg fs1 fs2 db idx where 1: "Db_Init L crc storage_options (new_storage s0 fs) = Some (Inr (True, st))"
    "Db_Put L crc ?k ?v st = Inr (True, Some ix, Some sg, fs1)"
    "Db_Get L crc ?k (Some ix, Some sg, fs1) = Inr (Some ?v, Some ix, Some sg, fs2)"
    and db: "ix_leveldb ix = Some db" "lvl_Get L db = [?k \<mapsto> idx]"
    and r: "restartable storage_options [(?k, ?v)] (sg, fs2)"
    and s: "stored crc (sg, fs2) idx ?k ?v" and idx: "idx = ToSegmentIndex 0 0 (ucast (crc (?k @ ?v)))"
    using one_put [OF assms(1-5), of crc] by blast
  let ?L = "reopened L (Some ix, Some sg, fs2)" and ?fs = "destroy_SegmentStore (sg, fs2)"
  have o: "lo_dbPath storage_options = LogStoragePath" "lo_removeAsync storage_options = False"
    by (simp_all add: storage_options_def)
  have sd: "same_disk fs2 ?fs" by (simp add: destroy_SegmentStore_def)
  obtain s2 fs4 where 2: "Segment_Init crc storage_options (s1, ?fs) = Some (Inr (True, False, s2, fs4))"
    and r2: "restartable storage_options [(?k, ?v)] (s2, fs4)" and st2: "stored crc (s2, fs4) idx ?k ?v"
    using restart_disk_keeps [OF r assms(6) sd, of crc] s o(2) by auto
  have i2: "seg_inv (s2, fs4)" and e2: "fs_faults fs4 = []" and id2: "sg_cur_id s2 = 0"
    and kl: "unat (sg_key_len s2) = 8"
    using r2 by (simp_all add: restartable_def seg_ready_def storage_options_def)
  obtain ino m where ino: "map_of (fs_files fs4) (ToSegmentPath 0 s2) = Some ino"
    and d: "fs_data fs4 ino = seg_bytes [(?k, ?v)] @ replicate m NUL"
    using r2 unfolding restartable_def seg_holds_def by auto
  have rp: "replayable 0 ino (s2, fs4)" using e2 ino seg_invD(5) [OF i2] by (simp add: replayable_def)
  have ok: "leveldb_ok ?L" "leveldb_puts ?L"
    using assms(1) by (simp_all add: leveldb_reliable_def leveldb_ok_def leveldb_puts_def)
  have last: "lvl_Last L db = Some ?k"
    using assms(1) db(2) bytes_le_refl unfolding leveldb_reliable_def by (metis fun_upd_other fun_upd_same option.distinct(1))
  let ?ix = "\<lparr> ix_dbpath = LogStoragePath, ix_leveldb = Some db \<rparr>"
  have nxt: "map_of (fs_files fs4) (ToSegmentPath (0 + 1) s2) = None" "ToSegmentPath (0 + 1) s2 \<notin> set (fs_dirs fs4)"
    using seg_invD(4,5) [OF i2] id2 by simp_all
  have "\<exists>ix' db' fs5. align_loop ?L crc 0 (of_nat (length (seg_bytes []))) s2 ?ix fs4 = Some (Inr (ix', fs5)) \<and>
    ix_leveldb ix' = Some db' \<and> quiet fs4 fs5 \<and>
    lvl_Get ?L db' = lvl_Get ?L db ++ map_of (rev (rec_indices crc 0 (length (seg_bytes [])) [(?k, ?v)]))"
    by (rule align_loop_log [OF rp _ _ nxt _ _ _ ok, where m = m]) (use d kl in \<open>simp_all\<close>)
  then obtain ix' db' fs5 where al: "align_loop ?L crc 0 0 s2 ?ix fs4 = Some (Inr (ix', fs5))"
    and db': "ix_leveldb ix' = Some db'" "lvl_Get L db' = [?k \<mapsto> idx]" and q: "quiet fs4 fs5"
    using db(2) idx by auto
  have init: "Db_Init ?L crc storage_options (new_storage s1 ?fs) = Some (Inr (True, Some ix', Some s2, fs5))"
    using 2 al db last idx id2
    by (simp add: Db_Init_def new_storage_def Index_Init_def new_LogIndexDB_def o
        AlignIndexWithSegmentStore_def GetLastIndex_def GetIndex_def GetLastSegmentId_def)
  have k5: "keeps crc (s2, fs4) (s2, fs5)" by (rule quiet_keeps [OF i2 q])
  have st5: "stored crc (s2, fs5) idx ?k ?v" and i5: "seg_inv (s2, fs5)" and e5: "fs_faults fs5 = []"
    using k5 st2 e2 by (simp_all add: keeps_def)
  obtain fs6 where "Segment_Read crc idx (s2, fs5) = Inr (Some (?k, ?v), fs6)"
    using Read_stored [OF i5 st5] e5 by blast
  then have "Db_Get ?L crc ?k (Some ix', Some s2, fs5) = Inr (Some ?v, Some ix', Some s2, fs6)"
    using db' by (simp add: Db_Get_def GetIndex_def ToIndexKey_def)
  with 1 init show ?thesis
    by (simp add: InitWithExistLogs_def Let_def test_simps written_def)
qed



end
