(* ===== verification/Util_Lock.thy ===== *)
theory Util_Lock
  imports Pax_ProposalProv Pax_Learner
begin

section \<open>The lock with its condition variable (util/lock.cpp, util/include/lock.hpp)\<close>

text \<open>
  \<open>MyLock\<close> is a mutex and a condition variable. The other components take a critical section as
  one step; here the calls of the lock are the steps, and threads run into each other in any
  order. The state \<open>lk_shared\<close> is what the lock guards. A thread in a wait is in \<open>cond_var_\<close> and
  does not hold the mutex; once it is notified, wakes up by itself or its time is over, it is
  \<open>lk_woken\<close> and takes the mutex when that is free, looks at its predicate and returns or waits
  again, as the loops of the standard library do. \<open>None\<close> is a call that blocks or is not allowed.
\<close>

type_synonym thread = nat

datatype 'st sleep =
    InWait "'st \<Rightarrow> bool"
  | InWaitFor SteadyTime
  | InWaitUntil SteadyTime "'st \<Rightarrow> bool"

text \<open>The flag of a woken thread says that its time was over. The results are those of the waits.\<close>

record 'st MyLock =
  lk_mtx :: "thread option"
  lk_cond_var :: "(thread \<times> 'st sleep) list"
  lk_woken :: "(thread \<times> 'st sleep \<times> bool) list"
  lk_now :: SteadyTime
  lk_results :: "(thread \<times> bool) list"
  lk_shared :: 'st

definition Lock :: "thread \<Rightarrow> 'st MyLock \<Rightarrow> 'st MyLock option" where
  "Lock t l = (if lk_mtx l = None then Some (l\<lparr> lk_mtx := Some t \<rparr>) else None)"

definition UnLock :: "thread \<Rightarrow> 'st MyLock \<Rightarrow> 'st MyLock option" where
  "UnLock t l = (if lk_mtx l = Some t then Some (l\<lparr> lk_mtx := None \<rparr>) else None)"

text \<open>The condition variable wakes up its \<open>n\<close>-th thread.\<close>

definition wake_up :: "nat \<Rightarrow> bool \<Rightarrow> 'st MyLock \<Rightarrow> 'st MyLock" where
  "wake_up n timed_out l =
     (if n < length (lk_cond_var l)
      then (let (t, w) = lk_cond_var l ! n in
        l\<lparr> lk_cond_var := take n (lk_cond_var l) @ drop (Suc n) (lk_cond_var l),
           lk_woken := lk_woken l @ [(t, w, timed_out)] \<rparr>)
      else l)"

text \<open>Which thread is notified is up to the system, hence the argument.\<close>

definition NotifyOne :: "nat \<Rightarrow> 'st MyLock \<Rightarrow> 'st MyLock" where
  "NotifyOne n l = wake_up (if lk_cond_var l = [] then 0 else n mod length (lk_cond_var l)) False l"

definition NotifyAll :: "'st MyLock \<Rightarrow> 'st MyLock" where
  "NotifyAll l = l"

definition go_to_sleep :: "thread \<Rightarrow> 'st sleep \<Rightarrow> 'st MyLock \<Rightarrow> 'st MyLock" where
  "go_to_sleep t w l = l\<lparr> lk_mtx := None, lk_cond_var := lk_cond_var l @ [(t, w)] \<rparr>"

definition return_wait :: "thread \<Rightarrow> bool \<Rightarrow> 'st MyLock \<Rightarrow> 'st MyLock" where
  "return_wait t r l = l\<lparr> lk_results := lk_results l @ [(t, r)] \<rparr>"

definition Wait :: "thread \<Rightarrow> ('st \<Rightarrow> bool) \<Rightarrow> 'st MyLock \<Rightarrow> 'st MyLock option" where
  "Wait t pred l =
     (if lk_mtx l \<noteq> Some t then None
      else Some (if pred (lk_shared l) then return_wait t True l else go_to_sleep t (InWait pred) l))"

definition WaitFor :: "thread \<Rightarrow> int \<Rightarrow> 'st MyLock \<Rightarrow> 'st MyLock option" where
  "WaitFor t duration l =
     (if lk_mtx l \<noteq> Some t then None else Some (go_to_sleep t (InWaitFor (lk_now l + duration)) l))"

definition WaitUntil :: "thread \<Rightarrow> SteadyTime \<Rightarrow> ('st \<Rightarrow> bool) \<Rightarrow> 'st MyLock \<Rightarrow> 'st MyLock option" where
  "WaitUntil t tp pred l =
     (if lk_mtx l \<noteq> Some t then None
      else Some (if pred (lk_shared l) then return_wait t True l else go_to_sleep t (InWaitUntil tp pred) l))"

definition WaitForPred :: "thread \<Rightarrow> int \<Rightarrow> ('st \<Rightarrow> bool) \<Rightarrow> 'st MyLock \<Rightarrow> 'st MyLock option" where
  "WaitForPred t duration pred l = WaitUntil t (lk_now l + duration) pred l"

text \<open>
  The \<open>n\<close>-th woken thread goes on. \<open>WaitFor\<close> without a predicate returns whether its time was
  over; the one with a predicate returns the predicate.
\<close>

definition resume :: "nat \<Rightarrow> 'st MyLock \<Rightarrow> 'st MyLock option" where
  "resume n l =
     (if lk_mtx l \<noteq> None \<or> n \<ge> length (lk_woken l) then None
      else (let (t, w, timed_out) = lk_woken l ! n;
                l = l\<lparr> lk_mtx := Some t, lk_woken := take n (lk_woken l) @ drop (Suc n) (lk_woken l) \<rparr> in
        Some (case w of
          InWait pred \<Rightarrow> if pred (lk_shared l) then return_wait t True l else go_to_sleep t w l
        | InWaitFor _ \<Rightarrow> return_wait t timed_out l
        | InWaitUntil _ pred \<Rightarrow>
            if pred (lk_shared l) \<or> timed_out then return_wait t (pred (lk_shared l)) l else go_to_sleep t w l)))"

definition time_over :: "SteadyTime \<Rightarrow> 'st sleep \<Rightarrow> bool" where
  "time_over now w = (case w of InWait _ \<Rightarrow> False | InWaitFor tp \<Rightarrow> tp \<le> now | InWaitUntil tp _ \<Rightarrow> tp \<le> now)"

subsection \<open>Runs\<close>

datatype 'st lock_op =
    OpLock thread | OpUnLock thread | OpNotifyOne nat | OpNotifyAll
  | OpWait thread "'st \<Rightarrow> bool" | OpWaitFor thread int
  | OpWaitForPred thread int "'st \<Rightarrow> bool" | OpWaitUntil thread SteadyTime "'st \<Rightarrow> bool"
  | OpAccess thread "'st \<Rightarrow> 'st" | OpSpurious nat | OpTimeOver nat | OpResume nat | OpTime nat

text \<open>The threads that the lock knows; a thread in a wait makes no call.\<close>

definition threads :: "'st MyLock \<Rightarrow> thread list" where
  "threads l = (case lk_mtx l of None \<Rightarrow> [] | Some t \<Rightarrow> [t]) @ map fst (lk_cond_var l) @ map fst (lk_woken l)"

definition lock_do :: "'st lock_op \<Rightarrow> 'st MyLock \<Rightarrow> 'st MyLock option" where
  "lock_do x l = (case x of
     OpLock t \<Rightarrow> if t \<in> set (threads l) then None else Lock t l
   | OpUnLock t \<Rightarrow> UnLock t l
   | OpNotifyOne n \<Rightarrow> Some (NotifyOne n l)
   | OpNotifyAll \<Rightarrow> Some (NotifyAll l)
   | OpWait t pred \<Rightarrow> Wait t pred l
   | OpWaitFor t d \<Rightarrow> WaitFor t d l
   | OpWaitForPred t d pred \<Rightarrow> WaitForPred t d pred l
   | OpWaitUntil t tp pred \<Rightarrow> WaitUntil t tp pred l
   | OpAccess t f \<Rightarrow> if lk_mtx l = Some t then Some (l\<lparr> lk_shared := f (lk_shared l) \<rparr>) else None
   | OpSpurious n \<Rightarrow> Some (wake_up n False l)
   | OpTimeOver n \<Rightarrow>
       if n < length (lk_cond_var l) \<and> time_over (lk_now l) (snd (lk_cond_var l ! n))
       then Some (wake_up n True l) else None
   | OpResume n \<Rightarrow> resume n l
   | OpTime d \<Rightarrow> Some (l\<lparr> lk_now := lk_now l + int d \<rparr>))"

fun lock_run :: "'st lock_op list \<Rightarrow> 'st MyLock \<Rightarrow> 'st MyLock option" where
  "lock_run [] l = Some l"
| "lock_run (x # xs) l = Option.bind (lock_do x l) (lock_run xs)"

lemmas lock_defs = lock_do_def Lock_def UnLock_def NotifyOne_def NotifyAll_def Wait_def WaitFor_def
  WaitForPred_def WaitUntil_def resume_def return_wait_def go_to_sleep_def wake_up_def

subsection \<open>Mutual exclusion\<close>

text \<open>No thread is at two places: it holds the mutex, sleeps or is about to wake up.\<close>

definition lock_inv :: "'st MyLock \<Rightarrow> bool" where
  "lock_inv l \<longleftrightarrow> distinct (threads l)"

lemma mset_take_nth: "n < length xs \<Longrightarrow> mset xs = add_mset (xs ! n) (mset (take n xs @ drop (Suc n) xs))"
proof -
  assume "n < length xs"
  then have "xs = take n xs @ xs ! n # drop (Suc n) xs" by (rule id_take_nth_drop)
  then show ?thesis by (metis mset.simps(2) mset_append union_mset_add_mset_right)
qed

lemma threads_wake_up: "mset (threads (wake_up n b l)) = mset (threads l)"
proof (cases "n < length (lk_cond_var l)")
  case True
  obtain t w where n: "lk_cond_var l ! n = (t, w)" by force
  have "mset (map fst (lk_cond_var l)) = add_mset t (mset (map fst (take n (lk_cond_var l) @ drop (Suc n) (lk_cond_var l))))"
    using arg_cong [OF mset_take_nth [OF True], of "image_mset fst"] n by simp
  then show ?thesis using True n by (simp add: threads_def wake_up_def)
next
  case False
  then show ?thesis by (simp add: wake_up_def)
qed

lemma threads_resume: "resume n l = Some l' \<Longrightarrow> mset (threads l') = mset (threads l)"
proof -
  assume r: "resume n l = Some l'"
  then have n: "n < length (lk_woken l)" and free: "lk_mtx l = None"
    by (auto simp: resume_def split: if_splits)
  obtain t w b where w: "lk_woken l ! n = (t, w, b)" by (metis prod_cases3)
  have "mset (map fst (lk_woken l)) = add_mset t (mset (map fst (take n (lk_woken l) @ drop (Suc n) (lk_woken l))))"
    using arg_cong [OF mset_take_nth [OF n], of "image_mset fst"] w by simp
  then show ?thesis
    using r n free w
    by (auto simp: resume_def threads_def Let_def return_wait_def go_to_sleep_def split: sleep.splits if_splits)
qed

text \<open>Every step keeps it: at most one thread is inside, and it does not wait.\<close>

lemma lock_inv_do:
  assumes i: "lock_inv l" and d: "lock_do x l = Some l'"
  shows "lock_inv l'"
proof -
  have wake: "lock_inv (wake_up n b l)" for n b
    using i mset_eq_imp_distinct_iff [OF threads_wake_up [of n b l]] by (simp add: lock_inv_def)
  have go: "lock_inv (go_to_sleep t w l)" if "lk_mtx l = Some t" for t w
    using i that by (auto simp: lock_inv_def threads_def go_to_sleep_def)
  have ret: "lock_inv (return_wait t b l)" for t b
    using i by (simp add: lock_inv_def threads_def return_wait_def)
  show ?thesis
  proof (cases x)
    case (OpResume n)
    then show ?thesis
      using d i mset_eq_imp_distinct_iff [OF threads_resume] by (auto simp: lock_do_def lock_inv_def)
  next
    case (OpLock t)
    then have "threads l' = t # threads l" "t \<notin> set (threads l)"
      using d by (auto simp: lock_do_def Lock_def threads_def split: if_splits)
    then show ?thesis using i by (simp add: lock_inv_def)
  next
    case (OpUnLock t)
    then have "threads l = t # threads l'" using d by (auto simp: lock_do_def UnLock_def threads_def split: if_splits)
    then show ?thesis using i by (simp add: lock_inv_def)
  next
    case (OpAccess t f)
    then have "threads l' = threads l" using d by (auto simp: lock_do_def threads_def split: if_splits)
    then show ?thesis using i by (simp add: lock_inv_def)
  next
    case (OpTime n)
    then have "threads l' = threads l" using d by (auto simp: lock_do_def threads_def)
    then show ?thesis using i by (simp add: lock_inv_def)
  qed (use d i wake go ret in \<open>auto simp: lock_do_def NotifyOne_def NotifyAll_def Wait_def WaitFor_def
      WaitForPred_def WaitUntil_def split: if_splits\<close>)
qed

lemma lock_inv_run: "lock_inv l \<Longrightarrow> lock_run xs l = Some l' \<Longrightarrow> lock_inv l'"
  by (induction xs arbitrary: l) (auto simp: bind_eq_Some_conv dest: lock_inv_do)

subsection \<open>Waiting for nobody\<close>

text \<open>
  \<open>NotifyAll\<close> has no body, so a thread in \<open>Wait\<close> wakes up only by a \<open>NotifyOne\<close> or by itself.
  The value provider calls \<open>NotifyAll\<close> only: a client in \<open>SubmitAndWait\<close> sleeps on when
  the result it waits for has come.
\<close>

fun wakes :: "'st lock_op \<Rightarrow> bool" where
  "wakes (OpNotifyOne n) = True"
| "wakes (OpSpurious n) = True"
| "wakes _ = False"

lemma kept_asleep:
  "n < length xs \<Longrightarrow> x \<in> set xs \<Longrightarrow> x \<noteq> xs ! n \<Longrightarrow> x \<in> set (take n xs @ drop (Suc n) xs)"
  by (metis id_take_nth_drop Un_iff set_ConsD set_append)

lemma asleep_do:
  assumes d: "lock_do x l = Some l'" and w: "\<not> wakes x" and a: "(t, InWait p) \<in> set (lk_cond_var l)"
  shows "(t, InWait p) \<in> set (lk_cond_var l')"
proof (cases x)
  case (OpTimeOver n)
  then have n: "n < length (lk_cond_var l)" "time_over (lk_now l) (snd (lk_cond_var l ! n))" "l' = wake_up n True l"
    using d by (auto simp: lock_do_def split: if_splits)
  then have "snd (lk_cond_var l ! n) \<noteq> InWait p" by (auto simp: time_over_def)
  then have "(t, InWait p) \<noteq> lk_cond_var l ! n" by (metis snd_conv)
  from kept_asleep [OF n(1) a this] n show ?thesis by (simp add: wake_up_def split: prod.split)
next
  case (OpResume n)
  then show ?thesis
    using d a by (auto simp: lock_do_def resume_def Let_def return_wait_def go_to_sleep_def split: if_splits sleep.splits prod.splits)
qed (use d w a in \<open>auto simp: lock_do_def Lock_def UnLock_def NotifyAll_def Wait_def WaitFor_def
    WaitForPred_def WaitUntil_def go_to_sleep_def return_wait_def split: if_splits\<close>)

theorem waiter_needs_notify_one:
  assumes "lock_run xs l = Some l'" and "list_all (\<lambda>x. \<not> wakes x) xs" and "(t, InWait p) \<in> set (lk_cond_var l)"
  shows "(t, InWait p) \<in> set (lk_cond_var l')"
  using assms by (induction xs arbitrary: l) (auto simp: bind_eq_Some_conv dest: asleep_do)

text \<open>The witness: the result is there, everybody is notified, and the client sleeps.\<close>

definition provider_lock :: "ProposalProv MyLock" where
  "provider_lock = \<lparr> lk_mtx = None, lk_cond_var = [], lk_woken = [], lk_now = 0, lk_results = [],
     lk_shared = sample_prov \<rparr>"

lemma waiter_needs_notify_one_witness:
  "\<exists>l l'. lock_run [OpLock 7, OpWait 7 (wait_over 1)] provider_lock = Some l \<and>
     lock_run [OpLock 2, OpAccess 2 (\<lambda>p. p\<lparr> pp_finish_index := 1 \<rparr>), OpNotifyAll, OpUnLock 2, OpTime 60] l = Some l' \<and>
     wait_over 1 (lk_shared l') \<and> (7, InWait (wait_over 1)) \<in> set (lk_cond_var l')"
proof -
  let ?xs = "[OpLock 2, OpAccess 2 (\<lambda>p. p\<lparr> pp_finish_index := 1 \<rparr>), OpNotifyAll, OpUnLock 2, OpTime 60]"
  let ?l = "provider_lock\<lparr> lk_cond_var := [(7, InWait (wait_over 1))] \<rparr>"
  have l: "lock_run [OpLock 7, OpWait 7 (wait_over 1)] provider_lock = Some ?l"
    by (simp add: lock_defs provider_lock_def threads_def sample_prov_def wait_over_def)
  obtain l' where l': "lock_run ?xs ?l = Some l'" "wait_over 1 (lk_shared l')"
    by (simp add: lock_defs threads_def wait_over_def provider_lock_def)
  have "list_all (\<lambda>x. \<not> wakes x) ?xs" "(7, InWait (wait_over 1)) \<in> set (lk_cond_var ?l)" by simp_all
  from waiter_needs_notify_one [OF l'(1) this] l l' show ?thesis by blast
qed

subsection \<open>Conditions that are announced\<close>

text \<open>
  A monitor with one waiter: the calls of other threads take the lock, change the state, notify
  where they say so, and leave. If every change that makes the condition true is
  announced, the waiter is never asleep while the condition holds.
\<close>

definition call_ops :: "('u \<Rightarrow> 'st \<Rightarrow> 'st) \<Rightarrow> ('u \<Rightarrow> 'st \<Rightarrow> bool) \<Rightarrow> thread \<Rightarrow> 'u \<Rightarrow> nat \<Rightarrow> 'st \<Rightarrow> 'st lock_op list" where
  "call_ops update notifies t u n st =
     [OpLock t, OpAccess t (update u)] @ (if notifies u st then [OpNotifyOne n] else []) @ [OpUnLock t]"

fun waiter_op :: "thread \<Rightarrow> 'st lock_op \<Rightarrow> bool" where
  "waiter_op w (OpLock t) = (t = w)"
| "waiter_op w (OpUnLock t) = (t = w)"
| "waiter_op w (OpWait t pred) = (t = w)"
| "waiter_op w (OpWaitFor t d) = (t = w)"
| "waiter_op w (OpWaitForPred t d pred) = (t = w)"
| "waiter_op w (OpWaitUntil t tp pred) = (t = w)"
| "waiter_op w (OpAccess t f) = (t = w)"
| "waiter_op w _ = True"

inductive monitor_step :: "('u \<Rightarrow> 'st \<Rightarrow> 'st) \<Rightarrow> ('u \<Rightarrow> 'st \<Rightarrow> bool) \<Rightarrow> thread \<Rightarrow> 'st MyLock \<Rightarrow> 'st MyLock \<Rightarrow> bool"
  for update notifies w where
  called: "t \<noteq> w \<Longrightarrow> lock_run (call_ops update notifies t u n (lk_shared l)) l = Some l' \<Longrightarrow>
    monitor_step update notifies w l l'"
| waiter: "waiter_op w x \<Longrightarrow> lock_do x l = Some l' \<Longrightarrow> monitor_step update notifies w l l'"

text \<open>Only the waiter sleeps, and not for what is there.\<close>

definition rightly_asleep :: "thread \<Rightarrow> ('st \<Rightarrow> bool) \<Rightarrow> 'st MyLock \<Rightarrow> bool" where
  "rightly_asleep w p l \<longleftrightarrow> lock_inv l \<and>
     (\<forall>(t, s)\<in>set (lk_cond_var l). t = w \<and> (s = InWait p \<longrightarrow> \<not> p (lk_shared l))) \<and>
     (\<forall>t. t \<in> fst ` set (lk_woken l) \<or> lk_mtx l = Some t \<longrightarrow> t = w)"

lemma one_sleeper:
  assumes "rightly_asleep w p l"
  shows "lk_cond_var l = [] \<or> (\<exists>s. lk_cond_var l = [(w, s)])" and "lk_mtx l = Some t \<Longrightarrow> lk_cond_var l = []"
    and "lk_woken l \<noteq> [] \<Longrightarrow> lk_cond_var l = []"
proof -
  have d: "distinct (map fst (lk_cond_var l))" "set (map fst (lk_cond_var l)) \<subseteq> {w}"
    using assms by (auto simp: rightly_asleep_def lock_inv_def threads_def)
  show "lk_cond_var l = [] \<or> (\<exists>s. lk_cond_var l = [(w, s)])"
  proof (cases "lk_cond_var l")
    case (Cons a xs)
    with d show ?thesis by (cases a; cases xs) auto
  qed simp
  then show "lk_mtx l = Some t \<Longrightarrow> lk_cond_var l = []" and "lk_woken l \<noteq> [] \<Longrightarrow> lk_cond_var l = []"
    using assms by (auto simp: rightly_asleep_def lock_inv_def threads_def neq_Nil_conv)
qed

lemma waiter_rightly_asleep:
  assumes r: "rightly_asleep w p l" and x: "waiter_op w x" and d: "lock_do x l = Some l'"
  shows "rightly_asleep w p l'"
proof -
  have i: "lock_inv l'" using lock_inv_do [OF _ d] r by (simp add: rightly_asleep_def)
  have wake: "rightly_asleep w p (wake_up n b l)" for n b
  proof -
    have i': "lock_inv (wake_up n b l)"
      using r mset_eq_imp_distinct_iff [OF threads_wake_up [of n b l]] by (simp add: rightly_asleep_def lock_inv_def)
    then show ?thesis
    proof (cases "n < length (lk_cond_var l)")
      case True
      then obtain s where "lk_cond_var l = [(w, s)]" "n = 0" using one_sleeper(1) [OF r] by auto
      with i' r show ?thesis by (auto simp: rightly_asleep_def wake_up_def)
    next
      case False
      with r show ?thesis by (simp add: wake_up_def)
    qed
  qed
  have ret: "rightly_asleep w p (return_wait w b l)" for b
    using r by (simp add: rightly_asleep_def return_wait_def lock_inv_def threads_def)
  have sleep: "rightly_asleep w p (go_to_sleep w s l)"
    if "lk_mtx l = Some w" "lock_inv (go_to_sleep w s l)" "s = InWait p \<longrightarrow> \<not> p (lk_shared l)" for s
    using that r one_sleeper(2) [OF r that(1)] by (simp add: rightly_asleep_def go_to_sleep_def)
  show ?thesis
  proof (cases x)
    case (OpResume n)
    then have d: "lk_mtx l = None" "n < length (lk_woken l)" "resume n l = Some l'"
      using d by (auto simp: lock_do_def resume_def split: if_splits)
    have "lk_woken l \<noteq> []" using d(2) by auto
    then have c: "lk_cond_var l = []" by (rule one_sleeper(3) [OF r])
    obtain t s b where n: "lk_woken l ! n = (t, s, b)" by (metis prod_cases3)
    have t: "t = w" using r d(2) n nth_mem [OF d(2)] by (force simp: rightly_asleep_def)
    have e: "lk_woken l' = take n (lk_woken l) @ drop (Suc n) (lk_woken l)" "lk_shared l' = lk_shared l"
      "lk_mtx l' = Some w \<and> lk_cond_var l' = [] \<or>
       lk_mtx l' = None \<and> lk_cond_var l' = [(w, s)] \<and> (s = InWait p \<longrightarrow> \<not> p (lk_shared l))"
      using d n c unfolding t
      by (auto simp: resume_def Let_def return_wait_def go_to_sleep_def split: sleep.splits if_splits)
    have "set (lk_woken l') \<subseteq> set (lk_woken l)"
      unfolding e(1) using set_take_subset [of n "lk_woken l"] set_drop_subset [of "Suc n" "lk_woken l"] by auto
    then have "fst ` set (lk_woken l') \<subseteq> fst ` set (lk_woken l)" by (rule image_mono)
    then have "\<forall>t. t \<in> fst ` set (lk_woken l') \<longrightarrow> t = w" using r by (auto simp: rightly_asleep_def)
    with i e(2,3) show ?thesis unfolding rightly_asleep_def by auto
  next
    case (OpNotifyOne n)
    then show ?thesis using d wake by (auto simp: lock_do_def NotifyOne_def)
  next
    case (OpSpurious n)
    then show ?thesis using d wake by (auto simp: lock_do_def)
  next
    case (OpTimeOver n)
    then show ?thesis using d wake by (auto simp: lock_do_def split: if_splits)
  next
    case (OpAccess t f)
    then have m: "lk_mtx l = Some w" "l' = l\<lparr> lk_shared := f (lk_shared l) \<rparr>"
      using x d by (auto simp: lock_do_def split: if_splits)
    with i r one_sleeper(2) [OF r m(1)] show ?thesis by (simp add: rightly_asleep_def)
  next
    case (OpLock t)
    then have "l' = l\<lparr> lk_mtx := Some w \<rparr>" using x d by (auto simp: lock_do_def Lock_def split: if_splits)
    with i r show ?thesis by (simp add: rightly_asleep_def)
  next
    case (OpUnLock t)
    then have "l' = l\<lparr> lk_mtx := None \<rparr>" using x d by (auto simp: lock_do_def UnLock_def split: if_splits)
    with i r show ?thesis by (simp add: rightly_asleep_def)
  next
    case (OpTime n)
    then have "l' = l\<lparr> lk_now := lk_now l + int n \<rparr>" using d by (simp add: lock_do_def)
    with i r show ?thesis by (simp add: rightly_asleep_def)
  next
    case OpNotifyAll
    then show ?thesis using d r by (simp add: lock_do_def NotifyAll_def)
  next
    case (OpWait t pred)
    then have m: "lk_mtx l = Some w" and l': "l' = (if pred (lk_shared l) then return_wait w True l else go_to_sleep w (InWait pred) l)"
      using x d by (auto simp: lock_do_def Wait_def split: if_splits)
    show ?thesis
    proof (cases "pred (lk_shared l)")
      case True
      then show ?thesis using ret l' by simp
    next
      case False
      then have "l' = go_to_sleep w (InWait pred) l" using l' by simp
      with i False show ?thesis using sleep [OF m] by auto
    qed
  next
    case (OpWaitFor t dur)
    then obtain tp where m: "lk_mtx l = Some w" and l': "l' = go_to_sleep w (InWaitFor tp) l"
      using x d by (auto simp: lock_do_def WaitFor_def split: if_splits)
    show ?thesis using sleep [OF m, of "InWaitFor tp"] i unfolding l' by simp
  next
    case (OpWaitForPred t dur pred)
    then have m: "lk_mtx l = Some w" and l': "l' = return_wait w True l \<or> (\<exists>tp. l' = go_to_sleep w (InWaitUntil tp pred) l)"
      using x d by (auto simp: lock_do_def WaitForPred_def WaitUntil_def split: if_splits)
    then show ?thesis using ret sleep [OF m] i by auto
  next
    case (OpWaitUntil t tp pred)
    then have m: "lk_mtx l = Some w" and l': "l' = return_wait w True l \<or> l' = go_to_sleep w (InWaitUntil tp pred) l"
      using x d by (auto simp: lock_do_def WaitUntil_def split: if_splits)
    then show ?thesis using ret sleep [OF m, of "InWaitUntil tp pred"] i by auto
  qed
qed

locale announced_condition =
  fixes p :: "'st \<Rightarrow> bool" and update :: "'u \<Rightarrow> 'st \<Rightarrow> 'st" and notifies :: "'u \<Rightarrow> 'st \<Rightarrow> bool"
  assumes announced: "\<not> p st \<Longrightarrow> p (update u st) \<Longrightarrow> notifies u st"
begin

lemma call_rightly_asleep:
  assumes r: "rightly_asleep w p l" and t: "t \<noteq> w"
    and d: "lock_run (call_ops update notifies t u n (lk_shared l)) l = Some l'"
  shows "rightly_asleep w p l'"
proof -
  let ?st = "lk_shared l"
  have i: "lock_inv l'" using lock_inv_run [OF _ d] r by (simp add: rightly_asleep_def)
  have free: "lk_mtx l = None"
    using d by (auto simp: call_ops_def lock_do_def Lock_def bind_eq_Some_conv split: if_splits)
  let ?l1 = "l\<lparr> lk_mtx := Some t, lk_shared := update u ?st \<rparr>"
  have l': "l' = (if notifies u ?st then NotifyOne n ?l1 else ?l1)\<lparr> lk_mtx := None \<rparr>"
    using d by (auto simp: call_ops_def lock_do_def Lock_def UnLock_def bind_eq_Some_conv split: if_splits)
  have wk: "\<forall>t. t \<in> fst ` set (lk_woken l) \<longrightarrow> t = w" using r by (simp add: rightly_asleep_def)
  consider "lk_cond_var l = []" | s where "lk_cond_var l = [(w, s)]" using one_sleeper(1) [OF r] by blast
  then show ?thesis
  proof cases
    case 1
    then have "l' = l\<lparr> lk_mtx := None, lk_shared := update u ?st \<rparr>" using l' by (simp add: NotifyOne_def wake_up_def)
    with 1 i wk show ?thesis by (simp add: rightly_asleep_def)
  next
    case (2 s)
    show ?thesis
    proof (cases "notifies u ?st")
      case True
      then have "l' = l\<lparr> lk_mtx := None, lk_shared := update u ?st, lk_cond_var := [],
          lk_woken := lk_woken l @ [(w, s, False)] \<rparr>"
        using l' 2 by (simp add: NotifyOne_def wake_up_def)
      with i wk show ?thesis by (auto simp: rightly_asleep_def)
    next
      case False
      then have l': "l' = l\<lparr> lk_mtx := None, lk_shared := update u ?st \<rparr>" using l' by simp
      have "s = InWait p \<longrightarrow> \<not> p ?st" using r 2 by (simp add: rightly_asleep_def)
      then have "s = InWait p \<longrightarrow> \<not> p (update u ?st)" using announced [of ?st u] False by blast
      with l' 2 i wk show ?thesis by (simp add: rightly_asleep_def)
    qed
  qed
qed

lemma never_misses:
  assumes "rtranclp (monitor_step update notifies w) l l'" and "rightly_asleep w p l"
  shows "rightly_asleep w p l'"
  using assms
proof (induction rule: rtranclp_induct)
  case base
  then show ?case by simp
next
  case (step l1 l2)
  from step.hyps(2) step.IH [OF step.prems] show ?case
    by (auto elim: monitor_step.cases intro: call_rightly_asleep waiter_rightly_asleep)
qed

end

subsection \<open>The sending job of the learner\<close>

text \<open>
  The calls on the learner that take its lock, and where they notify (core/learner_lead.cpp):
  the sending job waits for \<open>kPrepared\<close> in \<open>WaitForReady\<close>, and for an acknowledgement or a tenth
  of a second in its loop.
\<close>

datatype learner_call = CallMakeSenderReady node_id_t instance_id_t | CallHandleValueAck PaxMessage

primrec learner_update :: "learner_call \<Rightarrow> PaxLearner \<Rightarrow> PaxLearner" where
  "learner_update (CallMakeSenderReady receiver i) l = MakeSenderReady receiver i l"
| "learner_update (CallHandleValueAck m) l = HandleValueAck m l"

primrec learner_notifies :: "learner_call \<Rightarrow> PaxLearner \<Rightarrow> bool" where
  "learner_notifies (CallMakeSenderReady receiver i) l = (ln_job_status l = kStale)"
| "learner_notifies (CallHandleValueAck m) l =
     (ln_job_status l = kSending \<and> ln_receiver l = pm_senderId m \<and> pm_instanceId m > ln_ack_send l)"

definition sender_prepared :: "PaxLearner \<Rightarrow> bool" where
  "sender_prepared l \<longleftrightarrow> ln_job_status l = kPrepared"

interpretation sender: announced_condition sender_prepared learner_update learner_notifies
proof
  fix st u assume "\<not> sender_prepared st" "sender_prepared (learner_update u st)"
  then show "learner_notifies u st"
    by (cases u) (auto simp: sender_prepared_def MakeSenderReady_def HandleValueAck_def split: if_splits)
qed


text \<open>The witness: the job waits; and when a receiver comes it is woken up and sends.\<close>

definition learner_lock :: "PaxLearner MyLock" where
  "learner_lock = \<lparr> lk_mtx = None, lk_cond_var = [], lk_woken = [], lk_now = 0, lk_results = [],
     lk_shared = new_PaxLearner \<rparr>"


end
