(* ===== verification/Spec2Isabelle.thy ===== *)
theory Spec2Isabelle
  imports Pax_Controller Kv_Statemachine Disk_Refinement Udp_Transport Grpc_Transport Io_Server
    Unit_Removal Unit_Storage Util_Lock
begin

text \<open>
  A verification development for paxosme, a C++ implementation of Multi-Paxos (sources under
  src/). The program and its parts:

  A node is a \<open>PaxController\<close> (core/controller.cpp) that owns an acceptor, a proposer, a learner
  and the number of the current instance. Messages come in through the network, are queued
  (\<open>SafeQueue\<close>) and handed by type to a player; a player writes to the log (\<open>PaxStore\<close> over a
  \<open>LogStorage\<close>), answers through the communicator and publishes timeouts to the scheduler. The
  log is kept in memory or on disk: segment files with an index in LevelDB. Chosen values go to
  a state machine, a versioned key-value store over LevelDB. The network facade keeps a client per
  peer and a server per node over a transport, UDP with Boost.Asio or gRPC.

  How the theories follow the code. Every component is a record of its state and one function
  per operation, with the guards, early returns and order of effects of the code; definitions
  keep the names of the source, prefixed where two classes share one. What is undefined behaviour
  in C++, throws without a handler or blocks its own thread is \<open>Inl\<close> of a \<open>fault\<close>; a loop that may
  not end is a \<open>partial_function (option)\<close>, \<open>None\<close> being that it does not. Integers have their width.

    \<^item> \<open>Pax_Prelude\<close>: the integer types, faults, byte copies of integers, decimal printing.
    \<^item> \<open>Pax_Messages\<close>, \<open>Pax_Config\<close>: include/messages.hpp with the routing predicates of the
      controller, include/config.hpp; majorities intersect.
    \<^item> \<open>Safe_Queue\<close>: util/include/queue.hpp, a bounded first-in first-out queue.
    \<^item> \<open>Std_Heap\<close>, \<open>Pax_Scheduler\<close>: the standard heap algorithms as the locale \<open>std_heap_laws\<close>;
      util/event, util/time and util/schedule: what is dispatched, what replaces what.
    \<^item> \<open>Pax_Player\<close>: the contract of a storage as the locale \<open>log_storage\<close>, the storage in memory
      (storage/mem), \<open>PaxStore\<close> (core/storage_pax.cpp), the base class of the players. Its world is
      the storage, the scheduler and a trace of writes and messages in their order.
    \<^item> \<open>Pax_Acceptor\<close>: core/acceptor_pax. The locale \<open>ballot_voter\<close> is the contract of an acceptor;
      the handlers interpret it and refine an abstract acceptor, write before they answer, and
      read back what they wrote, but not after a restart.
    \<^item> \<open>Pax_ProposalProv\<close>, \<open>Pax_Proposer\<close>: core/proposal_prov, proposer_pax, proposer_state,
      proposal_counter. The bookkeeping of ballots and votes is right; the handlers never get to
      phase two.
    \<^item> \<open>Pax_Learner\<close>: core/learner_pax, learner_follow, learner_lead. The job that sends values is a
      step relation, with an invariant on its window under every interleaving.
    \<^item> \<open>Pax_Controller\<close>: core/controller.cpp, include/sm.hpp. Routing, the start, pushing the state
      machine, the main loop as a step relation.
    \<^item> \<open>Posix_Fs\<close>, \<open>Segment_Store\<close>: the file system calls with a schedule of failures and short
      transfers; storage/segment_store.cpp. \<open>Segment_Safety\<close>, \<open>Segment_Reads\<close>, \<open>Segment_Start\<close>
      and \<open>Segment_Sessions\<close> prove the invariant of the store, that stored records stay and are read
      back, what a start finds, and whole sessions with restarts.
    \<^item> \<open>Db_Storage\<close>: storage/index_db.cpp and log_stroage.cpp over LevelDB; the storage on disk
      interprets \<open>log_storage\<close>. \<open>Replay_Termination\<close>: starting it always returns.
      \<open>Disk_Refinement\<close>: with \<open>Delete\<close> (locale \<open>deletable_storage\<close>) it refines a map.
    \<^item> \<open>Kv_Statemachine\<close>: kvsm/kv.cpp, kvsm/kvsm.cpp.
    \<^item> \<open>Peer_Network\<close>: include/network.hpp, network/network.cpp, Communicator.cpp,
      core/communicate_pax.cpp, node/node.cpp; addresses and node ids, hashes of peers, tables of
      clients and servers. \<open>Udp_Transport\<close>: network/asio/udp_server.cpp and udp_client.cpp.
    \<^item> \<open>Grpc_Transport\<close>: network/grpc. What the client sends for each message; the server's call
      objects in a heap, their states, the loop over the completion queue. The invariant \<open>sound\<close>:
      tags and objects stay typed, one object per served rpc, every request delivered once.
    \<^item> \<open>Io_Messages\<close>, \<open>Io_Connection\<close>, \<open>Io_Server\<close>: network/asio/include/io_client_server.hpp,
      templates that nothing instantiates, taken at a 32-bit identifier. Messages as stacks, the
      queue, the handshake function; two connections joined by a byte stream, with the invariant
      \<open>linked\<close> on the bytes in flight; the client's and the server's book-keeping.

    \<^item> \<open>Segment_Positions\<close>: where \<open>Append\<close> puts a record, that a segment that is left is cut at its
      last record, stores at work over many segments; no restart after a change of segment.
      \<open>Segment_Clean\<close>: the thread that deletes segments, as turns at given times; an event replaces
      the one before it, so of two segments removed in a row the first stays.
    \<^item> \<open>Util_Lock\<close>: util/lock.cpp, the mutex with its condition variable, whose calls are steps of
      threads in any order. Mutual exclusion; the locale \<open>announced_condition\<close>, interpreted on the
      sending job of the learner, which misses no notification; \<open>NotifyAll\<close> wakes up nobody.
    \<^item> \<open>Unit_Harness\<close>, \<open>Unit_Index\<close>, \<open>Unit_Segments\<close>, \<open>Unit_Replays\<close>, \<open>Unit_Removal\<close>, \<open>Unit_Storage\<close>:
      the tests of unittest/storage as definitions over the model, a verdict each, with
      include/common.hpp and fs_helper.cpp. They hold for every checksum function, LevelDB and
      content of the disk that the hypotheses allow: all pass but \<open>TestReplayMultiLogs\<close>,
      \<open>TestLogStoragePut\<close> and \<open>SegmentStoreInitEmptyDirPath\<close>, which run into undefined behaviour.

  Parameters, and what is assumed of them where a theorem says so: LevelDB (\<open>leveldb_ok\<close>: a put
  and a delete change exactly their key, or nothing when they fail; \<open>leveldb_puts\<close>: puts
  succeed; \<open>leveldb_reliable\<close>: both succeed and the last key is the greatest), the code that protoc
  generates (serialising and parsing back gives the message), zlib's \<open>crc32\<close> (nothing), the state
  machine of the controller (nothing). Boost.Asio and gRPC are sources of events: their completions
  come in any order, with any outcome. Sample instances witness every theorem that has hypotheses.

  Bounds: the store's theorems ask for sizes below 2^62 and the replay for files below 2^31 bytes,
  because \<open>ReplayLog\<close> returns an \<open>int\<close>; without that bound a replay need not end. No fuel is used.

  Not modelled: the accept loop of the Asio template (it calls a function that is commented out
  and has no instance), the removal of the test directories, the tests of the network (they start
  real servers; what they call is modelled), logging. Threads interleave at the granularity of
  critical sections (of the calls of the lock in \<open>Util_Lock\<close>), the clean-up thread at that of its
  handler.
\<close>

subsection \<open>Properties across components\<close>

text \<open>
  C27. No reply of an acceptor is ever counted. Whatever request an acceptor answers, the last
  thing it does is to send one reply, and a proposer on any node but node 0 ignores this
  reply, in every state it may be in: the reply carries neither the proposer's node id nor the
  proposal id that the proposer compares.
\<close>

theorem acceptor_reply_is_ignored:
  fixes env :: "'st Env" and w :: "'st World" and s :: AcceptorState
  assumes "is_request m" and "GetNodeId env' \<noteq> 0"
  shows "\<exists>r. last (w_trace (snd (Acceptor_HandleMessage env i m (s, w)))) = SentTo (pm_proposingNodeId m) r
     \<and> (\<forall>j p (w' :: 'st World). Proposer_HandleMessage env' j r (p, w') = (p, w', None))"
  using assms
  by (auto simp: HandleMessage_world ReplyProposer_def Proposer_HandleMessage_def HandleProposeAck_eq
      ack_matches_def HandleAcceptAck_def Let_def)

lemma acceptor_reply_is_ignored_witness:
  "\<exists>r. last (w_trace (snd (Acceptor_HandleMessage sample_env 4 sample_propose
         (new_AcceptorState, sample_world)))) = SentTo 3 r
     \<and> Proposer_HandleMessage sample_env 4 r (proposing, sample_world) = (proposing, sample_world, None)"
  using acceptor_reply_is_ignored [of sample_propose sample_env sample_env 4 new_AcceptorState sample_world]
  by auto

text \<open>
  C26. Proposals of different nodes collide. The request that \<open>Propose\<close> broadcasts is, for every
  acceptor, a request of node number \<open>id\<close> with proposal number 0, where \<open>id\<close> is the
  proposal id: it is approved exactly when the acceptor's promise is below \<open>(0, id)\<close>, and the
  answer goes to node \<open>id\<close>. So when two nodes propose with the same id, an acceptor that
  approved one refuses the other.
\<close>

theorem proposals_collide:
  fixes env env' :: "'st Env" and p q :: PaxProposer and w w' :: "'st World" and s :: AcceptorState
  assumes "\<not> SomeoneReject (pr_counter p)" and "\<not> SomeoneReject (pr_counter q)"
    and "prs_my_proposal_id (pr_state p) = prs_my_proposal_id (pr_state q)"
  shows "\<exists>m k. w_trace (snd (Propose env i (p, w))) = w_trace w @ [Broadcasted m]
     \<and> w_trace (snd (Propose env' i (q, w'))) = w_trace w' @ [Broadcasted k]
     \<and> (approves m s \<longleftrightarrow> promised s < Ballot 0 (prs_my_proposal_id (pr_state p)))
     \<and> pm_proposingNodeId m = prs_my_proposal_id (pr_state p)
     \<and> (approves m s \<longrightarrow> \<not> approves k (acceptor_step m s))"
proof -
  let ?m = "GenerateMessage env i kMSG_PROPOSE_BROADCAST (prs_my_proposal_id (pr_state p)) p"
  let ?k = "GenerateMessage env' i kMSG_PROPOSE_BROADCAST (prs_my_proposal_id (pr_state q)) q"
  have g: "GenerateMessage env i t pid (p\<lparr> pr_status := st, pr_counter := c \<rparr>) = GenerateMessage env i t pid p"
    for env :: "'st Env" and t pid p st c by (simp add: GenerateMessage_def)
  have "w_trace (snd (Propose env i (p, w))) = w_trace w @ [Broadcasted ?m]"
    "w_trace (snd (Propose env' i (q, w'))) = w_trace w' @ [Broadcasted ?k]"
    using assms(1,2) by (simp_all add: Propose_def g Let_def)
  moreover have "is_request ?m" "is_request ?k"
    "msg_ballot ?m = Ballot 0 (prs_my_proposal_id (pr_state p))" "msg_ballot ?k = msg_ballot ?m"
    "pm_proposingNodeId ?m = prs_my_proposal_id (pr_state p)"
    using assms(3) by (simp_all add: is_request_def msg_ballot_def GenerateMessage_def Let_def)
  moreover have "approves ?m s \<longrightarrow> promised (acceptor_step ?m s) = msg_ballot ?m"
    by (simp add: voter.rank_approve)
  ultimately show ?thesis by (intro exI [of _ ?m] exI [of _ ?k]) (simp add: approves_iff)
qed

lemma proposals_collide_witness:
  "\<exists>m. w_trace (snd (Propose sample_env 4 (new_PaxProposer, sample_world))) = [Broadcasted m]
     \<and> approves m new_AcceptorState"
  using proposals_collide [of new_PaxProposer new_PaxProposer sample_env 4 sample_world sample_env
      sample_world new_AcceptorState]
  by (auto simp: SomeoneReject_def new_PaxProposer_def new_ProposalCounter_def new_ProposerState_def)

text \<open>
  C28. A started node hears nothing. Every server that \<open>Node::Run\<close> starts is started with an empty
  callback. Over UDP such a server delivers and echoes nothing, whatever datagrams arrive. Over
  gRPC the first request of an rpc that it serves ends the thread of its loop, and
  whatever happens later nothing is delivered and no call is answered.
\<close>

theorem started_node_hears_nothing:
  assumes "Network_New ps = Inr nw" and "no_network options = Some nw" and "Node_Run options pax node = Inr node'"
    and "nd_network node' = Some nw'" and "ServerStart n cb \<in> set (nw_trace nw')"
    and "PrepareRequest r \<in> set served_rpcs"
  shows "(\<exists>u. Udp_Start cb new_UdpServer = Some u \<and> us_trace (udp_run datagrams u) = []) \<and>
    (\<exists>s t u. Grpc_Start True cb new_GrpcServer = Inr s \<and>
      grpc_run ser [LoopStarts, CallArrives r, LoopTurns] s = Inr t \<and> gs_loop t = LoopEnded \<and>
      grpc_run ser evs t = Inr u \<and> delivered (gs_trace u) = [] \<and> answers (gs_trace u) = [])"
proof -
  from Node_Run_servers [OF assms(1-3)] assms(4,5) have "cb = False" by auto
  moreover obtain u where "Udp_Start False new_UdpServer = Some u" by (simp add: Udp_Start_def new_UdpServer_def)
  ultimately show ?thesis using udp_without_callback grpc_dies_without_callback [OF assms(6), of ser evs] by blast
qed

lemma started_node_hears_nothing_witness:
  "\<exists>nw node' :: (unit, unit) Node. Network_New [NodeIdToPeer 0x0100007F00001F40] = Inr nw \<and>
     Node_Run \<lparr> no_nodeIdList = [], no_nodeId = 1, no_storage = Some (), no_sm = Some (), no_network = Some nw \<rparr>
       \<lparr> opt_node_id = 1, opt_majority_threshold = 2 / 3, opt_member_count = 3, opt_members = {1, 2, 3} \<rparr>
       \<lparr> nd_network = None, nd_storage = None, nd_sm = None \<rparr> = Inr node' \<and>
     (\<exists>u. Udp_Start False new_UdpServer = Some u \<and> us_trace (udp_run [Datagram False ''a'', Sent] u) = [])"
proof -
  let ?o = "\<lambda>nw. \<lparr> no_nodeIdList = [], no_nodeId = 1, no_storage = Some (), no_sm = Some (), no_network = Some nw \<rparr>"
  let ?c = "\<lparr> opt_node_id = 1, opt_majority_threshold = 2 / 3, opt_member_count = 3, opt_members = {1, 2, 3} \<rparr>"
  let ?n = "\<lparr> nd_network = None, nd_storage = None, nd_sm = None \<rparr> :: (unit, unit) Node"
  let ?nw = "\<lparr> nw_clients = [], nw_servers = [(0x0100007F00001F40, True)], nw_trace = [] \<rparr>"
  let ?nw' = "?nw\<lparr> nw_trace := [ServerStart 0x0100007F00001F40 False] \<rparr>"
  have "PeerToNodeId (NodeIdToPeer 0x0100007F00001F40) = Inr 0x0100007F00001F40"
    by (rule PeerToNodeId_NodeIdToPeer) (simp add: drop_bit_eq_div)
  then have nw: "Network_New [NodeIdToPeer 0x0100007F00001F40] = Inr ?nw" by (simp add: Network_New_def)
  have run: "Node_Run (?o ?nw) ?c ?n = Inr (?n\<lparr> nd_network := Some ?nw', nd_storage := Some (), nd_sm := Some () \<rparr>)"
    by (simp add: Node_Run_def Node_Init_def Node_InitNetwork_def Network_Start_def Let_def)
  show ?thesis
    using started_node_hears_nothing [OF nw _ run, of ?nw' "0x0100007F00001F40" False "empty_request Rpc_Accept"
        "[Datagram False ''a'', Sent]"] nw run
    by (auto simp: served_rpcs_def)
qed

text \<open>
  C8. A round in two phases with one ballot never chooses a value. When a majority of the members
  has approved the prepare request of a ballot, at whatever moment of whatever runs of
  their acceptors in an instance, then the members that ever approve an accept request of
  that ballot are less than a majority: an acceptor approves each ballot once, and any two
  majorities share a member.
\<close>

theorem two_phase_round_never_chooses:
  assumes "finite N" and "card N = unat (GetNodeCount c)" and "N \<noteq> {}"
    and "1 / 2 < opt_majority_threshold c" and "opt_majority_threshold c \<le> 1"
    and "unat (GetMajorityCount c) \<le> card {n \<in> N. \<exists>m \<in> set (voter.approvals (ms n) (s n)).
           pm_messageType m = kMSG_PROPOSE_BROADCAST \<and> msg_ballot m = b}"
  shows "card {n \<in> N. \<exists>m \<in> set (voter.approvals (ms n) (s n)).
           pm_messageType m = kMSG_ACCEPT_BROADCAST \<and> msg_ballot m = b} < unat (GetMajorityCount c)"
proof (rule ccontr)
  let ?Q = "{n \<in> N. \<exists>m \<in> set (voter.approvals (ms n) (s n)). pm_messageType m = kMSG_PROPOSE_BROADCAST \<and> msg_ballot m = b}"
  let ?R = "{n \<in> N. \<exists>m \<in> set (voter.approvals (ms n) (s n)). pm_messageType m = kMSG_ACCEPT_BROADCAST \<and> msg_ballot m = b}"
  assume "\<not> ?thesis"
  then have "?Q \<inter> ?R \<noteq> {}" using assms by (intro quorums_intersect [of N c]) auto
  then obtain n m k where mk: "m \<in> set (voter.approvals (ms n) (s n))" "k \<in> set (voter.approvals (ms n) (s n))"
    and t: "pm_messageType m = kMSG_PROPOSE_BROADCAST" "pm_messageType k = kMSG_ACCEPT_BROADCAST"
    and b: "msg_ballot m = b" "msg_ballot k = b" by blast
  have "distinct (map msg_ballot (voter.approvals (ms n) (s n)))"
    using voter.approvals_sorted [of "ms n" "s n"] by (simp add: strict_sorted_iff)
  with mk b have "m = k" by (auto simp: distinct_map dest: inj_onD)
  with t show False by simp
qed

lemma two_phase_round_never_chooses_witness:
  "card {n \<in> {1, 2, 3 :: nat}. \<exists>m \<in> set (voter.approvals [sample_propose, sample_accept]
      new_AcceptorState). pm_messageType m = kMSG_ACCEPT_BROADCAST \<and> msg_ballot m = msg_ballot sample_propose} < 2"
proof -
  let ?c = "\<lparr> opt_node_id = 1, opt_majority_threshold = 2 / 3, opt_member_count = 3, opt_members = {1, 2, 3} \<rparr>"
  have m: "GetMajorityCount ?c = 2" by (simp add: GetMajorityCount_def GetNodeCount_def)
  have "sample_propose \<in> set (voter.approvals [sample_propose, sample_accept] new_AcceptorState)"
    "pm_messageType sample_propose = kMSG_PROPOSE_BROADCAST"
    by (simp add: approves_iff) (simp add: sample_propose_def new_PaxMessage_def)
  then have "{n \<in> {1, 2, 3 :: nat}. \<exists>m \<in> set (voter.approvals [sample_propose, sample_accept]
      new_AcceptorState). pm_messageType m = kMSG_PROPOSE_BROADCAST \<and> msg_ballot m = msg_ballot sample_propose} = {1, 2, 3}"
    by blast
  then show ?thesis
    using two_phase_round_never_chooses [of "{1, 2, 3 :: nat}" ?c "\<lambda>_. [sample_propose, sample_accept]"
        "\<lambda>_. new_AcceptorState" "msg_ballot sample_propose"] m
    by (simp add: GetNodeCount_def del: voter.approvals.simps)
qed

end
